(* ===== verification/Prelude.thy ===== *)
theory Prelude
  imports Main "HOL-Library.Word"
begin

text \<open>
  Shared vocabulary of the development: the C integer types as words, the outcome of a
  piece of kernel code (it returns, it calls \<^verbatim>\<open>panic\<close>, it gives up the CPU inside
  \<^verbatim>\<open>sched\<close>, or it spins on a lock), sequencing of such pieces, total-correctness
  weakest preconditions for them, and a few facts on lists that several components use.
\<close>

section \<open>Machine integers\<close>

type_synonym uint = "32 word"
type_synonym ushort = "16 word"
type_synonym uchar = "8 word"

section \<open>Outcomes of kernel code\<close>

text \<open>
  \<open>Ret a s\<close>: the code returned \<open>a\<close> in state \<open>s\<close>.
  \<open>Panic m\<close>: it called \<^verbatim>\<open>panic(m)\<close>, which never returns.
  \<open>Switch s\<close>: it entered the scheduler with \<^verbatim>\<open>swtch\<close>; \<open>s\<close> is the state at the switch.
  \<open>Spin\<close>: it is in a busy-wait loop whose condition only another CPU or thread can change.
\<close>

datatype ('s, 'a) outcome = Ret 'a 's | Panic string | Switch 's | Spin

type_synonym ('s, 'a) comp = "'s \<Rightarrow> ('s, 'a) outcome"

abbreviation ret :: "'a \<Rightarrow> ('s, 'a) comp" where
  "ret \<equiv> Ret"

definition panic :: "string \<Rightarrow> ('s, 'a) comp" where
  "panic m s = Panic m"

definition gets :: "('s \<Rightarrow> 'a) \<Rightarrow> ('s, 'a) comp" where
  "gets f s = Ret (f s) s"

definition modify :: "('s \<Rightarrow> 's) \<Rightarrow> ('s, unit) comp" where
  "modify f s = Ret () (f s)"

definition bnd :: "('s, 'a) comp \<Rightarrow> ('a \<Rightarrow> ('s, 'b) comp) \<Rightarrow> ('s, 'b) comp" where
  "bnd m f s = (case m s of Ret a s' \<Rightarrow> f a s' | Panic e \<Rightarrow> Panic e
                | Switch s' \<Rightarrow> Switch s' | Spin \<Rightarrow> Spin)"

definition andthen :: "('s, 'a) comp \<Rightarrow> ('s, 'b) comp \<Rightarrow> ('s, 'b) comp" where
  "andthen m k = bnd m (\<lambda>_. k)"

text \<open>\<open>for_each xs f\<close> runs \<open>f\<close> on the elements of \<open>xs\<close> in order.\<close>

fun for_each :: "'x list \<Rightarrow> ('x \<Rightarrow> ('s, unit) comp) \<Rightarrow> ('s, unit) comp" where
  "for_each [] f = ret ()"
| "for_each (x # xs) f = andthen (f x) (for_each xs f)"

text \<open>
  \<open>loop n body x\<close>: a C loop with loop variables \<open>x\<close>. One run of the body either goes on
  with new values of the variables (\<open>Inl\<close>) or leaves the loop with a result (\<open>Inr\<close>).
  A loop that has not been left after \<open>n\<close> rounds counts as one that does not end.
\<close>

fun loop :: "nat \<Rightarrow> ('x \<Rightarrow> ('s, 'x + 'a) comp) \<Rightarrow> 'x \<Rightarrow> ('s, 'a) comp" where
  "loop 0 body x = (\<lambda>s. Spin)"
| "loop (Suc n) body x = bnd (body x) (\<lambda>r. case r of Inl x' \<Rightarrow> loop n body x' | Inr a \<Rightarrow> ret a)"

lemmas comp_defs = panic_def gets_def modify_def

lemma bnd_Ret [simp]: "m s = Ret a s' \<Longrightarrow> bnd m f s = f a s'"
  by (simp add: bnd_def)

lemma bnd_Panic [simp]: "m s = Panic e \<Longrightarrow> bnd m f s = Panic e"
  by (simp add: bnd_def)

lemma bnd_Switch [simp]: "m s = Switch s' \<Longrightarrow> bnd m f s = Switch s'"
  by (simp add: bnd_def)

lemma bnd_Spin [simp]: "m s = Spin \<Longrightarrow> bnd m f s = Spin"
  by (simp add: bnd_def)

lemma andthen_Ret [simp]: "m s = Ret a s' \<Longrightarrow> andthen m k s = k s'"
  by (simp add: andthen_def)

lemma andthen_Panic [simp]: "m s = Panic e \<Longrightarrow> andthen m k s = Panic e"
  by (simp add: andthen_def)

lemma andthen_Switch [simp]: "m s = Switch s' \<Longrightarrow> andthen m k s = Switch s'"
  by (simp add: andthen_def)

lemma andthen_Spin [simp]: "m s = Spin \<Longrightarrow> andthen m k s = Spin"
  by (simp add: andthen_def)

lemma panic_run [simp]: "panic m s = Panic m"
  by (simp add: comp_defs)

lemma gets_run [simp]: "gets f s = Ret (f s) s"
  by (simp add: comp_defs)

lemma modify_run [simp]: "modify g s = Ret () (g s)"
  by (simp add: comp_defs)

lemma bnd_ret [simp]: "bnd (ret a) f = f a"
  by (simp add: fun_eq_iff bnd_def)

lemma bnd_assoc: "bnd (bnd m f) g = bnd m (\<lambda>a. bnd (f a) g)"
  by (auto simp: fun_eq_iff bnd_def split: outcome.splits)

lemma bnd_eq_Ret_iff:
  "bnd m f s = Ret b s'' \<longleftrightarrow> (\<exists>a s'. m s = Ret a s' \<and> f a s' = Ret b s'')"
  by (auto simp: bnd_def split: outcome.splits)

lemma andthen_eq_Ret_iff:
  "andthen m k s = Ret b s'' \<longleftrightarrow> (\<exists>a s'. m s = Ret a s' \<and> k s' = Ret b s'')"
  by (simp add: andthen_def bnd_eq_Ret_iff)

lemma for_each_append: "for_each (xs @ ys) f = andthen (for_each xs f) (for_each ys f)"
  by (induction xs) (simp_all add: andthen_def bnd_assoc)

text \<open>
  When every round that goes on decreases a measure, more fuel than the measure changes
  nothing: the loop ends by itself.
\<close>

lemma loop_fuel:
  assumes "\<And>x s x' s'. body x s = Ret (Inl x') s' \<Longrightarrow> mu x' < (mu x :: nat)" and "mu x < n" "n \<le> m"
  shows "loop m body x s = loop n body x s"
  using assms(2,3)
proof (induction n arbitrary: m x s)
  case (Suc n)
  then obtain m' where m: "m = Suc m'" "n \<le> m'" by (cases m) auto
  have "loop m' body x' s' = loop n body x' s'" if "body x s = Ret (Inl x') s'" for x' s'
    using Suc.IH [of x' m' s'] assms(1) [OF that] Suc.prems m by simp
  then show ?case unfolding m by (auto simp: bnd_def split: outcome.splits sum.splits)
qed simp

section \<open>Weakest preconditions\<close>

text \<open>
  \<open>wp m Q s\<close>: started in \<open>s\<close>, the code \<open>m\<close> returns (it neither panics nor blocks) and
  its result and final state satisfy \<open>Q\<close>.
\<close>

definition wp :: "('s, 'a) comp \<Rightarrow> ('a \<Rightarrow> 's \<Rightarrow> bool) \<Rightarrow> 's \<Rightarrow> bool" where
  "wp m Q s = (case m s of Ret a s' \<Rightarrow> Q a s' | _ \<Rightarrow> False)"

named_theorems wp_simps

lemma wp_ret [wp_simps]: "wp (ret a) Q s = Q a s"
  by (simp add: wp_def)

lemma wp_panic [wp_simps]: "wp (panic m) Q s = False"
  by (simp add: wp_def)

lemma wp_gets [wp_simps]: "wp (gets f) Q s = Q (f s) s"
  by (simp add: wp_def)

lemma wp_modify [wp_simps]: "wp (modify g) Q s = Q () (g s)"
  by (simp add: wp_def)

lemma wp_bnd [wp_simps]: "wp (bnd m f) Q s = wp m (\<lambda>a. wp (f a) Q) s"
  by (simp add: wp_def bnd_def split: outcome.splits)

lemma wp_andthen [wp_simps]: "wp (andthen m k) Q s = wp m (\<lambda>_. wp k Q) s"
  by (simp add: andthen_def wp_bnd)

lemma wp_if [wp_simps]: "wp (if b then m else k) Q s = (if b then wp m Q s else wp k Q s)"
  by simp

lemma wp_Ret_iff: "wp m Q s \<longleftrightarrow> (\<exists>a s'. m s = Ret a s' \<and> Q a s')"
  by (auto simp: wp_def split: outcome.splits)

lemma wp_mono: "wp m Q s \<Longrightarrow> (\<And>a s'. Q a s' \<Longrightarrow> R a s') \<Longrightarrow> wp m R s"
  by (auto simp: wp_def split: outcome.splits)

lemma wp_conj: "wp m Q s \<Longrightarrow> wp m R s \<Longrightarrow> wp m (\<lambda>a s. Q a s \<and> R a s) s"
  by (auto simp: wp_def split: outcome.splits)

lemma wpI: "m s = Ret a s' \<Longrightarrow> Q a s' \<Longrightarrow> wp m Q s"
  by (simp add: wp_def)

text \<open>A loop keeps an invariant that relates the elements still to come and the state.\<close>

lemma wp_for_each:
  assumes step: "\<And>x xs s. I (x # xs) s \<Longrightarrow> wp (f x) (\<lambda>_. I xs) s"
    and start: "I xs s"
  shows "wp (for_each xs f) (\<lambda>_. I []) s"
  using start
proof (induction xs arbitrary: s)
  case Nil
  then show ?case by (simp add: wp_simps)
next
  case (Cons x xs)
  from Cons.prems have "wp (f x) (\<lambda>_. I xs) s" by (rule step)
  then show ?case by (auto simp: wp_simps intro: wp_mono Cons.IH)
qed

lemma for_each_upto:
  assumes "I 0 s" "\<And>k s. k < n \<Longrightarrow> I k s \<Longrightarrow> \<exists>t. f k s = Ret () t \<and> I (Suc k) t"
  shows "\<exists>t. for_each [0..<n] f s = Ret () t \<and> I n t"
  using assms(2)
proof (induction n)
  case 0
  then show ?case using assms(1) by simp
next
  case (Suc n)
  then obtain t where "for_each [0..<n] f s = Ret () t" "I n t" using less_SucI by blast
  moreover then obtain u where "f n t = Ret () u" "I (Suc n) u" using Suc.prems by blast
  ultimately show ?case by (simp add: for_each_append)
qed

text \<open>A loop whose body keeps an invariant and decreases a measure below the bound ends.\<close>

lemma wp_loop:
  assumes step: "\<And>x s. I x s \<Longrightarrow>
      wp (body x) (\<lambda>r s'. case r of Inl x' \<Rightarrow> I x' s' \<and> f x' < (f x :: nat) | Inr a \<Rightarrow> Q a s') s"
    and start: "I x s" "f x < n"
  shows "wp (loop n body x) Q s"
  using start
proof (induction n arbitrary: x s)
  case 0
  then show ?case by simp
next
  case (Suc n)
  show ?case unfolding loop.simps wp_bnd
  proof (rule wp_mono [OF step [OF Suc.prems(1)]])
    fix r s'
    assume "case r of Inl x' \<Rightarrow> I x' s' \<and> f x' < f x | Inr a \<Rightarrow> Q a s'"
    then show "wp (case r of Inl x' \<Rightarrow> loop n body x' | Inr a \<Rightarrow> ret a) Q s'"
      using Suc by (cases r) (auto simp: wp_simps)
  qed
qed

lemma loop_numeral [simp]:
  "loop (numeral k) body x =
     bnd (body x) (\<lambda>r. case r of Inl x' \<Rightarrow> loop (pred_numeral k) body x' | Inr a \<Rightarrow> ret a)"
  by (simp add: numeral_eq_Suc)

section \<open>Lists\<close>

text \<open>The first index at which a predicate holds, as the table scans compute it.\<close>

fun find_idx :: "('a \<Rightarrow> bool) \<Rightarrow> 'a list \<Rightarrow> nat option" where
  "find_idx P [] = None"
| "find_idx P (x # xs) = (if P x then Some 0 else map_option Suc (find_idx P xs))"

lemma find_idx_None_iff: "find_idx P xs = None \<longleftrightarrow> (\<forall>x\<in>set xs. \<not> P x)"
  by (induction xs) auto

lemma find_idx_SomeD:
  "find_idx P xs = Some i \<Longrightarrow> i < length xs \<and> P (xs ! i) \<and> (\<forall>j<i. \<not> P (xs ! j))"
proof (induction xs arbitrary: i)
  case Nil
  then show ?case by simp
next
  case (Cons x xs)
  then show ?case
    by (auto split: if_splits simp: nth_Cons less_Suc_eq_0_disj split: nat.splits)
qed

lemma find_idx_SomeI:
  "i < length xs \<Longrightarrow> P (xs ! i) \<Longrightarrow> (\<And>j. j < i \<Longrightarrow> \<not> P (xs ! j)) \<Longrightarrow> find_idx P xs = Some i"
proof (induction xs arbitrary: i)
  case Nil
  then show ?case by simp
next
  case (Cons x xs)
  show ?case
  proof (cases i)
    case 0
    with Cons.prems show ?thesis by simp
  next
    case (Suc k)
    have "find_idx P xs = Some k"
    proof (rule Cons.IH)
      show "k < length xs" and "P (xs ! k)" using Cons.prems Suc by simp_all
      show "\<not> P (xs ! j)" if "j < k" for j
        using Cons.prems(3)[of "Suc j"] that Suc by simp
    qed
    moreover have "\<not> P x" using Cons.prems(3)[of 0] Suc by simp
    ultimately show ?thesis using Suc by simp
  qed
qed

text \<open>Applying a function to one element of a table.\<close>

definition upd_at :: "nat \<Rightarrow> ('a \<Rightarrow> 'a) \<Rightarrow> 'a list \<Rightarrow> 'a list" where
  "upd_at i f xs = (if i < length xs then xs[i := f (xs ! i)] else xs)"

lemma length_upd_at [simp]: "length (upd_at i f xs) = length xs"
  by (simp add: upd_at_def)

lemma nth_upd_at: "j < length xs \<Longrightarrow> upd_at i f xs ! j = (if i = j then f (xs ! j) else xs ! j)"
  by (auto simp: upd_at_def)

lemma nth_upd_at_eq [simp]: "i < length xs \<Longrightarrow> upd_at i f xs ! i = f (xs ! i)"
  by (simp add: upd_at_def)

lemma nth_upd_at_neq [simp]: "i \<noteq> j \<Longrightarrow> upd_at i f xs ! j = xs ! j"
  by (simp add: upd_at_def)

lemma upd_at_upd_at [simp]: "upd_at i f (upd_at i g xs) = upd_at i (\<lambda>x. f (g x)) xs"
  by (simp add: upd_at_def)

lemma upd_at_eqI: "(i < length xs \<Longrightarrow> f (xs ! i) = g (xs ! i)) \<Longrightarrow> upd_at i f xs = upd_at i g xs"
  by (auto simp: upd_at_def)

lemma upd_at_id: "(i < length xs \<Longrightarrow> f (xs ! i) = xs ! i) \<Longrightarrow> upd_at i f xs = xs"
  by (auto simp: upd_at_def)

end
