(* ===== verification/Memory.thy ===== *)
theory Memory
  imports Prelude
begin

text \<open>
  Byte-addressed kernel memory with little-endian 32-bit loads and stores, and the
  address arithmetic of \<^verbatim>\<open>mmu.h\<close> and \<^verbatim>\<open>memlayout.h\<close>. Addresses are kernel virtual
  addresses; the physical byte \<open>pa\<close> is at \<open>p2v pa\<close>.
\<close>

unbundle bit_operations_syntax

type_synonym memory = "uint \<Rightarrow> uchar"

section \<open>Layout constants and address arithmetic\<close>

definition PGSIZE :: uint where "PGSIZE = 4096"
definition KERNBASE :: uint where "KERNBASE = 0x80000000"
definition EXTMEM :: uint where "EXTMEM = 0x100000"
definition PHYSTOP :: uint where "PHYSTOP = 0xE000000"
definition DEVSPACE :: uint where "DEVSPACE = 0xFE000000"
definition KERNLINK :: uint where "KERNLINK = KERNBASE + EXTMEM"

definition v2p :: "uint \<Rightarrow> uint" where "v2p a = a - KERNBASE"
definition p2v :: "uint \<Rightarrow> uint" where "p2v a = a + KERNBASE"

definition PGROUNDUP :: "uint \<Rightarrow> uint" where
  "PGROUNDUP sz = (sz + PGSIZE - 1) AND NOT (PGSIZE - 1)"

definition PGROUNDDOWN :: "uint \<Rightarrow> uint" where
  "PGROUNDDOWN a = a AND NOT (PGSIZE - 1)"

definition PDX :: "uint \<Rightarrow> uint" where
  "PDX va = drop_bit 22 va AND 0x3FF"

definition PTX :: "uint \<Rightarrow> uint" where
  "PTX va = drop_bit 12 va AND 0x3FF"

definition PTE_P :: uint where "PTE_P = 1"
definition PTE_W :: uint where "PTE_W = 2"
definition PTE_U :: uint where "PTE_U = 4"

definition PTE_ADDR :: "uint \<Rightarrow> uint" where
  "PTE_ADDR pte = pte AND NOT 0xFFF"

definition PTE_FLAGS :: "uint \<Rightarrow> uint" where
  "PTE_FLAGS pte = pte AND 0xFFF"

lemmas layout_defs = PGSIZE_def KERNBASE_def EXTMEM_def PHYSTOP_def DEVSPACE_def KERNLINK_def

lemma v2p_p2v [simp]: "v2p (p2v a) = a"
  and p2v_v2p [simp]: "p2v (v2p a) = a"
  by (simp_all add: v2p_def p2v_def)

lemma unat_bound: "unat (a :: uint) < 2 ^ 32"
  using unsigned_less [of a] by simp

lemma and_not_mask12: "(a :: uint) AND NOT 0xFFF = push_bit 12 (drop_bit 12 a)"
proof -
  have m: "(0xFFF :: uint) = mask 12" by (simp add: mask_eq_exp_minus_1)
  show ?thesis
    unfolding m by (rule bit_word_eqI) (auto simp: bit_simps)
qed

lemma unat_and_not_mask12: "unat ((a :: uint) AND NOT 0xFFF) = unat a div 4096 * 4096"
proof -
  have "unat a div 4096 * 4096 < 2 ^ 32"
    using unat_bound [of a] by (simp add: div_times_less_eq_dividend le_less_trans)
  then show ?thesis
    unfolding and_not_mask12
    by (simp add: push_bit_eq_mult drop_bit_eq_div unat_div unat_word_ariths)
qed

lemma unat_PGROUNDDOWN: "unat (PGROUNDDOWN a) = unat a div 4096 * 4096"
  using unat_and_not_mask12 [of a] by (simp add: PGROUNDDOWN_def PGSIZE_def)

lemma PGROUNDDOWN_le: "PGROUNDDOWN a \<le> a"
  by (simp add: word_le_nat_alt unat_PGROUNDDOWN)

text \<open>Rounding up is the next multiple of the page size where the addition does not wrap.\<close>

lemma unat_PGROUNDUP:
  assumes "unat sz \<le> 2 ^ 32 - 4096"
  shows "unat (PGROUNDUP sz) = (unat sz + 4095) div 4096 * 4096"
proof -
  have "unat (sz + 4095) = unat sz + 4095"
    using assms by (simp add: unat_word_ariths)
  then show ?thesis
    using unat_and_not_mask12 [of "sz + 4095"] by (simp add: PGROUNDUP_def PGSIZE_def add.commute)
qed

section \<open>Loads and stores\<close>

definition ld32 :: "memory \<Rightarrow> uint \<Rightarrow> uint" where
  "ld32 m a = ucast (m a) OR push_bit 8 (ucast (m (a + 1)))
     OR push_bit 16 (ucast (m (a + 2))) OR push_bit 24 (ucast (m (a + 3)))"

definition st32 :: "memory \<Rightarrow> uint \<Rightarrow> uint \<Rightarrow> memory" where
  "st32 m a v = m(a := ucast v, a + 1 := ucast (drop_bit 8 v),
     a + 2 := ucast (drop_bit 16 v), a + 3 := ucast (drop_bit 24 v))"

text \<open>\<open>fill m a c n\<close>: the \<open>n\<close> bytes from \<open>a\<close> on are \<open>c\<close> (what \<^verbatim>\<open>memset\<close> does).\<close>

definition fill :: "memory \<Rightarrow> uint \<Rightarrow> uchar \<Rightarrow> nat \<Rightarrow> memory" where
  "fill m a c n = (\<lambda>x. if unat (x - a) < n then c else m x)"

lemma bytes_of_word: 
  fixes v :: uint
  defines "b \<equiv> \<lambda>k. (ucast (ucast (drop_bit k v) :: uchar) :: uint)"
  shows "b 0 OR push_bit 8 (b 8) OR push_bit 16 (b 16) OR push_bit 24 (b 24) = v"
proof (rule bit_word_eqI)
  fix n
  assume "n < LENGTH(32)"
  then consider "n < 8" | "8 \<le> n" "n < 16" | "16 \<le> n" "n < 24" | "24 \<le> n" "n < 32"
    by fastforce
  then show "bit (b 0 OR push_bit 8 (b 8) OR push_bit 16 (b 16) OR push_bit 24 (b 24)) n = bit v n"
    by cases (auto simp: bit_simps b_def)
qed

lemma ld32_st32_same [simp]: "ld32 (st32 m a v) a = v"
  using bytes_of_word [of v] by (simp add: ld32_def st32_def)

text \<open>Two word-aligned words at different addresses do not overlap.\<close>

definition aligned4 :: "uint \<Rightarrow> bool" where
  "aligned4 a \<longleftrightarrow> unat a mod 4 = 0"

lemma aligned4_offset:
  assumes "aligned4 a" "i < 4"
  shows "unat (a + of_nat i) = unat a + i"
proof -
  have "unat a < 2 ^ 32" by (rule unat_bound)
  moreover obtain k where "unat a = 4 * k"
    using assms(1) by (auto simp: aligned4_def)
  ultimately have "unat a + i < 2 ^ 32" using assms(2) by simp
  then show ?thesis
    using assms(2) by (simp add: unat_word_ariths unat_of_nat)
qed

lemma aligned4_disjoint:
  assumes "aligned4 a" "aligned4 b" "a \<noteq> b" "i < 4" "j < 4"
  shows "a + of_nat i \<noteq> b + of_nat j"
proof
  assume "a + of_nat i = b + of_nat j"
  then have eq: "unat a + i = unat b + j"
    using aligned4_offset [OF assms(1,4)] aligned4_offset [OF assms(2,5)] by simp
  have "4 dvd unat a" "4 dvd unat b"
    using assms(1,2) by (simp_all add: aligned4_def dvd_eq_mod_eq_0)
  then obtain k l where "unat a = 4 * k" "unat b = 4 * l" by (auto elim!: dvdE)
  with eq assms(4,5) have "unat a = unat b" by simp
  then show False using assms(3) by (simp add: word_unat_eq_iff)
qed

lemma st32_elsewhere:
  "x \<noteq> a \<Longrightarrow> x \<noteq> a + 1 \<Longrightarrow> x \<noteq> a + 2 \<Longrightarrow> x \<noteq> a + 3 \<Longrightarrow> st32 m a v x = m x"
  by (simp add: st32_def)

lemma ld32_cong:
  "m b = m' b \<Longrightarrow> m (b + 1) = m' (b + 1) \<Longrightarrow> m (b + 2) = m' (b + 2) \<Longrightarrow>
   m (b + 3) = m' (b + 3) \<Longrightarrow> ld32 m b = ld32 m' b"
  by (simp add: ld32_def)

lemma ld32_st32_other:
  assumes "aligned4 a" "aligned4 b" "a \<noteq> b"
  shows "ld32 (st32 m a v) b = ld32 m b"
proof -
  have e: "st32 m a v (b + of_nat j) = m (b + of_nat j)" if "j < 4" for j
  proof (rule st32_elsewhere)
    have d: "b + of_nat j \<noteq> a + of_nat i" if "i < 4" for i
      using aligned4_disjoint [OF assms that \<open>j < 4\<close>] by (rule not_sym)
    show "b + of_nat j \<noteq> a" "b + of_nat j \<noteq> a + 1" "b + of_nat j \<noteq> a + 2"
      "b + of_nat j \<noteq> a + 3"
      using d [of 0] d [of 1] d [of 2] d [of 3] by simp_all
  qed
  show ?thesis
    using e [of 0] e [of 1] e [of 2] e [of 3] by (intro ld32_cong) simp_all
qed

section \<open>Pages\<close>

definition page_aligned :: "uint \<Rightarrow> bool" where
  "page_aligned a \<longleftrightarrow> a mod PGSIZE = 0"

lemma page_aligned_unat: "page_aligned a \<longleftrightarrow> unat a mod 4096 = 0"
  by (simp add: page_aligned_def PGSIZE_def word_unat_eq_iff unat_mod_distrib)

lemma page_aligned_aligned4: "page_aligned a \<Longrightarrow> aligned4 a"
  unfolding page_aligned_unat aligned4_def mod_eq_0_iff_dvd
  by (rule dvd_trans [of 4 4096]) simp_all

text \<open>\<open>in_page a x\<close>: the byte at \<open>x\<close> lies in the page that starts at \<open>a\<close>.\<close>

definition in_page :: "uint \<Rightarrow> uint \<Rightarrow> bool" where
  "in_page a x \<longleftrightarrow> unat (x - a) < 4096"

lemma page_offset_arith: "4096 * k \<le> (x :: nat) \<Longrightarrow> (x - 4096 * k < 4096) = (x div 4096 = k)"
  using div_mult_mod_eq [of x 4096] mod_less_divisor [of 4096 x] by linarith

lemma page_below_arith: "(x :: nat) < a \<Longrightarrow> a mod 4096 = 0 \<Longrightarrow> x div 4096 \<noteq> a div 4096"
  using div_mult_mod_eq [of x 4096] div_mult_mod_eq [of a 4096] by linarith

lemma in_page_unat:
  assumes "page_aligned a"
  shows "in_page a x \<longleftrightarrow> unat x div 4096 = unat a div 4096"
proof (cases "a \<le> x")
  case True
  then have "unat (x - a) = unat x - unat a" "unat a \<le> unat x"
    by (simp_all add: unat_sub word_le_nat_alt)
  moreover obtain k where "unat a = 4096 * k"
    using assms by (auto simp: page_aligned_unat)
  ultimately show ?thesis
    unfolding in_page_def by (simp add: page_offset_arith)
next
  case False
  then have lt: "unat x < unat a" by (simp add: word_le_nat_alt)
  have b: "unat a < 2 ^ 32" by (rule unat_bound)
  have "unat a mod 4096 = 0" using assms by (simp add: page_aligned_unat)
  then obtain k where "unat a = 4096 * k" by auto
  with b have le: "unat a \<le> 2 ^ 32 - 4096" by simp
  have "unat (x - a) = unat x + 2 ^ 32 - unat a"
    using lt b unat_bound [of x] by (simp add: unat_sub_if_size word_size)
  then have "\<not> in_page a x" using le by (simp add: in_page_def)
  moreover have "unat x div 4096 \<noteq> unat a div 4096"
    using lt \<open>unat a mod 4096 = 0\<close> by (rule page_below_arith)
  ultimately show ?thesis by simp
qed

lemma in_page_disjoint:
  assumes "page_aligned a" "page_aligned b" "a \<noteq> b" "in_page b x"
  shows "\<not> in_page a x"
proof
  assume "in_page a x"
  then have "unat a div 4096 = unat b div 4096"
    using assms(1,2,4) by (simp add: in_page_unat)
  moreover have "unat a mod 4096 = unat b mod 4096"
    using assms(1,2) by (simp add: page_aligned_unat)
  ultimately have "unat a = unat b"
    by (metis div_mult_mod_eq)
  then show False using assms(3) by (simp add: word_unat_eq_iff)
qed

end
