(* ===== verification/Kernel_State.thy ===== *)
theory Kernel_State
  imports Memory
begin

text \<open>
  The kernel's data structures, one record or datatype per struct or enum of the headers
  (\<^verbatim>\<open>proc.h\<close>, \<^verbatim>\<open>x86.h\<close>, \<^verbatim>\<open>spinlock.h\<close>, \<^verbatim>\<open>file.h\<close>, \<^verbatim>\<open>fs.h\<close>, \<^verbatim>\<open>buf.h\<close>) and of
  \<^verbatim>\<open>pipe.c\<close>, \<^verbatim>\<open>log.c\<close>, \<^verbatim>\<open>kalloc.c\<close>, and the record \<open>kernel\<close> of the global variables.
  Pointers into a static table are indices into it, a null pointer is \<open>None\<close>; the flag
  words of buffers and inodes are one Boolean per named bit.
\<close>

section \<open>Sizes (param.h, fs.h, pipe.c, log.c)\<close>

definition NPROC :: nat where "NPROC = 64"
definition NOFILE :: nat where "NOFILE = 16"
definition NFILE :: nat where "NFILE = 100"
definition NINODE :: nat where "NINODE = 50"
definition MAXOPBLOCKS :: nat where "MAXOPBLOCKS = 10"
definition LOGSIZE :: nat where "LOGSIZE = MAXOPBLOCKS * 3"
definition NBUF :: nat where "NBUF = MAXOPBLOCKS * 3"
definition BSIZE :: nat where "BSIZE = 512"
definition PIPESIZE :: nat where "PIPESIZE = 512"
definition NDIRECT :: nat where "NDIRECT = 12"
definition FSSIZE :: nat where "FSSIZE = 1000"

lemmas size_defs = NPROC_def NOFILE_def NFILE_def NINODE_def MAXOPBLOCKS_def LOGSIZE_def
  NBUF_def BSIZE_def PIPESIZE_def NDIRECT_def FSSIZE_def

section \<open>CPUs and locks\<close>

text \<open>
  \<^verbatim>\<open>struct cpu\<close>: the fields the lock and scheduling code uses, with the interrupt flag
  FL_IF of the CPU's eflags register as \<open>c_IF\<close> and the page-table register as \<open>c_cr3\<close>.
  \<open>c_proc\<close> is the per-CPU \<^verbatim>\<open>proc\<close>, \<open>c_esp0\<close> the kernel stack pointer in \<^verbatim>\<open>cpu->ts\<close>.
\<close>

record cpu =
  c_id :: nat
  c_ncli :: int
  c_intena :: bool
  c_IF :: bool
  c_proc :: "nat option"
  c_cr3 :: uint
  c_esp0 :: uint

record spinlock =
  l_locked :: uint
  l_name :: string
  l_cpu :: "nat option"

text \<open>The spin locks of the kernel; each pipe, at its address, has one of its own.\<close>

datatype lockid = PtableLk | KmemLk | FtableLk | IcacheLk | BcacheLk | LogLk | IdeLk
  | TicksLk | ConsLk | PipeLk uint

section \<open>Processes (proc.h, x86.h)\<close>

datatype procstate = UNUSED | EMBRYO | SLEEPING | RUNNABLE | RUNNING | ZOMBIE

text \<open>
  What a process can sleep on: the C code uses the address of an object; \<open>NoChan\<close> is the
  null channel.
\<close>

datatype chan = NoChan | ChProc nat | ChTicks | ChBuf nat | ChLog | ChInode nat
  | ChNread uint | ChNwrite uint | ChInput

record trapframe =
  tf_edi :: uint
  tf_esi :: uint
  tf_ebp :: uint
  tf_oesp :: uint
  tf_ebx :: uint
  tf_edx :: uint
  tf_ecx :: uint
  tf_eax :: uint
  tf_gs :: ushort
  tf_fs :: ushort
  tf_es :: ushort
  tf_ds :: ushort
  tf_trapno :: uint
  tf_err :: uint
  tf_eip :: uint
  tf_cs :: ushort
  tf_eflags :: uint
  tf_esp :: uint
  tf_ss :: ushort

record pcontext =
  cx_edi :: uint
  cx_esi :: uint
  cx_ebx :: uint
  cx_ebp :: uint
  cx_eip :: uint

text \<open>
  \<^verbatim>\<open>struct proc\<close>. The trap frame and the saved context live on the kernel stack in C;
  here they are part of the entry that points to them.
\<close>

record proc =
  p_sz :: uint
  p_pgdir :: uint
  p_kstack :: uint
  p_state :: procstate
  p_pid :: int
  p_parent :: "nat option"
  p_tf :: trapframe
  p_context :: pcontext
  p_chan :: chan
  p_killed :: bool
  p_ofile :: "nat option list"
  p_cwd :: "nat option"
  p_name :: "uchar list"
  p_exit_status :: uint
  p_is_thread :: bool
  p_tid :: int
  p_numOfThread :: int

section \<open>Files, inodes, pipes (file.h, pipe.c)\<close>

datatype ftype = FD_NONE | FD_PIPE | FD_INODE

record file_t =
  f_type :: ftype
  f_ref :: int
  f_readable :: bool
  f_writable :: bool
  f_pipe :: uint
  f_ip :: "nat option"
  f_off :: uint

record inode =
  i_dev :: uint
  i_inum :: uint
  i_ref :: int
  i_busy :: bool
  i_valid :: bool
  i_type :: ushort
  i_major :: ushort
  i_minor :: ushort
  i_nlink :: ushort
  i_size :: uint
  i_addrs :: "uint list"

record pipe =
  pi_data :: "uchar list"
  pi_nread :: uint
  pi_nwrite :: uint
  pi_readopen :: bool
  pi_writeopen :: bool

section \<open>Buffers, the log, the disk (buf.h, log.c, fs.h)\<close>

text \<open>
  \<^verbatim>\<open>struct buf\<close>; \<open>b_prev\<close> and \<open>b_next\<close> are indices into the buffer table, whose
  entry \<open>NBUF\<close> is \<^verbatim>\<open>bcache.head\<close>.
\<close>

type_synonym block = "uchar list"

record buf =
  b_busy :: bool
  b_valid :: bool
  b_dirty :: bool
  b_dev :: uint
  b_blockno :: uint
  b_prev :: nat
  b_next :: nat
  b_qnext :: "nat option"
  b_data :: block

record logheader =
  lh_n :: int
  lh_block :: "uint list"

record loginfo =
  lg_start :: uint
  lg_size :: int
  lg_outstanding :: int
  lg_committing :: bool
  lg_dev :: uint
  lg_lh :: logheader

record superblock =
  sb_size :: uint
  sb_nblocks :: uint
  sb_ninodes :: uint
  sb_nlog :: uint
  sb_logstart :: uint
  sb_inodestart :: uint
  sb_bmapstart :: uint

section \<open>Console input, the disk controller (console.c, ide.c)\<close>

definition INPUT_BUF :: nat where "INPUT_BUF = 128"

record cinput =
  in_buf :: "uchar list"
  in_r :: uint
  in_w :: uint
  in_e :: uint

text \<open>
  The request the disk controller has been given through its ports: the disk, the sector,
  and the data for a write.
\<close>

record idecmd =
  ic_disk :: uint
  ic_sector :: uint
  ic_write :: "block option"

section \<open>The allocator (kalloc.c)\<close>

record kmemory =
  km_use_lock :: bool
  km_freelist :: uint

section \<open>The global state\<close>

text \<open>
  The global variables. \<open>k_cpu\<close> is the CPU that runs the code; other CPUs show up as
  holders of locks. \<open>k_end\<close>, \<open>k_data\<close> and \<open>k_forkret\<close> are the addresses of the linker
  symbols \<^verbatim>\<open>end\<close>, \<^verbatim>\<open>data\<close> and \<^verbatim>\<open>forkret\<close>. \<open>k_pipes\<close> holds the pipe
  structures at the pages \<^verbatim>\<open>kalloc\<close> gave for them. \<open>k_disk\<close> is the contents of the
  file-system disk and \<open>k_writes\<close> the sequence of block writes it has received.
  \<open>k_out\<close> is the sequence of characters sent to the console, \<open>k_crt\<close> the text memory of
  the screen and \<open>k_crtpos\<close> its cursor register. \<open>k_consdev\<close> says whether the console is in
  the device table \<^verbatim>\<open>devsw\<close>, in which no other device is ever entered. \<open>k_ports\<close>,
  \<open>k_lapicw\<close> and \<open>k_ioapicw\<close> are the sequences of values written to the I/O ports and to the registers
  of the local and the I/O interrupt controllers.
\<close>

record kernel =
  k_cpu :: cpu
  k_lks :: "lockid \<Rightarrow> spinlock"
  k_mem :: memory
  k_end :: uint
  k_forkret :: uint
  k_kpgdir :: uint
  k_kmem :: kmemory
  k_numfreepages :: int
  k_procs :: "proc list"
  k_nextpid :: int
  k_initproc :: "nat option"
  k_ftable :: "file_t list"
  k_icache :: "inode list"
  k_pipes :: "uint \<Rightarrow> pipe option"
  k_ticks :: uint
  k_thrlock :: uint
  k_bcache :: "buf list"
  k_disk :: "uint \<Rightarrow> block"
  k_writes :: "(uint \<times> block) list"
  k_log :: loginfo
  k_sb :: superblock
  k_data :: uint
  k_input :: cinput
  k_out :: "int list"
  k_idequeue :: "nat option"
  k_havedisk1 :: bool
  k_idecmd :: "idecmd option"
  k_kbdshift :: uint
  k_disksize :: uint
  k_consdev :: bool
  k_conslocking :: bool
  k_panicked :: bool
  k_crt :: "ushort list"
  k_crtpos :: int
  k_uart :: bool
  k_irqmask :: ushort
  k_ports :: "(ushort \<times> uchar) list"
  k_lapic :: uint
  k_lapicw :: "(uint \<times> uint) list"
  k_ioapicw :: "(uint \<times> uint) list"
  k_ismp :: bool
  k_ncpu :: nat
  k_bcpu :: nat
  k_ioapicid :: uchar

type_synonym 'a kern = "(kernel, 'a) comp"

abbreviation update_procs :: "(proc list \<Rightarrow> proc list) \<Rightarrow> kernel \<Rightarrow> kernel" where
  "update_procs f s \<equiv> s\<lparr>k_procs := f (k_procs s)\<rparr>"

text \<open>
  The per-CPU variable \<^verbatim>\<open>proc\<close>. Kernel code that dereferences it while no process runs
  takes a page fault in kernel mode, which \<^verbatim>\<open>trap\<close> turns into a panic.
\<close>

definition curproc :: "nat kern" where
  "curproc s = (case c_proc (k_cpu s) of None \<Rightarrow> Panic ''trap'' | Some i \<Rightarrow> Ret i s)"

lemma curproc_Some [simp]: "c_proc (k_cpu s) = Some i \<Longrightarrow> curproc s = Ret i s"
  by (simp add: curproc_def)

lemma wp_curproc [wp_simps]:
  "wp curproc Q s = (case c_proc (k_cpu s) of None \<Rightarrow> False | Some i \<Rightarrow> Q i s)"
  by (simp add: wp_def curproc_def split: option.splits)

section \<open>The state the kernel starts in\<close>

text \<open>
  The globals as the loader leaves them: zeroed, except for \<^verbatim>\<open>nextpid\<close> (\<^verbatim>\<open>proc.c\<close>) and
  the thread lock (\<^verbatim>\<open>thread.c\<close>), which are initialised to 1. Interrupts are off.
  Concrete examples start from this state.
\<close>

definition tf0 :: trapframe where
  "tf0 = \<lparr>tf_edi = 0, tf_esi = 0, tf_ebp = 0, tf_oesp = 0, tf_ebx = 0, tf_edx = 0, tf_ecx = 0,
     tf_eax = 0, tf_gs = 0, tf_fs = 0, tf_es = 0, tf_ds = 0, tf_trapno = 0, tf_err = 0, tf_eip = 0,
     tf_cs = 0, tf_eflags = 0, tf_esp = 0, tf_ss = 0\<rparr>"

definition context0 :: pcontext where
  "context0 = \<lparr>cx_edi = 0, cx_esi = 0, cx_ebx = 0, cx_ebp = 0, cx_eip = 0\<rparr>"

definition proc0 :: proc where
  "proc0 = \<lparr>p_sz = 0, p_pgdir = 0, p_kstack = 0, p_state = UNUSED, p_pid = 0, p_parent = None,
     p_tf = tf0, p_context = context0, p_chan = NoChan, p_killed = False,
     p_ofile = replicate NOFILE None, p_cwd = None, p_name = replicate 16 0,
     p_exit_status = 0, p_is_thread = False, p_tid = 0, p_numOfThread = 0\<rparr>"

definition file0 :: file_t where
  "file0 = \<lparr>f_type = FD_NONE, f_ref = 0, f_readable = False, f_writable = False, f_pipe = 0,
     f_ip = None, f_off = 0\<rparr>"

definition inode0 :: inode where
  "inode0 = \<lparr>i_dev = 0, i_inum = 0, i_ref = 0, i_busy = False, i_valid = False, i_type = 0,
     i_major = 0, i_minor = 0, i_nlink = 0, i_size = 0, i_addrs = replicate (NDIRECT + 1) 0\<rparr>"

definition buf0 :: buf where
  "buf0 = \<lparr>b_busy = False, b_valid = False, b_dirty = False, b_dev = 0, b_blockno = 0, b_prev = 0,
     b_next = 0, b_qnext = None, b_data = replicate BSIZE 0\<rparr>"

definition boot :: kernel where
  "boot = \<lparr>k_cpu = \<lparr>c_id = 0, c_ncli = 0, c_intena = False, c_IF = False, c_proc = None,
       c_cr3 = 0, c_esp0 = 0\<rparr>,
     k_lks = (\<lambda>_. \<lparr>l_locked = 0, l_name = [], l_cpu = None\<rparr>), k_mem = (\<lambda>_. 0),
     k_end = 0x80116560, k_forkret = 0x80103F00, k_kpgdir = 0, k_kmem = \<lparr>km_use_lock = False, km_freelist = 0\<rparr>, k_numfreepages = 0,
     k_procs = replicate NPROC proc0, k_nextpid = 1, k_initproc = None,
     k_ftable = replicate NFILE file0, k_icache = replicate NINODE inode0,
     k_pipes = (\<lambda>_. None), k_ticks = 0, k_thrlock = 1,
     k_bcache = replicate (NBUF + 1) buf0, k_disk = (\<lambda>_. replicate BSIZE 0), k_writes = [],
     k_log = \<lparr>lg_start = 0, lg_size = 0, lg_outstanding = 0, lg_committing = False, lg_dev = 0,
       lg_lh = \<lparr>lh_n = 0, lh_block = replicate LOGSIZE 0\<rparr>\<rparr>,
     k_sb = \<lparr>sb_size = 0, sb_nblocks = 0, sb_ninodes = 0, sb_nlog = 0, sb_logstart = 0,
       sb_inodestart = 0, sb_bmapstart = 0\<rparr>, k_data = 0x8010A000,
     k_input = \<lparr>in_buf = replicate INPUT_BUF 0, in_r = 0, in_w = 0, in_e = 0\<rparr>, k_out = [],
     k_idequeue = None, k_havedisk1 = False, k_idecmd = None, k_kbdshift = 0,
     k_disksize = 0, k_consdev = False, k_conslocking = False, k_panicked = False,
     k_crt = replicate 2000 0, k_crtpos = 0,
     k_uart = False, k_irqmask = 0xFFFB, k_ports = [], k_lapic = 0, k_lapicw = [], k_ioapicw = [], k_ismp = False, k_ncpu = 0, k_bcpu = 0, k_ioapicid = 0\<rparr>"

end
