(* ===== verification/Spinlock.thy ===== *)
theory Spinlock
  imports Kernel_State
begin

text \<open>
  Spin locks (\<^verbatim>\<open>spinlock.c\<close>): nested interrupt disabling, acquiring and releasing on one
  CPU, and any number of CPUs whose statements interleave. \<^verbatim>\<open>acquire\<close> and \<^verbatim>\<open>release\<close> are lists of
  statements, each of them (the atomic exchange among them) one step of such a machine.
  The call-stack snapshot \<^verbatim>\<open>pcs\<close>, which is only printed, is left out.
\<close>

section \<open>Operations of one CPU\<close>

abbreviation run_stmts :: "unit kern list \<Rightarrow> unit kern" where
  "run_stmts sts \<equiv> for_each sts (\<lambda>st. st)"

definition initlock :: "lockid \<Rightarrow> string \<Rightarrow> unit kern" where
  "initlock l nm = modify (\<lambda>s. s\<lparr>k_lks := (k_lks s)(l :=
     (k_lks s l)\<lparr>l_name := nm, l_locked := 0, l_cpu := None\<rparr>)\<rparr>)"

definition holding :: "lockid \<Rightarrow> kernel \<Rightarrow> bool" where
  "holding l s \<longleftrightarrow> l_locked (k_lks s l) \<noteq> 0 \<and> l_cpu (k_lks s l) = Some (c_id (k_cpu s))"

text \<open>\<^verbatim>\<open>pushcli\<close>/\<^verbatim>\<open>popcli\<close>: matched \<^verbatim>\<open>cli\<close>/\<^verbatim>\<open>sti\<close>.\<close>

definition pushcli_cpu :: "cpu \<Rightarrow> cpu" where
  "pushcli_cpu c = (let eflags = c_IF c; c' = c\<lparr>c_IF := False, c_ncli := c_ncli c + 1\<rparr>
     in if c_ncli c = 0 then c'\<lparr>c_intena := eflags\<rparr> else c')"

definition pushcli :: "unit kern" where
  "pushcli = modify (\<lambda>s. s\<lparr>k_cpu := pushcli_cpu (k_cpu s)\<rparr>)"

definition popcli :: "unit kern" where
  "popcli s = (let c = k_cpu s in
     if c_IF c then Panic ''popcli - interruptible''
     else if c_ncli c - 1 < 0 then Panic ''popcli''
     else let c' = c\<lparr>c_ncli := c_ncli c - 1\<rparr>
          in Ret () (s\<lparr>k_cpu := (if c_ncli c' = 0 \<and> c_intena c' then c'\<lparr>c_IF := True\<rparr> else c')\<rparr>))"

text \<open>
  \<^verbatim>\<open>acquire\<close> and \<^verbatim>\<open>release\<close> are lists of statements, each of which is one step when several CPUs
  run. The loop \<^verbatim>\<open>while(xchg(&lk->locked, 1) != 0);\<close> leaves a held lock as it was and spins; on a
  free lock it takes it in one step.
\<close>

definition acquire_check :: "lockid \<Rightarrow> unit kern" where
  "acquire_check l s = (if holding l s then Panic ''acquire'' else Ret () s)"

definition acquire_xchg :: "lockid \<Rightarrow> unit kern" where
  "acquire_xchg l s = (if l_locked (k_lks s l) \<noteq> 0 then Spin
     else Ret () (s\<lparr>k_lks := (k_lks s)(l := (k_lks s l)\<lparr>l_locked := 1\<rparr>)\<rparr>))"

definition set_lock_cpu :: "lockid \<Rightarrow> unit kern" where
  "set_lock_cpu l = modify (\<lambda>s. s\<lparr>k_lks := (k_lks s)(l := (k_lks s l)\<lparr>l_cpu := Some (c_id (k_cpu s))\<rparr>)\<rparr>)"

definition acquire_stmts :: "lockid \<Rightarrow> unit kern list" where
  "acquire_stmts l = [pushcli, acquire_check l, acquire_xchg l, set_lock_cpu l]"

definition acquire :: "lockid \<Rightarrow> unit kern" where
  "acquire l = run_stmts (acquire_stmts l)"

definition release_check :: "lockid \<Rightarrow> unit kern" where
  "release_check l s = (if \<not> holding l s then Panic ''release'' else Ret () s)"

definition clear_lock_cpu :: "lockid \<Rightarrow> unit kern" where
  "clear_lock_cpu l = modify (\<lambda>s. s\<lparr>k_lks := (k_lks s)(l := (k_lks s l)\<lparr>l_cpu := None\<rparr>)\<rparr>)"

definition release_xchg :: "lockid \<Rightarrow> unit kern" where
  "release_xchg l = modify (\<lambda>s. s\<lparr>k_lks := (k_lks s)(l := (k_lks s l)\<lparr>l_locked := 0\<rparr>)\<rparr>)"

definition release_stmts :: "lockid \<Rightarrow> unit kern list" where
  "release_stmts l = [release_check l, clear_lock_cpu l, release_xchg l, popcli]"

definition release :: "lockid \<Rightarrow> unit kern" where
  "release l = run_stmts (release_stmts l)"

lemma acquire_eq:
  "acquire l = andthen pushcli (\<lambda>s.
     if holding l s then Panic ''acquire''
     else if l_locked (k_lks s l) \<noteq> 0 then Spin
     else Ret () (s\<lparr>k_lks := (k_lks s)(l :=
            (k_lks s l)\<lparr>l_locked := 1, l_cpu := Some (c_id (k_cpu s))\<rparr>)\<rparr>))"
  by (rule ext) (simp add: acquire_def acquire_stmts_def acquire_check_def acquire_xchg_def set_lock_cpu_def
      pushcli_def andthen_def bnd_def modify_def)

lemma release_eq:
  "release l s = (if \<not> holding l s then Panic ''release''
     else popcli (s\<lparr>k_lks := (k_lks s)(l := (k_lks s l)\<lparr>l_cpu := None, l_locked := 0\<rparr>)\<rparr>))"
  by (simp add: release_def release_stmts_def release_check_def clear_lock_cpu_def release_xchg_def
      andthen_def bnd_def modify_def Let_def split: outcome.split)

section \<open>Critical sections\<close>

text \<open>
  \<open>cpu_ok\<close>: the interrupt state is the one kernel code runs in. With no \<^verbatim>\<open>pushcli\<close>
  pending, \<^verbatim>\<open>intena\<close> records the interrupt flag; inside one, interrupts are off. The first part
  is stronger than what the code needs: the next \<^verbatim>\<open>pushcli\<close> overwrites a stale \<^verbatim>\<open>intena\<close>, as an
  interrupt gate leaves it. It is asked for so that leaving a critical section gives the very
  state it was entered from, stale field included.
\<close>

definition cpu_ok :: "cpu \<Rightarrow> bool" where
  "cpu_ok c \<longleftrightarrow> 0 \<le> c_ncli c \<and> (if c_ncli c = 0 then c_intena c = c_IF c else \<not> c_IF c)"

definition lock_free :: "lockid \<Rightarrow> kernel \<Rightarrow> bool" where
  "lock_free l s \<longleftrightarrow> l_locked (k_lks s l) = 0 \<and> l_cpu (k_lks s l) = None"

text \<open>The state inside the critical section of \<open>l\<close> entered from \<open>s\<close>.\<close>

definition entered :: "lockid \<Rightarrow> kernel \<Rightarrow> kernel" where
  "entered l s = s\<lparr>k_cpu := pushcli_cpu (k_cpu s), k_lks := (k_lks s)(l :=
     (k_lks s l)\<lparr>l_locked := 1, l_cpu := Some (c_id (k_cpu s))\<rparr>)\<rparr>"

lemma pushcli_cpu_simps [simp]:
  "c_id (pushcli_cpu c) = c_id c" "c_proc (pushcli_cpu c) = c_proc c"
  "c_cr3 (pushcli_cpu c) = c_cr3 c" "c_esp0 (pushcli_cpu c) = c_esp0 c"
  "c_ncli (pushcli_cpu c) = c_ncli c + 1" "\<not> c_IF (pushcli_cpu c)"
  by (simp_all add: pushcli_cpu_def Let_def)

lemma cpu_ok_pushcli [simp]: "cpu_ok c \<Longrightarrow> cpu_ok (pushcli_cpu c)"
  by (simp add: cpu_ok_def)

lemma acquire_free [simp]: "lock_free l s \<Longrightarrow> acquire l s = Ret () (entered l s)"
  by (simp add: acquire_eq pushcli_def entered_def lock_free_def holding_def)

lemma acquire_again: "holding l s \<Longrightarrow> acquire l s = Panic ''acquire''"
  by (simp add: acquire_eq pushcli_def holding_def)

lemma acquire_other: "l_locked (k_lks s l) \<noteq> 0 \<Longrightarrow> \<not> holding l s \<Longrightarrow> acquire l s = Spin"
  by (simp add: acquire_eq pushcli_def holding_def)

lemma holding_entered [simp]: "holding l (entered l s)"
  by (simp add: holding_def entered_def)

lemma entered_selectors [simp]:
  "k_cpu (entered l s) = pushcli_cpu (k_cpu s)"
  "k_mem (entered l s) = k_mem s"
  "k_end (entered l s) = k_end s"
  "k_forkret (entered l s) = k_forkret s"
  "k_kpgdir (entered l s) = k_kpgdir s"
  "k_kmem (entered l s) = k_kmem s"
  "k_numfreepages (entered l s) = k_numfreepages s"
  "k_procs (entered l s) = k_procs s"
  "k_nextpid (entered l s) = k_nextpid s"
  "k_initproc (entered l s) = k_initproc s"
  "k_ftable (entered l s) = k_ftable s"
  "k_icache (entered l s) = k_icache s"
  "k_pipes (entered l s) = k_pipes s"
  "k_ticks (entered l s) = k_ticks s"
  "k_thrlock (entered l s) = k_thrlock s"
  "k_bcache (entered l s) = k_bcache s"
  "k_disk (entered l s) = k_disk s"
  "k_writes (entered l s) = k_writes s"
  "k_log (entered l s) = k_log s"
  "k_sb (entered l s) = k_sb s"
  "k_input (entered l s) = k_input s"
  "k_out (entered l s) = k_out s"
  "k_idequeue (entered l s) = k_idequeue s"
  "k_havedisk1 (entered l s) = k_havedisk1 s"
  "k_idecmd (entered l s) = k_idecmd s"
  "k_kbdshift (entered l s) = k_kbdshift s"
  "k_disksize (entered l s) = k_disksize s"
  "k_consdev (entered l s) = k_consdev s"
  "k_conslocking (entered l s) = k_conslocking s"
  "k_panicked (entered l s) = k_panicked s"
  "k_crt (entered l s) = k_crt s"
  "k_crtpos (entered l s) = k_crtpos s"
  "k_uart (entered l s) = k_uart s"
  "k_irqmask (entered l s) = k_irqmask s"
  "k_ports (entered l s) = k_ports s"
  "k_lapic (entered l s) = k_lapic s"
  "k_lapicw (entered l s) = k_lapicw s"
  "k_ioapicw (entered l s) = k_ioapicw s"
  "k_ismp (entered l s) = k_ismp s"
  "k_ncpu (entered l s) = k_ncpu s"
  "k_bcpu (entered l s) = k_bcpu s"
  "k_ioapicid (entered l s) = k_ioapicid s"
  "k_data (entered l s) = k_data s"
  by (simp_all add: entered_def)

lemma entered_updates [simp]:
  "(entered l s)\<lparr>k_mem := x0\<rparr> = entered l (s\<lparr>k_mem := x0\<rparr>)"
  "(entered l s)\<lparr>k_end := x1\<rparr> = entered l (s\<lparr>k_end := x1\<rparr>)"
  "(entered l s)\<lparr>k_forkret := x2\<rparr> = entered l (s\<lparr>k_forkret := x2\<rparr>)"
  "(entered l s)\<lparr>k_kpgdir := x3\<rparr> = entered l (s\<lparr>k_kpgdir := x3\<rparr>)"
  "(entered l s)\<lparr>k_kmem := x4\<rparr> = entered l (s\<lparr>k_kmem := x4\<rparr>)"
  "(entered l s)\<lparr>k_numfreepages := x5\<rparr> = entered l (s\<lparr>k_numfreepages := x5\<rparr>)"
  "(entered l s)\<lparr>k_procs := x6\<rparr> = entered l (s\<lparr>k_procs := x6\<rparr>)"
  "(entered l s)\<lparr>k_nextpid := x7\<rparr> = entered l (s\<lparr>k_nextpid := x7\<rparr>)"
  "(entered l s)\<lparr>k_initproc := x8\<rparr> = entered l (s\<lparr>k_initproc := x8\<rparr>)"
  "(entered l s)\<lparr>k_ftable := x9\<rparr> = entered l (s\<lparr>k_ftable := x9\<rparr>)"
  "(entered l s)\<lparr>k_icache := x10\<rparr> = entered l (s\<lparr>k_icache := x10\<rparr>)"
  "(entered l s)\<lparr>k_pipes := x11\<rparr> = entered l (s\<lparr>k_pipes := x11\<rparr>)"
  "(entered l s)\<lparr>k_ticks := x12\<rparr> = entered l (s\<lparr>k_ticks := x12\<rparr>)"
  "(entered l s)\<lparr>k_thrlock := x13\<rparr> = entered l (s\<lparr>k_thrlock := x13\<rparr>)"
  "(entered l s)\<lparr>k_bcache := x14\<rparr> = entered l (s\<lparr>k_bcache := x14\<rparr>)"
  "(entered l s)\<lparr>k_disk := x15\<rparr> = entered l (s\<lparr>k_disk := x15\<rparr>)"
  "(entered l s)\<lparr>k_writes := x16\<rparr> = entered l (s\<lparr>k_writes := x16\<rparr>)"
  "(entered l s)\<lparr>k_log := x17\<rparr> = entered l (s\<lparr>k_log := x17\<rparr>)"
  "(entered l s)\<lparr>k_sb := x18\<rparr> = entered l (s\<lparr>k_sb := x18\<rparr>)"
  "(entered l s)\<lparr>k_input := y0\<rparr> = entered l (s\<lparr>k_input := y0\<rparr>)"
  "(entered l s)\<lparr>k_out := y1\<rparr> = entered l (s\<lparr>k_out := y1\<rparr>)"
  "(entered l s)\<lparr>k_idequeue := y2\<rparr> = entered l (s\<lparr>k_idequeue := y2\<rparr>)"
  "(entered l s)\<lparr>k_havedisk1 := y3\<rparr> = entered l (s\<lparr>k_havedisk1 := y3\<rparr>)"
  "(entered l s)\<lparr>k_idecmd := y4\<rparr> = entered l (s\<lparr>k_idecmd := y4\<rparr>)"
  "(entered l s)\<lparr>k_kbdshift := y5\<rparr> = entered l (s\<lparr>k_kbdshift := y5\<rparr>)"
  "(entered l s)\<lparr>k_disksize := w0\<rparr> = entered l (s\<lparr>k_disksize := w0\<rparr>)"
  "(entered l s)\<lparr>k_consdev := w1\<rparr> = entered l (s\<lparr>k_consdev := w1\<rparr>)"
  "(entered l s)\<lparr>k_conslocking := w2\<rparr> = entered l (s\<lparr>k_conslocking := w2\<rparr>)"
  "(entered l s)\<lparr>k_panicked := w3\<rparr> = entered l (s\<lparr>k_panicked := w3\<rparr>)"
  "(entered l s)\<lparr>k_crt := w4\<rparr> = entered l (s\<lparr>k_crt := w4\<rparr>)"
  "(entered l s)\<lparr>k_crtpos := w5\<rparr> = entered l (s\<lparr>k_crtpos := w5\<rparr>)"
  "(entered l s)\<lparr>k_uart := v0\<rparr> = entered l (s\<lparr>k_uart := v0\<rparr>)"
  "(entered l s)\<lparr>k_irqmask := v1\<rparr> = entered l (s\<lparr>k_irqmask := v1\<rparr>)"
  "(entered l s)\<lparr>k_ports := v2\<rparr> = entered l (s\<lparr>k_ports := v2\<rparr>)"
  "(entered l s)\<lparr>k_lapic := v3\<rparr> = entered l (s\<lparr>k_lapic := v3\<rparr>)"
  "(entered l s)\<lparr>k_lapicw := v4\<rparr> = entered l (s\<lparr>k_lapicw := v4\<rparr>)"
  "(entered l s)\<lparr>k_ioapicw := v5\<rparr> = entered l (s\<lparr>k_ioapicw := v5\<rparr>)"
  "(entered l s)\<lparr>k_ismp := v6\<rparr> = entered l (s\<lparr>k_ismp := v6\<rparr>)"
  "(entered l s)\<lparr>k_ncpu := v7\<rparr> = entered l (s\<lparr>k_ncpu := v7\<rparr>)"
  "(entered l s)\<lparr>k_bcpu := v8\<rparr> = entered l (s\<lparr>k_bcpu := v8\<rparr>)"
  "(entered l s)\<lparr>k_ioapicid := v9\<rparr> = entered l (s\<lparr>k_ioapicid := v9\<rparr>)"
  "(entered l s)\<lparr>k_data := y9\<rparr> = entered l (s\<lparr>k_data := y9\<rparr>)"
  by (simp_all add: entered_def)

lemma lock_free_entered [simp]: "lock_free l' (entered l s) \<longleftrightarrow> l \<noteq> l' \<and> lock_free l' s"
  by (auto simp: lock_free_def entered_def)

lemma lock_free_updates [simp]:
  "lock_free l (s\<lparr>k_mem := x0\<rparr>) = lock_free l s"
  "lock_free l (s\<lparr>k_end := x1\<rparr>) = lock_free l s"
  "lock_free l (s\<lparr>k_forkret := x2\<rparr>) = lock_free l s"
  "lock_free l (s\<lparr>k_kpgdir := x3\<rparr>) = lock_free l s"
  "lock_free l (s\<lparr>k_kmem := x4\<rparr>) = lock_free l s"
  "lock_free l (s\<lparr>k_numfreepages := x5\<rparr>) = lock_free l s"
  "lock_free l (s\<lparr>k_procs := x6\<rparr>) = lock_free l s"
  "lock_free l (s\<lparr>k_nextpid := x7\<rparr>) = lock_free l s"
  "lock_free l (s\<lparr>k_initproc := x8\<rparr>) = lock_free l s"
  "lock_free l (s\<lparr>k_ftable := x9\<rparr>) = lock_free l s"
  "lock_free l (s\<lparr>k_icache := x10\<rparr>) = lock_free l s"
  "lock_free l (s\<lparr>k_pipes := x11\<rparr>) = lock_free l s"
  "lock_free l (s\<lparr>k_ticks := x12\<rparr>) = lock_free l s"
  "lock_free l (s\<lparr>k_thrlock := x13\<rparr>) = lock_free l s"
  "lock_free l (s\<lparr>k_bcache := x14\<rparr>) = lock_free l s"
  "lock_free l (s\<lparr>k_disk := x15\<rparr>) = lock_free l s"
  "lock_free l (s\<lparr>k_writes := x16\<rparr>) = lock_free l s"
  "lock_free l (s\<lparr>k_log := x17\<rparr>) = lock_free l s"
  "lock_free l (s\<lparr>k_sb := x18\<rparr>) = lock_free l s"
  "lock_free l (s\<lparr>k_input := y0\<rparr>) = lock_free l s"
  "lock_free l (s\<lparr>k_out := y1\<rparr>) = lock_free l s"
  "lock_free l (s\<lparr>k_idequeue := y2\<rparr>) = lock_free l s"
  "lock_free l (s\<lparr>k_havedisk1 := y3\<rparr>) = lock_free l s"
  "lock_free l (s\<lparr>k_idecmd := y4\<rparr>) = lock_free l s"
  "lock_free l (s\<lparr>k_kbdshift := y5\<rparr>) = lock_free l s"
  "lock_free l (s\<lparr>k_disksize := w0\<rparr>) = lock_free l s"
  "lock_free l (s\<lparr>k_consdev := w1\<rparr>) = lock_free l s"
  "lock_free l (s\<lparr>k_conslocking := w2\<rparr>) = lock_free l s"
  "lock_free l (s\<lparr>k_panicked := w3\<rparr>) = lock_free l s"
  "lock_free l (s\<lparr>k_crt := w4\<rparr>) = lock_free l s"
  "lock_free l (s\<lparr>k_crtpos := w5\<rparr>) = lock_free l s"
  "lock_free l (s\<lparr>k_uart := v0\<rparr>) = lock_free l s"
  "lock_free l (s\<lparr>k_irqmask := v1\<rparr>) = lock_free l s"
  "lock_free l (s\<lparr>k_ports := v2\<rparr>) = lock_free l s"
  "lock_free l (s\<lparr>k_lapic := v3\<rparr>) = lock_free l s"
  "lock_free l (s\<lparr>k_lapicw := v4\<rparr>) = lock_free l s"
  "lock_free l (s\<lparr>k_ioapicw := v5\<rparr>) = lock_free l s"
  "lock_free l (s\<lparr>k_ismp := v6\<rparr>) = lock_free l s"
  "lock_free l (s\<lparr>k_ncpu := v7\<rparr>) = lock_free l s"
  "lock_free l (s\<lparr>k_bcpu := v8\<rparr>) = lock_free l s"
  "lock_free l (s\<lparr>k_ioapicid := v9\<rparr>) = lock_free l s"
  "lock_free l (s\<lparr>k_cpu := x19\<rparr>) = lock_free l s"
  by (simp_all add: lock_free_def)

text \<open>Leaving a critical section restores the interrupt state and the lock exactly.\<close>

lemma release_entered [simp]:
  assumes "cpu_ok (k_cpu s)" "lock_free l s"
  shows "release l (entered l s) = Ret () s"
proof -
  have lk: "(k_lks s)(l := (k_lks s l)\<lparr>l_cpu := None, l_locked := 0\<rparr>) = k_lks s"
    using assms(2) by (simp add: lock_free_def fun_eq_iff)
  obtain i n e f p cr sp where c: "k_cpu s = \<lparr>c_id = i, c_ncli = n, c_intena = e, c_IF = f,
      c_proc = p, c_cr3 = cr, c_esp0 = sp\<rparr>"
    by (cases "k_cpu s")
  have "popcli (s\<lparr>k_cpu := pushcli_cpu (k_cpu s)\<rparr>) = Ret () s"
    using assms(1) by (auto simp: c popcli_def pushcli_cpu_def cpu_ok_def Let_def)
  then show ?thesis
    using lk by (simp add: release_eq entered_def holding_def)
qed

text \<open>
  \<open>with_lock l body\<close> is the shape of most kernel functions: take the lock, run the body,
  release the lock on every path out.
\<close>

definition with_lock :: "lockid \<Rightarrow> 'a kern \<Rightarrow> 'a kern" where
  "with_lock l body = andthen (acquire l) (bnd body (\<lambda>a. andthen (release l) (ret a)))"

text \<open>Locks need not be released in the order they were taken: \<^verbatim>\<open>sleep\<close> swaps two.\<close>

lemma release_under:
  assumes "cpu_ok (k_cpu s)" "lock_free l s" "l \<noteq> l'"
  shows "release l (entered l' (entered l s)) = Ret () (entered l' s)"
proof -
  have lk: "((k_lks s)(l := x, l' := y))(l := (x\<lparr>l_cpu := None, l_locked := 0\<rparr>))
      = (k_lks s)(l' := y)" if "x = (k_lks s l)\<lparr>l_locked := 1, l_cpu := z\<rparr>" for x y z
    using assms(2,3) that by (auto simp: lock_free_def fun_eq_iff)
  have cp: "(pushcli_cpu (pushcli_cpu (k_cpu s)))\<lparr>c_ncli := 1 + c_ncli (k_cpu s)\<rparr>
      = pushcli_cpu (k_cpu s)"
    using assms(1) by (cases "k_cpu s") (auto simp: pushcli_cpu_def Let_def cpu_ok_def)
  have n: "0 \<le> c_ncli (k_cpu s)" using assms(1) by (simp add: cpu_ok_def)
  show ?thesis
    using n assms(3) cp lk [OF refl, of "Some (c_id (k_cpu s))"]
    by (simp add: release_eq popcli_def holding_def entered_def Let_def)
qed

section \<open>The interface lock users rely on\<close>

text \<open>
  What the rest of the kernel uses of a lock: where it is available, taking it enters a
  state \<open>inside l s\<close>, and releasing it there goes back to \<open>s\<close>.
\<close>

locale lock_interface =
  fixes acq :: "'l \<Rightarrow> ('s, unit) comp"
    and rel :: "'l \<Rightarrow> ('s, unit) comp"
    and inside :: "'l \<Rightarrow> 's \<Rightarrow> 's"
    and avail :: "'l \<Rightarrow> 's \<Rightarrow> bool"
  assumes acq_avail: "avail l s \<Longrightarrow> acq l s = Ret () (inside l s)"
    and rel_inside: "avail l s \<Longrightarrow> rel l (inside l s) = Ret () s"
begin

lemma critical_section:
  assumes "avail l s" "avail l s'" "body (inside l s) = Ret a (inside l s')"
  shows "andthen (acq l) (bnd body (\<lambda>a. andthen (rel l) (ret a))) s = Ret a s'"
  using assms by (simp add: acq_avail rel_inside)

lemma wp_critical_section:
  assumes "avail l s"
    and "wp body (\<lambda>a t. \<exists>s'. t = inside l s' \<and> avail l s' \<and> Q a s') (inside l s)"
  shows "wp (andthen (acq l) (bnd body (\<lambda>a. andthen (rel l) (ret a)))) Q s"
  using assms by (auto simp: wp_Ret_iff bnd_eq_Ret_iff andthen_eq_Ret_iff acq_avail rel_inside)

end

definition lock_avail :: "lockid \<Rightarrow> kernel \<Rightarrow> bool" where
  "lock_avail l s \<longleftrightarrow> cpu_ok (k_cpu s) \<and> lock_free l s"

lemma lock_avail_updates [simp]:
  "lock_avail l (s\<lparr>k_mem := x0\<rparr>) = lock_avail l s"
  "lock_avail l (s\<lparr>k_end := x1\<rparr>) = lock_avail l s"
  "lock_avail l (s\<lparr>k_forkret := x2\<rparr>) = lock_avail l s"
  "lock_avail l (s\<lparr>k_kpgdir := x3\<rparr>) = lock_avail l s"
  "lock_avail l (s\<lparr>k_kmem := x4\<rparr>) = lock_avail l s"
  "lock_avail l (s\<lparr>k_numfreepages := x5\<rparr>) = lock_avail l s"
  "lock_avail l (s\<lparr>k_procs := x6\<rparr>) = lock_avail l s"
  "lock_avail l (s\<lparr>k_nextpid := x7\<rparr>) = lock_avail l s"
  "lock_avail l (s\<lparr>k_initproc := x8\<rparr>) = lock_avail l s"
  "lock_avail l (s\<lparr>k_ftable := x9\<rparr>) = lock_avail l s"
  "lock_avail l (s\<lparr>k_icache := x10\<rparr>) = lock_avail l s"
  "lock_avail l (s\<lparr>k_pipes := x11\<rparr>) = lock_avail l s"
  "lock_avail l (s\<lparr>k_ticks := x12\<rparr>) = lock_avail l s"
  "lock_avail l (s\<lparr>k_thrlock := x13\<rparr>) = lock_avail l s"
  "lock_avail l (s\<lparr>k_bcache := x14\<rparr>) = lock_avail l s"
  "lock_avail l (s\<lparr>k_disk := x15\<rparr>) = lock_avail l s"
  "lock_avail l (s\<lparr>k_writes := x16\<rparr>) = lock_avail l s"
  "lock_avail l (s\<lparr>k_log := x17\<rparr>) = lock_avail l s"
  "lock_avail l (s\<lparr>k_sb := x18\<rparr>) = lock_avail l s"
  "lock_avail l (s\<lparr>k_input := y0\<rparr>) = lock_avail l s"
  "lock_avail l (s\<lparr>k_out := y1\<rparr>) = lock_avail l s"
  "lock_avail l (s\<lparr>k_idequeue := y2\<rparr>) = lock_avail l s"
  "lock_avail l (s\<lparr>k_havedisk1 := y3\<rparr>) = lock_avail l s"
  "lock_avail l (s\<lparr>k_idecmd := y4\<rparr>) = lock_avail l s"
  "lock_avail l (s\<lparr>k_kbdshift := y5\<rparr>) = lock_avail l s"
  "lock_avail l (s\<lparr>k_disksize := w0\<rparr>) = lock_avail l s"
  "lock_avail l (s\<lparr>k_consdev := w1\<rparr>) = lock_avail l s"
  "lock_avail l (s\<lparr>k_conslocking := w2\<rparr>) = lock_avail l s"
  "lock_avail l (s\<lparr>k_panicked := w3\<rparr>) = lock_avail l s"
  "lock_avail l (s\<lparr>k_crt := w4\<rparr>) = lock_avail l s"
  "lock_avail l (s\<lparr>k_crtpos := w5\<rparr>) = lock_avail l s"
  "lock_avail l (s\<lparr>k_uart := v0\<rparr>) = lock_avail l s"
  "lock_avail l (s\<lparr>k_irqmask := v1\<rparr>) = lock_avail l s"
  "lock_avail l (s\<lparr>k_ports := v2\<rparr>) = lock_avail l s"
  "lock_avail l (s\<lparr>k_lapic := v3\<rparr>) = lock_avail l s"
  "lock_avail l (s\<lparr>k_lapicw := v4\<rparr>) = lock_avail l s"
  "lock_avail l (s\<lparr>k_ioapicw := v5\<rparr>) = lock_avail l s"
  "lock_avail l (s\<lparr>k_ismp := v6\<rparr>) = lock_avail l s"
  "lock_avail l (s\<lparr>k_ncpu := v7\<rparr>) = lock_avail l s"
  "lock_avail l (s\<lparr>k_bcpu := v8\<rparr>) = lock_avail l s"
  "lock_avail l (s\<lparr>k_ioapicid := v9\<rparr>) = lock_avail l s"
  by (simp_all add: lock_avail_def)

text \<open>\<open>quiet s\<close>: the CPU holds no lock and no lock is held, the state between system calls.\<close>

definition quiet :: "kernel \<Rightarrow> bool" where
  "quiet s \<longleftrightarrow> (\<forall>l. lock_avail l s)"

lemma quiet_avail [simp]: "quiet s \<Longrightarrow> lock_avail l s"
  by (simp add: quiet_def)

lemma quiet_free [simp]: "quiet s \<Longrightarrow> lock_free l s" "quiet s \<Longrightarrow> cpu_ok (k_cpu s)"
  by (simp_all add: quiet_def lock_avail_def)

lemma quiet_updates [simp]:
  "quiet (s\<lparr>k_mem := x0\<rparr>) = quiet s"
  "quiet (s\<lparr>k_end := x1\<rparr>) = quiet s"
  "quiet (s\<lparr>k_forkret := x2\<rparr>) = quiet s"
  "quiet (s\<lparr>k_kpgdir := x3\<rparr>) = quiet s"
  "quiet (s\<lparr>k_kmem := x4\<rparr>) = quiet s"
  "quiet (s\<lparr>k_numfreepages := x5\<rparr>) = quiet s"
  "quiet (s\<lparr>k_procs := x6\<rparr>) = quiet s"
  "quiet (s\<lparr>k_nextpid := x7\<rparr>) = quiet s"
  "quiet (s\<lparr>k_initproc := x8\<rparr>) = quiet s"
  "quiet (s\<lparr>k_ftable := x9\<rparr>) = quiet s"
  "quiet (s\<lparr>k_icache := x10\<rparr>) = quiet s"
  "quiet (s\<lparr>k_pipes := x11\<rparr>) = quiet s"
  "quiet (s\<lparr>k_ticks := x12\<rparr>) = quiet s"
  "quiet (s\<lparr>k_thrlock := x13\<rparr>) = quiet s"
  "quiet (s\<lparr>k_bcache := x14\<rparr>) = quiet s"
  "quiet (s\<lparr>k_disk := x15\<rparr>) = quiet s"
  "quiet (s\<lparr>k_writes := x16\<rparr>) = quiet s"
  "quiet (s\<lparr>k_log := x17\<rparr>) = quiet s"
  "quiet (s\<lparr>k_sb := x18\<rparr>) = quiet s"
  "quiet (s\<lparr>k_input := y0\<rparr>) = quiet s"
  "quiet (s\<lparr>k_out := y1\<rparr>) = quiet s"
  "quiet (s\<lparr>k_idequeue := y2\<rparr>) = quiet s"
  "quiet (s\<lparr>k_havedisk1 := y3\<rparr>) = quiet s"
  "quiet (s\<lparr>k_idecmd := y4\<rparr>) = quiet s"
  "quiet (s\<lparr>k_kbdshift := y5\<rparr>) = quiet s"
  "quiet (s\<lparr>k_disksize := w0\<rparr>) = quiet s"
  "quiet (s\<lparr>k_consdev := w1\<rparr>) = quiet s"
  "quiet (s\<lparr>k_conslocking := w2\<rparr>) = quiet s"
  "quiet (s\<lparr>k_panicked := w3\<rparr>) = quiet s"
  "quiet (s\<lparr>k_crt := w4\<rparr>) = quiet s"
  "quiet (s\<lparr>k_crtpos := w5\<rparr>) = quiet s"
  "quiet (s\<lparr>k_uart := v0\<rparr>) = quiet s"
  "quiet (s\<lparr>k_irqmask := v1\<rparr>) = quiet s"
  "quiet (s\<lparr>k_ports := v2\<rparr>) = quiet s"
  "quiet (s\<lparr>k_lapic := v3\<rparr>) = quiet s"
  "quiet (s\<lparr>k_lapicw := v4\<rparr>) = quiet s"
  "quiet (s\<lparr>k_ioapicw := v5\<rparr>) = quiet s"
  "quiet (s\<lparr>k_ismp := v6\<rparr>) = quiet s"
  "quiet (s\<lparr>k_ncpu := v7\<rparr>) = quiet s"
  "quiet (s\<lparr>k_bcpu := v8\<rparr>) = quiet s"
  "quiet (s\<lparr>k_ioapicid := v9\<rparr>) = quiet s"
  by (simp_all add: quiet_def)

lemma avail_entered [simp]: "lock_avail l s \<Longrightarrow> l \<noteq> l' \<Longrightarrow> lock_avail l (entered l' s)"
  by (auto simp: lock_avail_def)

lemma quiet_boot [simp]: "quiet boot"
  by (simp add: quiet_def boot_def lock_avail_def cpu_ok_def lock_free_def)

lemma boot_locks [simp]:
  "lock_free l boot" "cpu_ok (k_cpu boot)" "c_ncli (k_cpu boot) = 0" "lock_avail l boot"
  by (simp_all add: boot_def lock_free_def cpu_ok_def lock_avail_def)

interpretation spin: lock_interface acquire release entered lock_avail
  by unfold_locales (simp_all add: lock_avail_def)

lemma with_lock_eq:
  "lock_avail l s \<Longrightarrow> lock_avail l s' \<Longrightarrow> body (entered l s) = Ret a (entered l s') \<Longrightarrow>
   with_lock l body s = Ret a s'"
  unfolding with_lock_def by (rule spin.critical_section)

lemma wp_with_lock:
  "lock_avail l s \<Longrightarrow>
   wp body (\<lambda>a t. \<exists>s'. t = entered l s' \<and> lock_avail l s' \<and> Q a s') (entered l s) \<Longrightarrow>
   wp (with_lock l body) Q s"
  unfolding with_lock_def by (rule spin.wp_critical_section)

section \<open>Several CPUs\<close>

text \<open>
  Any number of CPUs on one memory. CPU \<open>i\<close> runs the statements \<open>code i\<close>; \<open>m_pc\<close> says which one is
  next, \<open>m_cpus\<close> is the CPU's own state, and everything else is shared. A step is one statement
  of one CPU. A statement that spins makes no step and is tried again later; one that panics
  stops its CPU; one that switches to another context (\<^verbatim>\<open>swtch\<close>) goes on with the statement that
  follows in \<open>code i\<close>, the code of that context. A CPU in \<open>loops\<close> starts over at the end.
\<close>

record smp =
  m_shared :: kernel
  m_cpus :: "nat \<Rightarrow> cpu"
  m_pc :: "nat \<Rightarrow> nat"

definition on_cpu :: "smp \<Rightarrow> nat \<Rightarrow> kernel" where
  "on_cpu M i = (m_shared M)\<lparr>k_cpu := m_cpus M i\<rparr>"

definition moved :: "nat \<Rightarrow> kernel \<Rightarrow> smp \<Rightarrow> smp" where
  "moved i t M = \<lparr>m_shared = t, m_cpus = (m_cpus M)(i := k_cpu t), m_pc = (m_pc M)(i := Suc (m_pc M i))\<rparr>"

inductive smp_step :: "(nat \<Rightarrow> unit kern list) \<Rightarrow> nat set \<Rightarrow> smp \<Rightarrow> smp \<Rightarrow> bool"
    for code loops where
  run: "m_pc M i < length (code i) \<Longrightarrow> (code i ! m_pc M i) (on_cpu M i) = Ret () t \<Longrightarrow>
    smp_step code loops M (moved i t M)"
| switch: "m_pc M i < length (code i) \<Longrightarrow> (code i ! m_pc M i) (on_cpu M i) = Switch t \<Longrightarrow>
    smp_step code loops M (moved i t M)"
| again: "i \<in> loops \<Longrightarrow> m_pc M i = length (code i) \<Longrightarrow>
    smp_step code loops M (M\<lparr>m_pc := (m_pc M)(i := 0)\<rparr>)"

lemma moved_simps [simp]:
  "m_shared (moved i t M) = t" "m_cpus (moved i t M) = (m_cpus M)(i := k_cpu t)"
  "m_pc (moved i t M) = (m_pc M)(i := Suc (m_pc M i))"
  by (simp_all add: moved_def)

lemma on_cpu_simps [simp]:
  "k_cpu (on_cpu M i) = m_cpus M i" "k_lks (on_cpu M i) = k_lks (m_shared M)"
  "k_procs (on_cpu M i) = k_procs (m_shared M)"
  by (simp_all add: on_cpu_def)

subsection \<open>Mutual exclusion\<close>

text \<open>Every CPU takes the lock, runs its own section, releases the lock and starts over.\<close>

definition lock_code :: "lockid \<Rightarrow> (nat \<Rightarrow> unit kern list) \<Rightarrow> nat \<Rightarrow> unit kern list" where
  "lock_code l body i = acquire_stmts l @ body i @ release_stmts l"

text \<open>A statement of a section may do anything, taking other locks included, but to this lock.\<close>

definition keeps_lock :: "lockid \<Rightarrow> unit kern \<Rightarrow> bool" where
  "keeps_lock l st \<longleftrightarrow> (\<forall>s t. st s = Ret () t \<or> st s = Switch t \<longrightarrow>
     k_lks t l = k_lks s l \<and> c_id (k_cpu t) = c_id (k_cpu s))"

definition lock_start :: "lockid \<Rightarrow> smp \<Rightarrow> bool" where
  "lock_start l M \<longleftrightarrow> lock_free l (m_shared M) \<and> (\<forall>i. m_pc M i = 0 \<and> c_id (m_cpus M i) = i)"

text \<open>CPU \<open>i\<close> has returned from \<^verbatim>\<open>acquire\<close> and not yet begun \<^verbatim>\<open>release\<close>.\<close>

definition in_section :: "lockid \<Rightarrow> (nat \<Rightarrow> unit kern list) \<Rightarrow> smp \<Rightarrow> nat \<Rightarrow> bool" where
  "in_section l body M i \<longleftrightarrow> length (acquire_stmts l) \<le> m_pc M i
     \<and> m_pc M i \<le> length (acquire_stmts l) + length (body i)"

text \<open>Between the two exchanges, and with \<^verbatim>\<open>lk->cpu\<close> set.\<close>

definition owns :: "nat \<Rightarrow> nat \<Rightarrow> bool" where
  "owns n pc \<longleftrightarrow> 3 \<le> pc \<and> pc \<le> n + 6"

definition named :: "nat \<Rightarrow> nat \<Rightarrow> bool" where
  "named n pc \<longleftrightarrow> 4 \<le> pc \<and> pc \<le> n + 5"

definition lock_inv :: "lockid \<Rightarrow> (nat \<Rightarrow> unit kern list) \<Rightarrow> smp \<Rightarrow> bool" where
  "lock_inv l body M \<longleftrightarrow> (\<forall>i. c_id (m_cpus M i) = i)
     \<and> (\<forall>i. owns (length (body i)) (m_pc M i) \<longrightarrow> l_locked (k_lks (m_shared M) l) \<noteq> 0)
     \<and> (\<forall>i j. owns (length (body i)) (m_pc M i) \<longrightarrow> owns (length (body j)) (m_pc M j) \<longrightarrow> i = j)
     \<and> (\<forall>i. l_cpu (k_lks (m_shared M) l) = Some i \<longleftrightarrow> named (length (body i)) (m_pc M i))"

lemma length_acquire_stmts: "length (acquire_stmts l) = 4"
  by (simp add: acquire_stmts_def)

lemma lock_code_nth:
  assumes "pc < length (lock_code l body i)"
  obtains "pc = 0" "lock_code l body i ! pc = pushcli" | "pc = 1" "lock_code l body i ! pc = acquire_check l"
  | "pc = 2" "lock_code l body i ! pc = acquire_xchg l" | "pc = 3" "lock_code l body i ! pc = set_lock_cpu l"
  | "4 \<le> pc" "pc < length (body i) + 4" "lock_code l body i ! pc \<in> set (body i)"
  | "pc = length (body i) + 4" "lock_code l body i ! pc = release_check l"
  | "pc = length (body i) + 5" "lock_code l body i ! pc = clear_lock_cpu l"
  | "pc = length (body i) + 6" "lock_code l body i ! pc = release_xchg l"
  | "pc = length (body i) + 7" "lock_code l body i ! pc = popcli"
proof -
  have c: "lock_code l body i ! pc = (if pc < 4 then acquire_stmts l ! pc
      else if pc < length (body i) + 4 then body i ! (pc - 4) else release_stmts l ! (pc - 4 - length (body i)))"
    using length_acquire_stmts [of l] by (auto simp: lock_code_def nth_append)
  have "pc < length (body i) + 8" using assms by (simp add: lock_code_def acquire_stmts_def release_stmts_def)
  then consider "pc = 0" | "pc = 1" | "pc = 2" | "pc = 3" | "4 \<le> pc" "pc < length (body i) + 4"
    | "pc = length (body i) + 4" | "pc = length (body i) + 5" | "pc = length (body i) + 6"
    | "pc = length (body i) + 7" by linarith
  then show ?thesis
    by cases (rule that; use c in \<open>simp add: acquire_stmts_def release_stmts_def\<close>)+
qed

lemma lock_inv_movedI:
  assumes "lock_inv l body M" "c_id (k_cpu t) = i"
    and "owns (length (body i)) (Suc (m_pc M i)) \<Longrightarrow> l_locked (k_lks t l) \<noteq> 0
      \<and> (\<forall>j. j \<noteq> i \<longrightarrow> \<not> owns (length (body j)) (m_pc M j))"
    and "\<And>j. j \<noteq> i \<Longrightarrow> owns (length (body j)) (m_pc M j) \<Longrightarrow> l_locked (k_lks t l) \<noteq> 0"
    and "\<And>j. l_cpu (k_lks t l) = Some j \<longleftrightarrow>
      (if j = i then named (length (body i)) (Suc (m_pc M i)) else named (length (body j)) (m_pc M j))"
  shows "lock_inv l body (moved i t M)"
  using assms unfolding lock_inv_def by auto

text \<open>A step that leaves the lock and the place of its CPU with respect to it as they were.\<close>

lemma lock_inv_same:
  assumes "lock_inv l body M" "c_id (k_cpu t) = i" "k_lks t l = k_lks (m_shared M) l"
    and "owns (length (body i)) (Suc (m_pc M i)) = owns (length (body i)) (m_pc M i)"
    and "named (length (body i)) (Suc (m_pc M i)) = named (length (body i)) (m_pc M i)"
  shows "lock_inv l body (moved i t M)"
  using assms by (intro lock_inv_movedI) (auto simp: lock_inv_def)

lemma lock_inv_moved:
  assumes inv: "lock_inv l body M" and "m_pc M i < length (lock_code l body i)"
    and st: "(lock_code l body i ! m_pc M i) (on_cpu M i) = Ret () t \<or> (lock_code l body i ! m_pc M i) (on_cpu M i) = Switch t"
    and keeps: "\<forall>st\<in>set (body i). keeps_lock l st"
  shows "lock_inv l body (moved i t M)"
proof -
  have id: "c_id (m_cpus M i) = i" using inv by (simp add: lock_inv_def)
  have own: "owns (length (body i)) (m_pc M i) \<Longrightarrow> l_locked (k_lks (m_shared M) l) \<noteq> 0
      \<and> (\<forall>j. j \<noteq> i \<longrightarrow> \<not> owns (length (body j)) (m_pc M j))"
    using inv unfolding lock_inv_def by blast
  have cpu: "l_cpu (k_lks (m_shared M) l) = Some j \<longleftrightarrow> named (length (body j)) (m_pc M j)" for j
    using inv unfolding lock_inv_def by blast
  have no: "\<not> named (length (body j)) (m_pc M j)" if "\<not> owns (length (body j)) (m_pc M j)" for j
    using that by (auto simp: owns_def named_def)
  show ?thesis
    using assms(2)
  proof (cases rule: lock_code_nth)
    case 1
    then show ?thesis using st id by (intro lock_inv_same [OF inv]) (auto simp: pushcli_def modify_def owns_def named_def)
  next
    case 2
    then show ?thesis using st id
      by (intro lock_inv_same [OF inv]) (auto simp: acquire_check_def owns_def named_def split: if_splits)
  next
    case 3
    then have t: "l_locked (k_lks (m_shared M) l) = 0" "k_lks t l = (k_lks (m_shared M) l)\<lparr>l_locked := 1\<rparr>" "c_id (k_cpu t) = i"
      using st id by (auto simp: acquire_xchg_def split: if_splits)
    have n: "\<not> owns (length (body j)) (m_pc M j)" for j using inv t(1) by (auto simp: lock_inv_def)
    show ?thesis using 3 t n no by (intro lock_inv_movedI [OF inv]) (auto simp: cpu named_def)
  next
    case 4
    then have t: "k_lks t l = (k_lks (m_shared M) l)\<lparr>l_cpu := Some i\<rparr>" "c_id (k_cpu t) = i"
      using st id by (auto simp: set_lock_cpu_def modify_def)
    have o: "owns (length (body i)) (m_pc M i)" using 4 by (simp add: owns_def)
    show ?thesis using 4 t own [OF o] no by (intro lock_inv_movedI [OF inv]) (auto simp: named_def)
  next
    case 5
    then have "k_lks t l = k_lks (m_shared M) l" "c_id (k_cpu t) = i"
      using st id keeps unfolding keeps_lock_def by (metis on_cpu_simps)+
    then show ?thesis using 5 by (intro lock_inv_same [OF inv]) (auto simp: owns_def named_def)
  next
    case 6
    then show ?thesis using st id
      by (intro lock_inv_same [OF inv]) (auto simp: release_check_def owns_def named_def split: if_splits)
  next
    case 7
    then have t: "k_lks t l = (k_lks (m_shared M) l)\<lparr>l_cpu := None\<rparr>" "c_id (k_cpu t) = i"
      using st id by (auto simp: clear_lock_cpu_def modify_def)
    have o: "owns (length (body i)) (m_pc M i)" using 7 by (simp add: owns_def)
    show ?thesis using 7 t own [OF o] no by (intro lock_inv_movedI [OF inv]) (auto simp: named_def)
  next
    case 8
    then have t: "k_lks t l = (k_lks (m_shared M) l)\<lparr>l_locked := 0\<rparr>" "c_id (k_cpu t) = i"
      using st id by (auto simp: release_xchg_def modify_def)
    have o: "owns (length (body i)) (m_pc M i)" using 8 by (simp add: owns_def)
    show ?thesis using 8 t own [OF o] by (intro lock_inv_movedI [OF inv]) (auto simp: owns_def named_def cpu)
  next
    case 9
    then have "k_lks t l = k_lks (m_shared M) l" "c_id (k_cpu t) = i"
      using st id by (auto simp: popcli_def Let_def split: if_splits)
    then show ?thesis using 9 by (intro lock_inv_same [OF inv]) (auto simp: owns_def named_def)
  qed
qed

lemma lock_inv_reachable:
  assumes "(smp_step (lock_code l body) UNIV)\<^sup>*\<^sup>* M0 M" "lock_start l M0"
    and "\<forall>i. \<forall>st\<in>set (body i). keeps_lock l st"
  shows "lock_inv l body M"
  using assms(1)
proof induction
  case base
  then show ?case using assms(2) by (auto simp: lock_start_def lock_inv_def lock_free_def owns_def named_def)
next
  case (step M M')
  from step.hyps(2) step.IH show ?case
  proof cases
    case (again i)
    have "length (lock_code l body i) = length (body i) + 8"
      by (simp add: lock_code_def acquire_stmts_def release_stmts_def)
    then show ?thesis using again step.IH by (auto simp: lock_inv_def owns_def named_def)
  qed (use lock_inv_moved assms(3) in blast)+
qed

section \<open>Properties\<close>

text \<open>
  C20: mutual exclusion. Any number of CPUs run \<^verbatim>\<open>acquire(lk)\<close>, a section of their own and
  \<^verbatim>\<open>release(lk)\<close> over and over, and their statements interleave in any way. At most one of them is
  inside its section; \<^verbatim>\<open>holding(lk)\<close> is true there, and false on a CPU that has not begun
  \<^verbatim>\<open>acquire\<close>, so neither check of the two routines fires.
\<close>

theorem spin_mutual_exclusion:
  assumes "lock_start l M0" "\<forall>i. \<forall>st\<in>set (body i). keeps_lock l st"
    and "(smp_step (lock_code l body) UNIV)\<^sup>*\<^sup>* M0 M" "in_section l body M i"
  shows "(\<forall>j. in_section l body M j \<longrightarrow> j = i) \<and> holding l (on_cpu M i)
    \<and> (\<forall>j. m_pc M j = 0 \<longrightarrow> \<not> holding l (on_cpu M j))"
proof -
  have inv: "lock_inv l body M" by (rule lock_inv_reachable [OF assms(3,1,2)])
  have s: "owns (length (body j)) (m_pc M j) \<and> named (length (body j)) (m_pc M j)" if "in_section l body M j" for j
    using that length_acquire_stmts [of l] by (auto simp: in_section_def owns_def named_def)
  then have "in_section l body M j \<Longrightarrow> j = i" for j using inv assms(4) unfolding lock_inv_def by blast
  moreover have "holding l (on_cpu M i)" using inv s [OF assms(4)] by (auto simp: lock_inv_def holding_def)
  moreover have "\<not> holding l (on_cpu M j)" if "m_pc M j = 0" for j
    using inv that by (auto simp: lock_inv_def holding_def named_def)
  ultimately show ?thesis by blast
qed

definition smp_boot :: smp where
  "smp_boot = \<lparr>m_shared = boot, m_cpus = (\<lambda>i. (k_cpu boot)\<lparr>c_id := i\<rparr>), m_pc = (\<lambda>_. 0)\<rparr>"

theorem spin_mutual_exclusion_witness:
  "\<exists>M. (smp_step (lock_code PtableLk (\<lambda>_. [])) UNIV)\<^sup>*\<^sup>* smp_boot M \<and> m_pc M 0 = 4 \<and> m_pc M 1 = 2
     \<and> (\<forall>j. in_section PtableLk (\<lambda>_. []) M j \<longrightarrow> j = 0) \<and> holding PtableLk (on_cpu M 0)
     \<and> acquire_xchg PtableLk (on_cpu M 1) = Spin"
proof -
  let ?c = "lock_code PtableLk (\<lambda>_. [])"
  define lk where "lk s f = s\<lparr>k_lks := (k_lks s)(PtableLk := f (k_lks s PtableLk))\<rparr>" for s :: kernel and f
  define M1 where "M1 = moved 0 (boot\<lparr>k_cpu := pushcli_cpu (m_cpus smp_boot 0)\<rparr>) smp_boot"
  define M2 where "M2 = moved 0 (on_cpu M1 0) M1"
  define M3 where "M3 = moved 0 (lk (on_cpu M2 0) (\<lambda>x. x\<lparr>l_locked := 1\<rparr>)) M2"
  define M4 where "M4 = moved 0 (lk (on_cpu M3 0) (\<lambda>x. x\<lparr>l_cpu := Some 0\<rparr>)) M3"
  define M5 where "M5 = moved 1 ((on_cpu M4 1)\<lparr>k_cpu := pushcli_cpu (m_cpus M4 1)\<rparr>) M4"
  define M6 where "M6 = moved 1 (on_cpu M5 1) M5"
  note d = M1_def M2_def M3_def M4_def M5_def M6_def smp_boot_def lk_def on_cpu_def lock_code_def acquire_stmts_def
    pushcli_def acquire_check_def acquire_xchg_def set_lock_cpu_def modify_def boot_def holding_def
  have 1: "smp_step ?c UNIV smp_boot M1" unfolding M1_def by (rule smp_step.run) (simp_all add: d)
  have 2: "smp_step ?c UNIV M1 M2" unfolding M2_def by (rule smp_step.run) (simp_all add: d)
  have 3: "smp_step ?c UNIV M2 M3" unfolding M3_def by (rule smp_step.run) (simp_all add: d)
  have 4: "smp_step ?c UNIV M3 M4" unfolding M4_def by (rule smp_step.run) (simp_all add: d)
  have 5: "smp_step ?c UNIV M4 M5" unfolding M5_def by (rule smp_step.run) (simp_all add: d)
  have 6: "smp_step ?c UNIV M5 M6" unfolding M6_def by (rule smp_step.run) (simp_all add: d)
  have r: "(smp_step ?c UNIV)\<^sup>*\<^sup>* smp_boot M6"
    using 1 2 3 4 5 6 by (meson rtranclp.rtrancl_into_rtrancl rtranclp.rtrancl_refl)
  moreover have "lock_start PtableLk smp_boot" by (simp add: lock_start_def smp_boot_def)
  moreover have "m_pc M6 0 = 4" "m_pc M6 1 = 2" "acquire_xchg PtableLk (on_cpu M6 1) = Spin" by (simp_all add: d)
  moreover from this have "in_section PtableLk (\<lambda>_. []) M6 0" by (simp add: in_section_def length_acquire_stmts)
  ultimately show ?thesis using spin_mutual_exclusion [of PtableLk smp_boot "\<lambda>_. []" M6 0] by auto
qed

lemma acquire_list:
  assumes "distinct ls" "\<forall>l\<in>set ls. lock_free l s"
  shows "for_each ls acquire s = Ret () (fold entered ls s)"
  using assms
proof (induction ls arbitrary: s)
  case Nil
  then show ?case by simp
next
  case (Cons l ls)
  then have "\<forall>l'\<in>set ls. lock_free l' (entered l s)" by auto
  then show ?case using Cons by simp
qed

lemma cpu_ok_entered [simp]: "cpu_ok (k_cpu s) \<Longrightarrow> cpu_ok (k_cpu (entered l s))"
  by simp

lemma entered_swap: "entered l (entered l' s) = entered l' (entered l s)" if "l \<noteq> l'"
  using that by (simp add: entered_def fun_upd_twist)

lemma fold_entered_move: "l \<in> set ls \<Longrightarrow> distinct ls \<Longrightarrow> fold entered ls s = entered l (fold entered (remove1 l ls) s)"
proof (induction ls arbitrary: s)
  case (Cons k ls)
  have "fold entered ms (entered l s) = entered l (fold entered ms s)" if "l \<notin> set ms" for ms s
    using that by (induction ms arbitrary: s) (auto, metis entered_swap)
  then show ?case using Cons by auto
qed simp

lemma lock_free_fold: "lock_free l s \<Longrightarrow> l \<notin> set ls \<Longrightarrow> lock_free l (fold entered ls s)"
  by (induction ls arbitrary: s) auto

lemma cpu_ok_fold: "cpu_ok (k_cpu s) \<Longrightarrow> cpu_ok (k_cpu (fold entered ls s))"
  by (induction ls arbitrary: s) auto

text \<open>The locks held may be released in any order.\<close>

lemma release_list:
  assumes "distinct ms" "set ms = set ls" "distinct ls" "\<forall>l\<in>set ls. lock_free l s" "cpu_ok (k_cpu s)"
  shows "for_each ms release (fold entered ls s) = Ret () s"
  using assms
proof (induction ms arbitrary: ls)
  case (Cons m ms)
  let ?t = "fold entered (remove1 m ls) s"
  have "fold entered ls s = entered m ?t" using Cons.prems by (intro fold_entered_move) auto
  moreover have "release m (entered m ?t) = Ret () ?t"
    using Cons.prems by (intro release_entered cpu_ok_fold lock_free_fold) auto
  moreover have "for_each ms release ?t = Ret () s" using Cons.prems by (intro Cons.IH) auto
  ultimately show ?case by simp
qed simp

lemma ncli_fold_entered: "c_ncli (k_cpu (fold entered ls s)) = c_ncli (k_cpu s) + int (length ls)"
  by (induction ls arbitrary: s) simp_all

lemma IF_fold_entered: "ls \<noteq> [] \<Longrightarrow> \<not> c_IF (k_cpu (fold entered ls s))"
  by (induction ls rule: rev_induct) simp_all

text \<open>
  C21: \<^verbatim>\<open>pushcli\<close>/\<^verbatim>\<open>popcli\<close> nesting. Taking any free locks one after the other disables interrupts
  and counts the depth, and releasing them again, in any order, gives back exactly the state
  before: every lock free, the nesting depth and the interrupt flag as they were.
\<close>

theorem nested_locks_restore:
  assumes "distinct ls" "\<forall>l\<in>set ls. lock_free l s" "cpu_ok (k_cpu s)" "ls \<noteq> []"
    and "distinct ms" "set ms = set ls"
  shows "\<exists>t. for_each ls acquire s = Ret () t \<and> \<not> c_IF (k_cpu t)
     \<and> c_ncli (k_cpu t) = c_ncli (k_cpu s) + int (length ls)
     \<and> for_each ms release t = Ret () s"
  using acquire_list [OF assms(1,2)] release_list [OF assms(5,6,1,2,3)] ncli_fold_entered IF_fold_entered [OF assms(4)]
  by blast

theorem nested_locks_restore_witness:
  "\<exists>t. for_each [IcacheLk, PtableLk] acquire boot = Ret () t \<and> c_ncli (k_cpu t) = 2
     \<and> for_each [IcacheLk, PtableLk] release t = Ret () boot"
  using nested_locks_restore [of "[IcacheLk, PtableLk]" boot "[IcacheLk, PtableLk]"] by auto

end
