(* ===== verification/Cstring.thy ===== *)
theory Cstring
  imports Memory
begin

text \<open>
  The kernel's memory and string routines (\<^verbatim>\<open>string.c\<close>). \<^verbatim>\<open>memset\<close> and \<^verbatim>\<open>memmove\<close> work on
  byte-addressed memory; the string routines take the bytes from a pointer on as a
  function of the offset and give the bytes they write.
\<close>

section \<open>memset\<close>

text \<open>\<^verbatim>\<open>rep stosl\<close> and \<^verbatim>\<open>rep stosb\<close> (the inline assembly of \<^verbatim>\<open>x86.h\<close>).\<close>

fun stosl :: "memory \<Rightarrow> uint \<Rightarrow> uint \<Rightarrow> nat \<Rightarrow> memory" where
  "stosl m a v 0 = m"
| "stosl m a v (Suc n) = stosl (st32 m a v) (a + 4) v n"

fun stosb :: "memory \<Rightarrow> uint \<Rightarrow> uchar \<Rightarrow> nat \<Rightarrow> memory" where
  "stosb m a v 0 = m"
| "stosb m a v (Suc n) = stosb (m(a := v)) (a + 1) v n"

definition memset :: "memory \<Rightarrow> uint \<Rightarrow> uint \<Rightarrow> uint \<Rightarrow> memory" where
  "memset m dst c n =
     (if dst mod 4 = 0 \<and> n mod 4 = 0 then
        let c = c AND 0xFF
        in stosl m dst (push_bit 24 c OR push_bit 16 c OR push_bit 8 c OR c) (unat n div 4)
      else stosb m dst (ucast c) (unat n))"

section \<open>memmove\<close>

fun copy_fwd :: "memory \<Rightarrow> uint \<Rightarrow> uint \<Rightarrow> nat \<Rightarrow> memory" where
  "copy_fwd m d s 0 = m"
| "copy_fwd m d s (Suc n) = copy_fwd (m(d := m s)) (d + 1) (s + 1) n"

fun copy_bwd :: "memory \<Rightarrow> uint \<Rightarrow> uint \<Rightarrow> nat \<Rightarrow> memory" where
  "copy_bwd m d s 0 = m"
| "copy_bwd m d s (Suc n) = copy_bwd (m(d - 1 := m (s - 1))) (d - 1) (s - 1) n"

definition memmove :: "memory \<Rightarrow> uint \<Rightarrow> uint \<Rightarrow> uint \<Rightarrow> memory" where
  "memmove m dst src n =
     (if src < dst \<and> src + n > dst then copy_bwd m (dst + n) (src + n) (unat n)
      else copy_fwd m dst src (unat n))"

text \<open>The specification: every destination byte is the source byte of the old memory.\<close>

definition copied :: "memory \<Rightarrow> uint \<Rightarrow> uint \<Rightarrow> nat \<Rightarrow> memory" where
  "copied m d s n = (\<lambda>x. if unat (x - d) < n then m (s + (x - d)) else m x)"

section \<open>memcmp and the string routines\<close>

type_synonym bytes = "nat \<Rightarrow> uchar"

definition shift :: "bytes \<Rightarrow> bytes" where
  "shift p = (\<lambda>i. p (Suc i))"

fun memcmp :: "bytes \<Rightarrow> bytes \<Rightarrow> nat \<Rightarrow> int" where
  "memcmp s1 s2 0 = 0"
| "memcmp s1 s2 (Suc n) =
     (if s1 0 \<noteq> s2 0 then uint (s1 0) - uint (s2 0) else memcmp (shift s1) (shift s2) n)"

fun strncmp :: "bytes \<Rightarrow> bytes \<Rightarrow> nat \<Rightarrow> int" where
  "strncmp p q 0 = 0"
| "strncmp p q (Suc n) =
     (if p 0 \<noteq> 0 \<and> p 0 = q 0 then strncmp (shift p) (shift q) n
      else uint (p 0) - uint (q 0))"

text \<open>The \<open>n\<close> bytes \<^verbatim>\<open>strncpy\<close> writes: the string with its NUL, then padding.\<close>

fun strncpy_bytes :: "bytes \<Rightarrow> nat \<Rightarrow> uchar list" where
  "strncpy_bytes t 0 = []"
| "strncpy_bytes t (Suc n) =
     t 0 # (if t 0 \<noteq> 0 then strncpy_bytes (shift t) n else replicate n 0)"

definition strncpy :: "uchar list \<Rightarrow> bytes \<Rightarrow> nat \<Rightarrow> uchar list" where
  "strncpy s t n = strncpy_bytes t n @ drop n s"

text \<open>
  The bytes \<^verbatim>\<open>safestrcpy\<close> writes. When the loop stops at a copied NUL, \<open>s\<close> is already
  past it and the final \<^verbatim>\<open>*s = 0\<close> writes a second one.
\<close>

fun safestrcpy_bytes :: "bytes \<Rightarrow> nat \<Rightarrow> uchar list" where
  "safestrcpy_bytes t 0 = []"
| "safestrcpy_bytes t (Suc 0) = [0]"
| "safestrcpy_bytes t (Suc (Suc n)) =
     t 0 # (if t 0 \<noteq> 0 then safestrcpy_bytes (shift t) (Suc n) else [0])"

definition safestrcpy :: "uchar list \<Rightarrow> bytes \<Rightarrow> nat \<Rightarrow> uchar list" where
  "safestrcpy s t n = (let w = safestrcpy_bytes t n in w @ drop (length w) s)"

partial_function (option) strlen_from :: "bytes \<Rightarrow> nat \<Rightarrow> nat option" where
  "strlen_from s n = (if s n = 0 then Some n else strlen_from s (Suc n))"

definition strlen :: "bytes \<Rightarrow> nat option" where
  "strlen s = strlen_from s 0"

text \<open>The bytes of a list from its start on, zero past its end.\<close>

definition bytes_of :: "uchar list \<Rightarrow> bytes" where
  "bytes_of xs = (\<lambda>i. if i < length xs then xs ! i else 0)"

text \<open>\<open>cstr n p\<close>: the string at \<open>p\<close> as a routine that looks at \<open>n\<close> bytes sees it.\<close>

fun cstr :: "nat \<Rightarrow> bytes \<Rightarrow> uchar list" where
  "cstr 0 p = []"
| "cstr (Suc n) p = (if p 0 = 0 then [] else p 0 # cstr n (shift p))"

section \<open>Facts\<close>

lemma offset_Suc:
  assumes "x \<noteq> (a :: uint)"
  shows "unat (x - a) = Suc (unat (x - (a + 1)))"
proof -
  have ne: "x - a \<noteq> 0" using assms by simp
  have "unat (x - (a + 1)) = unat (x - a) - 1"
    using unat_minus_one [OF ne] by (simp only: diff_diff_eq)
  moreover have "0 < unat (x - a)" using assms by (simp add: unat_gt_0)
  ultimately show ?thesis by linarith
qed

lemma fill_Suc: "fill (m(a := c)) (a + 1) c n = fill m a c (Suc n)" if "n < 2 ^ 32"
proof
  fix x
  show "fill (m(a := c)) (a + 1) c n x = fill m a c (Suc n) x"
    using offset_Suc [of x a] by (cases "x = a") (auto simp: fill_def)
qed

lemma stosb_fill: "n < 2 ^ 32 \<Longrightarrow> stosb m a c n = fill m a c n"
proof (induction n arbitrary: m a)
  case 0
  show ?case by (simp add: fill_def)
next
  case (Suc n)
  then show ?case using fill_Suc [of n m a c] by simp
qed

definition splat :: "uint \<Rightarrow> uint" where
  "splat c = push_bit 24 c OR push_bit 16 c OR push_bit 8 c OR c"

lemma splat_bytes:
  fixes c :: uint
  assumes "c = ucast (b :: uchar)"
  shows "ucast (splat c) = b" "ucast (drop_bit 8 (splat c)) = b"
    "ucast (drop_bit 16 (splat c)) = b" "ucast (drop_bit 24 (splat c)) = b"
  unfolding splat_def assms by (rule bit_word_eqI; auto simp: bit_simps dest: bit_imp_le_length)+

lemma stosb_4: "stosb m a b 4 = m(a := b, a + 1 := b, a + 2 := b, a + 3 := b)"
  by (simp add: numeral_eq_Suc add.commute)

lemma st32_splat: "st32 m a (splat (ucast (b :: uchar))) = stosb m a b 4"
  by (simp add: st32_def splat_bytes [OF refl] stosb_4)

lemma stosb_add: "stosb m a b (k + n) = stosb (stosb m a b k) (a + of_nat k) b n"
  by (induction k arbitrary: m a) (simp_all add: add.assoc)

lemma stosl_fill: "n < 2 ^ 30 \<Longrightarrow> stosl m a (splat (ucast (b :: uchar))) n = stosb m a b (4 * n)"
proof (induction n arbitrary: m a)
  case 0
  show ?case by simp
next
  case (Suc n)
  have "stosb m a b (4 * Suc n) = stosb (stosb m a b 4) (a + 4) b (4 * n)"
    by (simp add: stosb_add [of m a b 4 "4 * n", simplified])
  then show ?case using Suc by (simp add: st32_splat)
qed

lemma ucast_and_FF: "(c :: uint) AND 0xFF = ucast (ucast c :: uchar)"
proof -
  have m: "(0xFF :: uint) = mask 8" by (simp add: mask_eq_exp_minus_1)
  show ?thesis
    unfolding m by (rule bit_word_eqI) (auto simp: bit_simps)
qed

lemma memset_fill: "memset m dst c n = fill m dst (ucast c) (unat n)"
proof (cases "dst mod 4 = 0 \<and> n mod 4 = 0")
  case True
  then have "unat n mod 4 = 0" by (simp add: word_unat_eq_iff unat_mod_distrib)
  then have n: "4 * (unat n div 4) = unat n" by auto
  have "unat n div 4 < 2 ^ 30" using unat_bound [of n] by simp
  then have "memset m dst c n = stosb m dst (ucast c) (unat n)"
    using True stosl_fill [of "unat n div 4" m dst "ucast c"] n
    by (simp add: memset_def Let_def splat_def ucast_and_FF)
  then show ?thesis using unat_bound [of n] by (simp add: stosb_fill)
next
  case False
  then show ?thesis using unat_bound [of n] by (auto simp: memset_def stosb_fill)
qed

text \<open>
  C23: \<^verbatim>\<open>memset\<close> sets exactly the \<open>n\<close> bytes from \<open>dst\<close> on to the low byte of \<open>c\<close>,
  whichever of its two loops (32-bit stores or byte stores) it runs.
\<close>

theorem memset_correct: "memset m dst c n = fill m dst (ucast c) (unat n)"
  by (rule memset_fill)

lemma copied_0 [simp]: "copied m d s 0 = m"
  by (simp add: copied_def)

lemma unat_plus1: "unat (a :: uint) + k < 2 ^ 32 \<Longrightarrow> 0 < k \<Longrightarrow> unat (a + 1) = unat a + 1"
  by (simp add: unat_word_ariths)

lemma copy_fwd_copied:
  assumes "unat s + n \<le> 2 ^ 32" "unat d + n \<le> 2 ^ 32"
    and "\<not> (unat s < unat d \<and> unat d < unat s + n)"
  shows "copy_fwd m d s n = copied m d s n"
  using assms
proof (induction n arbitrary: m d s)
  case 0
  show ?case by simp
next
  case (Suc n)
  show ?case
  proof (cases "n = 0")
    case True
    then show ?thesis by (auto simp: copied_def fun_eq_iff unat_eq_0)
  next
    case False
    have s1: "unat (s + 1) = unat s + 1" and d1: "unat (d + 1) = unat d + 1"
      using Suc.prems False unat_plus1 [of s n] unat_plus1 [of d n] by simp_all
    have "copy_fwd m d s (Suc n) = copied (m(d := m s)) (d + 1) (s + 1) n"
      using Suc.prems s1 d1 by (auto intro!: Suc.IH)
    also have "\<dots> = copied m d s (Suc n)"
    proof
      fix x
      show "copied (m(d := m s)) (d + 1) (s + 1) n x = copied m d s (Suc n) x"
      proof (cases "x = d")
        case True
        have "unat (-1 :: uint) = 2 ^ 32 - 1" by (simp add: unsigned_minus_1_eq_mask mask_eq_exp_minus_1)
        then have "\<not> unat (x - (d + 1)) < n" using True Suc.prems(2) by simp
        then show ?thesis using True by (simp add: copied_def)
      next
        case F: False
        have o: "unat (x - d) = Suc (unat (x - (d + 1)))" using F by (rule offset_Suc)
        have eq: "s + 1 + (x - (d + 1)) = s + (x - d)" by simp
        have "s + (x - d) \<noteq> d" if "unat (x - d) < Suc n"
        proof
          assume a: "s + (x - d) = d"
          have "unat (s + (x - d)) = unat s + unat (x - d)"
            using that Suc.prems(1) by (simp add: unat_word_ariths)
          then show False using a that o Suc.prems(3) by simp
        qed
        then show ?thesis using F o eq by (simp add: copied_def)
      qed
    qed
    finally show ?thesis .
  qed
qed

lemma copy_bwd_copied:
  assumes "unat s + n \<le> 2 ^ 32" "unat d + n \<le> 2 ^ 32" "unat s < unat d"
  shows "copy_bwd m (d + of_nat n) (s + of_nat n) n = copied m d s n"
  using assms
proof (induction n arbitrary: m)
  case 0
  show ?case by simp
next
  case (Suc n)
  have sn: "unat (s + of_nat n) = unat s + n" and dn: "unat (d + of_nat n) = unat d + n"
    using Suc.prems by (simp_all add: unat_word_ariths unat_of_nat)
  have "copy_bwd m (d + of_nat (Suc n)) (s + of_nat (Suc n)) (Suc n)
      = copied (m(d + of_nat n := m (s + of_nat n))) d s n"
    using Suc by (simp add: algebra_simps)
  also have "\<dots> = copied m d s (Suc n)"
  proof
    fix x
    have u: "unat (of_nat n :: uint) = n" using Suc.prems by (simp add: unat_of_nat)
    have e: "x = d + of_nat n \<longleftrightarrow> unat (x - d) = n"
      using u by (metis add_diff_cancel_left' diff_add_cancel add.commute word_unat_eq_iff)
    have "s + (x - d) \<noteq> d + of_nat n" if "unat (x - d) < n"
    proof
      assume a: "s + (x - d) = d + of_nat n"
      have "unat (s + (x - d)) = unat s + unat (x - d)"
        using that Suc.prems(1) by (simp add: unat_word_ariths)
      then show False using a that dn Suc.prems(3) by simp
    qed
    then show "copied (m(d + of_nat n := m (s + of_nat n))) d s n x = copied m d s (Suc n) x"
      using e by (auto simp: copied_def less_Suc_eq)
  qed
  finally show ?case .
qed

lemma memmove_copied:
  assumes "unat src + unat n < 2 ^ 32" "unat dst + unat n \<le> 2 ^ 32"
  shows "memmove m dst src n = copied m dst src (unat n)"
proof (cases "src < dst \<and> src + n > dst")
  case True
  then have "unat src < unat dst" by (simp add: word_less_nat_alt)
  then show ?thesis
    using True assms copy_bwd_copied [of src "unat n" dst m] by (simp add: memmove_def)
next
  case False
  have "unat (src + n) = unat src + unat n" using assms(1) by (simp add: unat_word_ariths)
  then have "\<not> (unat src < unat dst \<and> unat dst < unat src + unat n)"
    using False by (simp add: word_less_nat_alt)
  then show ?thesis
    using False assms copy_fwd_copied [of src "unat n" dst m] by (auto simp: memmove_def)
qed

text \<open>
  C22: \<^verbatim>\<open>memmove\<close> copies \<open>n\<close> bytes as if all were read before any is written, for
  overlapping regions too: with no wrap-around, every destination byte gets the old
  source byte and no other byte changes.
\<close>

theorem memmove_correct:
  assumes "unat src + unat n < 2 ^ 32" "unat dst + unat n \<le> 2 ^ 32"
  shows "memmove m dst src n = copied m dst src (unat n)"
  using assms by (rule memmove_copied)

theorem memmove_correct_witness:
  "memmove (\<lambda>x. ucast x) 0x1002 0x1000 4 = copied (\<lambda>x. ucast x) 0x1002 0x1000 4"
  using memmove_correct [of "0x1000" 4 "0x1002" ucast] by simp

section \<open>Strings\<close>

lemma uint_inj [simp]: "uint (a :: uchar) = uint b \<longleftrightarrow> a = b"
  by (simp add: word_uint_eq_iff)

text \<open>Two strings compare equal exactly when the bytes up to NUL or \<open>n\<close> are equal.\<close>

lemma strncmp_eq_0: "strncmp p q n = 0 \<longleftrightarrow> cstr n p = cstr n q"
  by (induction p q n rule: strncmp.induct) (auto simp: uint_0_iff)

lemma memcmp_eq_0: "memcmp p q n = 0 \<longleftrightarrow> (\<forall>i<n. p i = q i)"
proof (induction p q n rule: memcmp.induct)
  case (1 p q)
  show ?case by simp
next
  case (2 p q n)
  then show ?case by (auto simp: shift_def less_Suc_eq_0_disj)
qed

lemma length_strncpy_bytes [simp]: "length (strncpy_bytes t n) = n"
  by (induction t n rule: strncpy_bytes.induct) auto

lemma bytes_of_Cons: "bytes_of (x # xs) 0 = x" "shift (bytes_of (x # xs)) = bytes_of xs"
  "bytes_of (x # xs) (Suc i) = bytes_of xs i"
  by (simp_all add: bytes_of_def shift_def fun_eq_iff)

lemma cstr_cong: "(\<And>i. i < n \<Longrightarrow> p i = q i) \<Longrightarrow> cstr n p = cstr n q"
proof (induction n arbitrary: p q)
  case 0
  show ?case by simp
next
  case (Suc n)
  have "cstr n (shift p) = cstr n (shift q)"
    by (rule Suc.IH) (simp add: shift_def Suc.prems)
  then show ?case using Suc.prems [of 0] by simp
qed

lemma cstr_strncpy_bytes: "cstr n (bytes_of (strncpy_bytes t n)) = cstr n t"
  by (induction t n rule: strncpy_bytes.induct) (auto simp: bytes_of_Cons)

lemma length_safestrcpy_bytes:
  "length (safestrcpy_bytes t n) \<le> n" "0 < n \<Longrightarrow> 0 < length (safestrcpy_bytes t n)"
  by (induction t n rule: safestrcpy_bytes.induct) auto

lemma cstr_safestrcpy_bytes:
  "0 < n \<Longrightarrow> cstr n (bytes_of (safestrcpy_bytes t n @ r)) = cstr (n - 1) t"
  by (induction t n rule: safestrcpy_bytes.induct) (auto simp: bytes_of_Cons)

lemma safestrcpy_terminated:
  "0 < n \<Longrightarrow> \<exists>i<n. bytes_of (safestrcpy_bytes t n @ r) i = 0"
proof (induction t n rule: safestrcpy_bytes.induct)
  case (1 t)
  then show ?case by simp
next
  case (2 t)
  show ?case by (auto simp: bytes_of_def)
next
  case (3 t n)
  show ?case
  proof (cases "t 0 = 0")
    case True
    then show ?thesis by (intro exI [of _ 0]) (simp add: bytes_of_Cons)
  next
    case False
    with 3 obtain i where "i < Suc n" "bytes_of (safestrcpy_bytes (shift t) (Suc n) @ r) i = 0"
      by auto
    with False show ?thesis
      by (intro exI [of _ "Suc i"]) (simp add: bytes_of_Cons)
  qed
qed

text \<open>
  C24: \<^verbatim>\<open>strncpy\<close> and \<^verbatim>\<open>strncmp\<close> agree: a name stored in an \<open>n\<close>-byte field compares
  equal to the original and the field stays \<open>n\<close> bytes, even when it is too long for a NUL;
  \<^verbatim>\<open>safestrcpy\<close> always leaves a NUL inside its \<open>n\<close> bytes and keeps the first \<open>n - 1\<close>.
\<close>

theorem string_copies:
  assumes "length s = n" "0 < n"
  shows "length (strncpy s t n) = n \<and> strncmp (bytes_of (strncpy s t n)) t n = 0 \<and>
     length (safestrcpy s t n) = n \<and> (\<exists>i<n. bytes_of (safestrcpy s t n) i = 0) \<and>
     cstr n (bytes_of (safestrcpy s t n)) = cstr (n - 1) t"
  using assms length_safestrcpy_bytes(1) [of t n]
  by (simp add: strncpy_def safestrcpy_def Let_def strncmp_eq_0 cstr_strncpy_bytes
      safestrcpy_terminated cstr_safestrcpy_bytes)

theorem string_copies_witness:
  "strncmp (bytes_of (strncpy [9, 9, 9] (bytes_of [65, 66, 67, 68, 0]) 3))
     (bytes_of [65, 66, 67, 68, 0]) 3 = 0"
  using string_copies [of "[9, 9, 9]" 3 "bytes_of [65, 66, 67, 68, 0]"] by simp

lemma strlen_from_Some:
  "s (n + k) = 0 \<Longrightarrow> (\<And>i. n \<le> i \<Longrightarrow> i < n + k \<Longrightarrow> s i \<noteq> 0) \<Longrightarrow> strlen_from s n = Some (n + k)"
proof (induction k arbitrary: n)
  case 0
  then show ?case by (simp add: strlen_from.simps)
next
  case (Suc k)
  have "strlen_from s (Suc n) = Some (Suc n + k)"
    using Suc.prems by (intro Suc.IH) auto
  moreover have "s n \<noteq> 0" using Suc.prems(2) [of n] by simp
  ultimately show ?case by (simp add: strlen_from.simps [of s n])
qed

lemma strlen_first_nul:
  assumes "s k = 0" "\<And>i. i < k \<Longrightarrow> s i \<noteq> 0"
  shows "strlen s = Some k"
  using strlen_from_Some [of s 0 k] assms by (simp add: strlen_def)

lemma strlen_returns:
  assumes "s j = 0"
  shows "\<exists>k\<le>j. strlen s = Some k"
proof -
  define k where "k = (LEAST i. s i = 0)"
  have "s k = 0" "k \<le> j"
    using assms unfolding k_def by (auto intro: LeastI Least_le)
  moreover have "s i \<noteq> 0" if "i < k" for i
    using that not_less_Least unfolding k_def by blast
  ultimately show ?thesis using strlen_first_nul by blast
qed

end
