(* ===== verification/Kalloc.thy ===== *)
theory Kalloc
  imports Spinlock Cstring
begin

text \<open>
  The physical page allocator (\<^verbatim>\<open>kalloc.c\<close>): a free list threaded through the free pages
  themselves, read here from byte-addressed memory, and the counter \<^verbatim>\<open>numfreepages\<close>.
\<close>

section \<open>Operations\<close>

abbreviation update_kmem :: "(kmemory \<Rightarrow> kmemory) \<Rightarrow> kernel \<Rightarrow> kernel" where
  "update_kmem f s \<equiv> s\<lparr>k_kmem := f (k_kmem s)\<rparr>"

text \<open>The sections between \<^verbatim>\<open>if(kmem.use_lock) acquire\<close> and \<^verbatim>\<open>release\<close>.\<close>

definition kmem_section :: "'a kern \<Rightarrow> 'a kern" where
  "kmem_section body s = (if km_use_lock (k_kmem s) then with_lock KmemLk body s else body s)"

definition kfree :: "uint \<Rightarrow> unit kern" where
  "kfree v s =
     (if v mod PGSIZE \<noteq> 0 \<or> v < k_end s \<or> v2p v \<ge> PHYSTOP then Panic ''kfree''
      else andthen (modify (\<lambda>s. s\<lparr>k_mem := memset (k_mem s) v 1 PGSIZE\<rparr>))
        (kmem_section (modify (\<lambda>s. s\<lparr>k_numfreepages := k_numfreepages s + 1,
            k_mem := st32 (k_mem s) v (km_freelist (k_kmem s)),
            k_kmem := (k_kmem s)\<lparr>km_freelist := v\<rparr>\<rparr>))) s)"

definition kalloc :: "uint kern" where
  "kalloc = kmem_section
     (andthen (modify (\<lambda>s. s\<lparr>k_numfreepages := k_numfreepages s - 1\<rparr>))
     (bnd (gets (\<lambda>s. km_freelist (k_kmem s))) (\<lambda>r.
      andthen (modify (\<lambda>s. if r \<noteq> 0
                then s\<lparr>k_kmem := (k_kmem s)\<lparr>km_freelist := ld32 (k_mem s) r\<rparr>\<rparr> else s))
      (ret r))))"

definition freemem :: "int kern" where
  "freemem = gets k_numfreepages"

text \<open>
  The loop of \<^verbatim>\<open>freerange\<close>. A page \<^verbatim>\<open>kfree\<close> accepts lies below PHYSTOP, so the
  address grows without wrapping and the loop ends.
\<close>

lemma kfree_Ret_bound:
  assumes "kfree p s = Ret u s'"
  shows "unat (p + PGSIZE) = unat p + 4096" "unat p < 2 ^ 32 - 4096"
proof -
  have "v2p p < PHYSTOP"
    using assms by (auto simp: kfree_def not_le split: if_splits)
  then have d: "unat (p - KERNBASE) < unat PHYSTOP" by (simp add: v2p_def word_less_nat_alt)
  have "unat (p - KERNBASE + KERNBASE) = unat (p - KERNBASE) + unat KERNBASE"
    using d by (subst unat_word_ariths) (simp add: KERNBASE_def PHYSTOP_def)
  then show b: "unat p < 2 ^ 32 - 4096" using d by (simp add: KERNBASE_def PHYSTOP_def)
  then show "unat (p + PGSIZE) = unat p + 4096" by (simp add: PGSIZE_def unat_word_ariths)
qed

function freerange_loop :: "uint \<Rightarrow> uint \<Rightarrow> unit kern" where
  "freerange_loop p vend s =
     (if p + PGSIZE \<le> vend then
        case kfree p s of Ret _ s' \<Rightarrow> freerange_loop (p + PGSIZE) vend s'
        | Panic m \<Rightarrow> Panic m | Switch s' \<Rightarrow> Switch s' | Spin \<Rightarrow> Spin
      else Ret () s)"
  by pat_completeness auto
termination
proof (relation "measure (\<lambda>(p, vend, s). 2 ^ 32 - unat p)")
  fix p vend s u s'
  assume "kfree p s = Ret u s'"
  from kfree_Ret_bound [OF this]
  show "((p + PGSIZE, vend, s'), p, vend, s) \<in> measure (\<lambda>(p, vend, s). 2 ^ 32 - unat p)"
    by simp
qed simp

declare freerange_loop.simps [simp del]

definition freerange :: "uint \<Rightarrow> uint \<Rightarrow> unit kern" where
  "freerange vstart vend = freerange_loop (PGROUNDUP vstart) vend"

definition kinit1 :: "uint \<Rightarrow> uint \<Rightarrow> unit kern" where
  "kinit1 vstart vend = andthen (initlock KmemLk ''kmem'')
     (andthen (modify (update_kmem (\<lambda>k. k\<lparr>km_use_lock := False\<rparr>))) (freerange vstart vend))"

definition kinit2 :: "uint \<Rightarrow> uint \<Rightarrow> unit kern" where
  "kinit2 vstart vend = andthen (freerange vstart vend)
     (modify (update_kmem (\<lambda>k. k\<lparr>km_use_lock := True\<rparr>)))"

section \<open>The free list as a list of pages\<close>

primrec chain :: "memory \<Rightarrow> uint \<Rightarrow> uint list \<Rightarrow> bool" where
  "chain m p [] \<longleftrightarrow> p = 0"
| "chain m p (x # xs) \<longleftrightarrow> p = x \<and> x \<noteq> 0 \<and> chain m (ld32 m x) xs"

definition page_ok :: "kernel \<Rightarrow> uint \<Rightarrow> bool" where
  "page_ok s v \<longleftrightarrow> v mod PGSIZE = 0 \<and> k_end s \<le> v \<and> v2p v < PHYSTOP"

text \<open>
  \<open>pool s xs\<close>: the free list of \<open>s\<close> is well formed and its pages are \<open>xs\<close>, in order; the
  lock is available to the running CPU.
\<close>

definition pool :: "kernel \<Rightarrow> uint list \<Rightarrow> bool" where
  "pool s xs \<longleftrightarrow> chain (k_mem s) (km_freelist (k_kmem s)) xs \<and> distinct xs \<and>
     (\<forall>x\<in>set xs. page_ok s x) \<and> lock_avail KmemLk s"

lemma page_ok_nonzero: "page_ok s v \<Longrightarrow> v \<noteq> 0"
  by (auto simp: page_ok_def v2p_def KERNBASE_def PHYSTOP_def)

lemma page_ok_aligned: "page_ok s v \<Longrightarrow> page_aligned v"
  by (simp add: page_ok_def page_aligned_def)

lemma page_ok_cong: "k_end s' = k_end s \<Longrightarrow> page_ok s' v = page_ok s v"
  by (simp add: page_ok_def)

lemma page_ok_updates [simp]:
  "page_ok (s\<lparr>k_cpu := x0\<rparr>) v = page_ok s v"
  "page_ok (s\<lparr>k_lks := x1\<rparr>) v = page_ok s v"
  "page_ok (s\<lparr>k_mem := x2\<rparr>) v = page_ok s v"
  "page_ok (s\<lparr>k_forkret := x3\<rparr>) v = page_ok s v"
  "page_ok (s\<lparr>k_kpgdir := x4\<rparr>) v = page_ok s v"
  "page_ok (s\<lparr>k_kmem := x5\<rparr>) v = page_ok s v"
  "page_ok (s\<lparr>k_numfreepages := x6\<rparr>) v = page_ok s v"
  "page_ok (s\<lparr>k_procs := x7\<rparr>) v = page_ok s v"
  "page_ok (s\<lparr>k_nextpid := x8\<rparr>) v = page_ok s v"
  "page_ok (s\<lparr>k_initproc := x9\<rparr>) v = page_ok s v"
  "page_ok (s\<lparr>k_ftable := x10\<rparr>) v = page_ok s v"
  "page_ok (s\<lparr>k_icache := x11\<rparr>) v = page_ok s v"
  "page_ok (s\<lparr>k_pipes := x12\<rparr>) v = page_ok s v"
  "page_ok (s\<lparr>k_ticks := x13\<rparr>) v = page_ok s v"
  "page_ok (s\<lparr>k_thrlock := x14\<rparr>) v = page_ok s v"
  "page_ok (s\<lparr>k_bcache := x15\<rparr>) v = page_ok s v"
  "page_ok (s\<lparr>k_disk := x16\<rparr>) v = page_ok s v"
  "page_ok (s\<lparr>k_writes := x17\<rparr>) v = page_ok s v"
  "page_ok (s\<lparr>k_log := x18\<rparr>) v = page_ok s v"
  "page_ok (s\<lparr>k_sb := x19\<rparr>) v = page_ok s v"
  "page_ok (s\<lparr>k_input := y0\<rparr>) v = page_ok s v"
  "page_ok (s\<lparr>k_out := y1\<rparr>) v = page_ok s v"
  "page_ok (s\<lparr>k_idequeue := y2\<rparr>) v = page_ok s v"
  "page_ok (s\<lparr>k_havedisk1 := y3\<rparr>) v = page_ok s v"
  "page_ok (s\<lparr>k_idecmd := y4\<rparr>) v = page_ok s v"
  "page_ok (s\<lparr>k_kbdshift := y5\<rparr>) v = page_ok s v"
  "page_ok (s\<lparr>k_disksize := w0\<rparr>) v = page_ok s v"
  "page_ok (s\<lparr>k_consdev := w1\<rparr>) v = page_ok s v"
  "page_ok (s\<lparr>k_conslocking := w2\<rparr>) v = page_ok s v"
  "page_ok (s\<lparr>k_panicked := w3\<rparr>) v = page_ok s v"
  "page_ok (s\<lparr>k_crt := w4\<rparr>) v = page_ok s v"
  "page_ok (s\<lparr>k_crtpos := w5\<rparr>) v = page_ok s v"
  "page_ok (s\<lparr>k_uart := v0\<rparr>) v = page_ok s v"
  "page_ok (s\<lparr>k_irqmask := v1\<rparr>) v = page_ok s v"
  "page_ok (s\<lparr>k_ports := v2\<rparr>) v = page_ok s v"
  "page_ok (s\<lparr>k_lapic := v3\<rparr>) v = page_ok s v"
  "page_ok (s\<lparr>k_lapicw := v4\<rparr>) v = page_ok s v"
  "page_ok (s\<lparr>k_ioapicw := v5\<rparr>) v = page_ok s v"
  "page_ok (s\<lparr>k_ismp := v6\<rparr>) v = page_ok s v"
  "page_ok (s\<lparr>k_ncpu := v7\<rparr>) v = page_ok s v"
  "page_ok (s\<lparr>k_bcpu := v8\<rparr>) v = page_ok s v"
  "page_ok (s\<lparr>k_ioapicid := v9\<rparr>) v = page_ok s v"
  "page_ok (s\<lparr>k_data := y9\<rparr>) v = page_ok s v"
  by (simp_all add: page_ok_def)

lemma chain_cong:
  "(\<And>x. x \<in> set xs \<Longrightarrow> ld32 m' x = ld32 m x) \<Longrightarrow> chain m' p xs = chain m p xs"
  by (induction xs arbitrary: p) auto

lemma kmem_section_eq:
  assumes "lock_avail KmemLk s" "lock_avail KmemLk s'"
    and "body s = Ret a s'" "body (entered KmemLk s) = Ret a (entered KmemLk s')"
  shows "kmem_section body s = Ret a s'"
  using assms by (simp add: kmem_section_def with_lock_eq)

text \<open>The exact effect of the two operations.\<close>

lemma kalloc_eq:
  assumes "lock_avail KmemLk s"
  shows "kalloc s = Ret (km_freelist (k_kmem s))
    (s\<lparr>k_numfreepages := k_numfreepages s - 1,
       k_kmem := (if km_freelist (k_kmem s) \<noteq> 0
         then (k_kmem s)\<lparr>km_freelist := ld32 (k_mem s) (km_freelist (k_kmem s))\<rparr> else k_kmem s)\<rparr>)"
  unfolding kalloc_def using assms by (intro kmem_section_eq) auto

lemma kfree_eq:
  assumes "lock_avail KmemLk s" "page_ok s v"
  shows "kfree v s = Ret () (s\<lparr>k_numfreepages := k_numfreepages s + 1,
    k_mem := st32 (fill (k_mem s) v 1 4096) v (km_freelist (k_kmem s)),
    k_kmem := (k_kmem s)\<lparr>km_freelist := v\<rparr>\<rparr>)"
proof -
  have "kmem_section (modify (\<lambda>s. s\<lparr>k_numfreepages := k_numfreepages s + 1,
            k_mem := st32 (k_mem s) v (km_freelist (k_kmem s)),
            k_kmem := (k_kmem s)\<lparr>km_freelist := v\<rparr>\<rparr>))
        (s\<lparr>k_mem := fill (k_mem s) v 1 4096\<rparr>)
      = Ret () (s\<lparr>k_numfreepages := k_numfreepages s + 1,
          k_mem := st32 (fill (k_mem s) v 1 4096) v (km_freelist (k_kmem s)),
          k_kmem := (k_kmem s)\<lparr>km_freelist := v\<rparr>\<rparr>)"
    using assms(1) by (intro kmem_section_eq) simp_all
  then show ?thesis
    using assms(2) by (auto simp: kfree_def page_ok_def not_less memset_fill PGSIZE_def)
qed

lemma kfree_bad: "\<not> page_ok s v \<Longrightarrow> kfree v s = Panic ''kfree''"
  by (auto simp: kfree_def page_ok_def not_le not_less)

text \<open>Freeing a page changes bytes of that page only.\<close>

lemma free_mem_elsewhere:
  assumes "page_aligned v" "\<not> in_page v x"
  shows "st32 (fill m v 1 4096) v w x = m x"
proof -
  have "in_page v (v + k)" if "unat k < 4096" for k using that by (simp add: in_page_def)
  from this [of 0] this [of 1] this [of 2] this [of 3] assms(2)
  have "x \<noteq> v" "x \<noteq> v + 1" "x \<noteq> v + 2" "x \<noteq> v + 3" by auto
  then show ?thesis using assms(2) by (simp add: st32_elsewhere fill_def in_page_def)
qed

lemma ld32_page_cong:
  assumes "page_aligned a" "\<And>x. in_page a x \<Longrightarrow> m x = m' x"
  shows "ld32 m a = ld32 m' a"
  by (rule ld32_cong) (auto intro!: assms(2) simp: in_page_def)

lemma ld32_free_other:
  assumes "page_aligned v" "page_aligned a" "a \<noteq> v"
  shows "ld32 (st32 (fill m v 1 4096) v w) a = ld32 m a"
proof (rule ld32_page_cong [OF assms(2)])
  fix x assume "in_page a x"
  then have "\<not> in_page v x" using in_page_disjoint [OF assms(1,2)] assms(3) by auto
  then show "st32 (fill m v 1 4096) v w x = m x" by (rule free_mem_elsewhere [OF assms(1)])
qed

lemma pool_updates [simp]:
  "pool (s\<lparr>k_forkret := x0\<rparr>) xs = pool s xs"
  "pool (s\<lparr>k_kpgdir := x1\<rparr>) xs = pool s xs"
  "pool (s\<lparr>k_numfreepages := x2\<rparr>) xs = pool s xs"
  "pool (s\<lparr>k_procs := x3\<rparr>) xs = pool s xs"
  "pool (s\<lparr>k_nextpid := x4\<rparr>) xs = pool s xs"
  "pool (s\<lparr>k_initproc := x5\<rparr>) xs = pool s xs"
  "pool (s\<lparr>k_ftable := x6\<rparr>) xs = pool s xs"
  "pool (s\<lparr>k_icache := x7\<rparr>) xs = pool s xs"
  "pool (s\<lparr>k_pipes := x8\<rparr>) xs = pool s xs"
  "pool (s\<lparr>k_ticks := x9\<rparr>) xs = pool s xs"
  "pool (s\<lparr>k_thrlock := x10\<rparr>) xs = pool s xs"
  "pool (s\<lparr>k_bcache := x11\<rparr>) xs = pool s xs"
  "pool (s\<lparr>k_disk := x12\<rparr>) xs = pool s xs"
  "pool (s\<lparr>k_writes := x13\<rparr>) xs = pool s xs"
  "pool (s\<lparr>k_log := x14\<rparr>) xs = pool s xs"
  "pool (s\<lparr>k_sb := x15\<rparr>) xs = pool s xs"
  "pool (s\<lparr>k_input := y0\<rparr>) xs = pool s xs"
  "pool (s\<lparr>k_out := y1\<rparr>) xs = pool s xs"
  "pool (s\<lparr>k_idequeue := y2\<rparr>) xs = pool s xs"
  "pool (s\<lparr>k_havedisk1 := y3\<rparr>) xs = pool s xs"
  "pool (s\<lparr>k_idecmd := y4\<rparr>) xs = pool s xs"
  "pool (s\<lparr>k_kbdshift := y5\<rparr>) xs = pool s xs"
  "pool (s\<lparr>k_disksize := w0\<rparr>) xs = pool s xs"
  "pool (s\<lparr>k_consdev := w1\<rparr>) xs = pool s xs"
  "pool (s\<lparr>k_conslocking := w2\<rparr>) xs = pool s xs"
  "pool (s\<lparr>k_panicked := w3\<rparr>) xs = pool s xs"
  "pool (s\<lparr>k_crt := w4\<rparr>) xs = pool s xs"
  "pool (s\<lparr>k_crtpos := w5\<rparr>) xs = pool s xs"
  "pool (s\<lparr>k_uart := v0\<rparr>) xs = pool s xs"
  "pool (s\<lparr>k_irqmask := v1\<rparr>) xs = pool s xs"
  "pool (s\<lparr>k_ports := v2\<rparr>) xs = pool s xs"
  "pool (s\<lparr>k_lapic := v3\<rparr>) xs = pool s xs"
  "pool (s\<lparr>k_lapicw := v4\<rparr>) xs = pool s xs"
  "pool (s\<lparr>k_ioapicw := v5\<rparr>) xs = pool s xs"
  "pool (s\<lparr>k_ismp := v6\<rparr>) xs = pool s xs"
  "pool (s\<lparr>k_ncpu := v7\<rparr>) xs = pool s xs"
  "pool (s\<lparr>k_bcpu := v8\<rparr>) xs = pool s xs"
  "pool (s\<lparr>k_ioapicid := v9\<rparr>) xs = pool s xs"
  by (simp_all add: pool_def)

lemma pool_cong:
  "k_mem s' = k_mem s \<Longrightarrow> k_end s' = k_end s \<Longrightarrow> k_kmem s' = k_kmem s \<Longrightarrow> k_lks s' = k_lks s \<Longrightarrow>
   k_cpu s' = k_cpu s \<Longrightarrow> pool s' xs = pool s xs"
  by (cases xs) (simp_all add: pool_def page_ok_cong [of s' s] lock_avail_def lock_free_def)

lemma pool_avail [simp]: "pool s xs \<Longrightarrow> lock_avail KmemLk s"
  by (simp add: pool_def)

section \<open>The allocator as a stack of pages\<close>

lemma pool_kalloc_Nil:
  assumes "pool s []"
  shows "kalloc s = Ret 0 (s\<lparr>k_numfreepages := k_numfreepages s - 1\<rparr>)"
    and "pool (s\<lparr>k_numfreepages := n\<rparr>) []"
  using assms by (auto simp: pool_def kalloc_eq)

lemma pool_kalloc_Cons:
  assumes "pool s (x # xs)"
  defines "s' \<equiv> s\<lparr>k_numfreepages := k_numfreepages s - 1,
    k_kmem := (k_kmem s)\<lparr>km_freelist := ld32 (k_mem s) x\<rparr>\<rparr>"
  shows "kalloc s = Ret x s'" "pool s' xs"
  using assms by (auto simp: pool_def kalloc_eq)

lemma pool_kfree:
  assumes "pool s xs" "page_ok s v" "v \<notin> set xs"
  defines "s' \<equiv> s\<lparr>k_numfreepages := k_numfreepages s + 1,
    k_mem := st32 (fill (k_mem s) v 1 4096) v (km_freelist (k_kmem s)),
    k_kmem := (k_kmem s)\<lparr>km_freelist := v\<rparr>\<rparr>"
  shows "kfree v s = Ret () s'" "pool s' (v # xs)"
proof -
  have av: "lock_avail KmemLk s" using assms(1) by (simp add: pool_def)
  show "kfree v s = Ret () s'" unfolding s'_def by (rule kfree_eq [OF av assms(2)])
  have "ld32 (k_mem s') x = ld32 (k_mem s) x" if "x \<in> set xs" for x
  proof -
    have "page_aligned x" "x \<noteq> v"
      using that assms(1,3) by (auto simp: pool_def intro: page_ok_aligned)
    then show ?thesis
      using ld32_free_other [OF page_ok_aligned [OF assms(2)]] by (simp add: s'_def)
  qed
  then have "chain (k_mem s') p xs = chain (k_mem s) p xs" for p by (rule chain_cong)
  then show "pool s' (v # xs)"
    using assms(1-3) page_ok_nonzero [OF assms(2)] by (auto simp: pool_def s'_def page_ok_def)
qed

text \<open>
  The interface the clients of the allocator use (process creation, pipes, page tables):
  the pool is a stack of distinct, usable, non-null pages.
\<close>

locale page_pool =
  fixes alloc :: "('s, uint) comp"
    and free :: "uint \<Rightarrow> ('s, unit) comp"
    and pages :: "'s \<Rightarrow> uint list \<Rightarrow> bool"
    and usable :: "'s \<Rightarrow> uint \<Rightarrow> bool"
  assumes alloc_empty: "pages s [] \<Longrightarrow> \<exists>s'. alloc s = Ret 0 s' \<and> pages s' []"
    and alloc_page: "pages s (x # xs) \<Longrightarrow>
      \<exists>s'. alloc s = Ret x s' \<and> pages s' xs \<and> usable s' = usable s"
    and free_page: "pages s xs \<Longrightarrow> usable s v \<Longrightarrow> v \<notin> set xs \<Longrightarrow>
      \<exists>s'. free v s = Ret () s' \<and> pages s' (v # xs) \<and> usable s' = usable s"
    and pages_distinct: "pages s xs \<Longrightarrow> distinct xs"
    and pages_usable: "pages s xs \<Longrightarrow> x \<in> set xs \<Longrightarrow> x \<noteq> 0 \<and> usable s x"
begin

text \<open>A page that was allocated and freed is the next one allocated.\<close>

lemma alloc_free_alloc:
  assumes "pages s (x # xs)"
  shows "wp (bnd alloc (\<lambda>p. andthen (free p) alloc)) (\<lambda>q t. q = x \<and> pages t xs) s"
proof -
  obtain s1 where s1: "alloc s = Ret x s1" "pages s1 xs" "usable s1 = usable s"
    using alloc_page [OF assms] by blast
  have "x \<notin> set xs" "usable s1 x"
    using pages_distinct [OF assms] pages_usable [OF assms, of x] s1 by auto
  then obtain s2 where s2: "free x s1 = Ret () s2" "pages s2 (x # xs)"
    using free_page [OF s1(2)] by blast
  obtain s3 where "alloc s2 = Ret x s3" "pages s3 xs" using alloc_page [OF s2(2)] by blast
  then show ?thesis using s1 s2 by (intro wpI) auto
qed

text \<open>Two pages that are out at the same time differ, and neither is null.\<close>

lemma alloc_two_distinct:
  assumes "pages s (x # y # xs)"
  shows "wp (bnd alloc (\<lambda>p. bnd alloc (\<lambda>q. ret (p, q))))
     (\<lambda>(p, q) t. p \<noteq> q \<and> p \<noteq> 0 \<and> q \<noteq> 0 \<and> pages t xs) s"
proof -
  obtain s1 where s1: "alloc s = Ret x s1" "pages s1 (y # xs)"
    using alloc_page [OF assms] by blast
  obtain s2 where s2: "alloc s1 = Ret y s2" "pages s2 xs" using alloc_page [OF s1(2)] by blast
  have "x \<noteq> y" "x \<noteq> 0" "y \<noteq> 0"
    using pages_distinct [OF assms] pages_usable [OF assms] by auto
  then show ?thesis using s1 s2 by (intro wpI [where a = "(x, y)" and s' = s2]) auto
qed

end

interpretation kpool: page_pool kalloc kfree pool page_ok
proof
  fix s x xs v
  show "\<exists>s'. kalloc s = Ret 0 s' \<and> pool s' []" if "pool s []"
    using pool_kalloc_Nil [OF that] by blast
  show "\<exists>s'. kalloc s = Ret x s' \<and> pool s' xs \<and> page_ok s' = page_ok s" if "pool s (x # xs)"
    using pool_kalloc_Cons [OF that] by (auto simp: page_ok_def fun_eq_iff)
  show "\<exists>s'. kfree v s = Ret () s' \<and> pool s' (v # xs) \<and> page_ok s' = page_ok s"
    if "pool s xs" "page_ok s v" "v \<notin> set xs"
    using pool_kfree [OF that] by (auto simp: page_ok_def fun_eq_iff)
  show "distinct xs" if "pool s xs" using that by (simp add: pool_def)
  show "x \<noteq> 0 \<and> page_ok s x" if "pool s xs" "x \<in> set xs"
    using that page_ok_nonzero by (auto simp: pool_def)
qed

section \<open>Initialisation\<close>

primrec page_run :: "uint \<Rightarrow> nat \<Rightarrow> uint list" where
  "page_run p 0 = []"
| page_run_Suc: "page_run p (Suc n) = p # page_run (p + PGSIZE) n"

lemma freerange_loop_step:
  assumes "p + PGSIZE \<le> vend" "kfree p s = Ret u s'"
  shows "freerange_loop p vend s = freerange_loop (p + PGSIZE) vend s'"
  using assms by (subst freerange_loop.simps) simp

lemma freerange_loop_pool:
  assumes "pool s xs" "\<forall>q\<in>set (page_run p n). page_ok s q" "set (page_run p n) \<inter> set xs = {}"
    and "distinct (page_run p n)"
    and "unat p + n * 4096 \<le> unat vend" "unat vend < unat p + Suc n * 4096"
    and "unat p + Suc n * 4096 < 2 ^ 32"
  shows "\<exists>s'. freerange_loop p vend s = Ret () s' \<and> pool s' (rev (page_run p n) @ xs)
    \<and> k_numfreepages s' = k_numfreepages s + int n
    \<and> km_use_lock (k_kmem s') = km_use_lock (k_kmem s)"
  using assms
proof (induction n arbitrary: p s xs)
  case 0
  then show ?case
    by (auto simp: freerange_loop.simps word_le_nat_alt PGSIZE_def unat_word_ariths)
next
  case (Suc n)
  have up: "unat (p + PGSIZE) = unat p + 4096"
    using Suc.prems(7) by (simp add: PGSIZE_def unat_word_ariths)
  have ok: "page_ok s p" "p \<notin> set xs" using Suc.prems(2,3) by (auto simp: page_run_Suc)
  obtain s1 where s1: "kfree p s = Ret () s1" "pool s1 (p # xs)"
      "k_numfreepages s1 = k_numfreepages s + 1" "k_end s1 = k_end s"
      "km_use_lock (k_kmem s1) = km_use_lock (k_kmem s)"
    using pool_kfree [OF Suc.prems(1) ok] by auto
  have "page_ok s1 = page_ok s" using s1(4) by (simp add: page_ok_def fun_eq_iff)
  then have "\<exists>s'. freerange_loop (p + PGSIZE) vend s1 = Ret () s'
      \<and> pool s' (rev (page_run (p + PGSIZE) n) @ p # xs)
      \<and> k_numfreepages s' = k_numfreepages s1 + int n
      \<and> km_use_lock (k_kmem s') = km_use_lock (k_kmem s1)"
    using Suc.prems s1 up by (intro Suc.IH) (auto simp: page_run_Suc)
  moreover have "p + PGSIZE \<le> vend" using Suc.prems(5) up by (simp add: word_le_nat_alt)
  ultimately show ?case
    using s1 by (auto simp: freerange_loop_step page_run_Suc)
qed

lemma page_run_unat:
  "q \<in> set (page_run p n) \<Longrightarrow> unat p + n * 4096 < 2 ^ 32 \<Longrightarrow> \<exists>i<n. unat q = unat p + i * 4096"
proof (induction n arbitrary: p)
  case 0
  then show ?case by simp
next
  case (Suc n)
  have up: "unat (p + PGSIZE) = unat p + 4096"
    using Suc.prems(2) by (simp add: PGSIZE_def unat_word_ariths)
  show ?case
  proof (cases "q = p")
    case True
    then show ?thesis by auto
  next
    case False
    then obtain i where "i < n" "unat q = unat p + 4096 + i * 4096"
      using Suc.IH [of "p + PGSIZE"] Suc.prems up by auto
    then show ?thesis by (intro exI [of _ "Suc i"]) simp
  qed
qed

lemma page_run_distinct: "unat p + n * 4096 < 2 ^ 32 \<Longrightarrow> distinct (page_run p n)"
proof (induction n arbitrary: p)
  case 0
  then show ?case by simp
next
  case (Suc n)
  have up: "unat (p + PGSIZE) = unat p + 4096"
    using Suc.prems by (simp add: PGSIZE_def unat_word_ariths)
  then show ?case
    using Suc page_run_unat [of p "p + PGSIZE" n] by auto
qed

lemma page_run_ok:
  assumes "q \<in> set (page_run p n)" "page_aligned p" "k_end s \<le> p" "KERNBASE \<le> p"
    and "unat p + n * 4096 \<le> unat KERNBASE + unat PHYSTOP"
  shows "page_ok s q"
proof -
  have b: "unat p + n * 4096 < 2 ^ 32" using assms(5) by (simp add: KERNBASE_def PHYSTOP_def)
  obtain i where i: "i < n" "unat q = unat p + i * 4096"
    using page_run_unat [OF assms(1) b] by blast
  have "unat q mod 4096 = 0" using i assms(2) by (simp add: page_aligned_unat)
  then have "q mod PGSIZE = 0" using page_aligned_unat by (simp add: page_aligned_def)
  moreover have "k_end s \<le> q" using assms(3) i by (simp add: word_le_nat_alt)
  moreover have "v2p q < PHYSTOP"
  proof -
    have "KERNBASE \<le> q" using assms(4) i by (simp add: word_le_nat_alt)
    then have "unat (v2p q) = unat q - unat KERNBASE" by (simp add: v2p_def unat_sub)
    moreover have "unat q < unat KERNBASE + unat PHYSTOP"
      using assms(5) i mult_strict_right_mono [OF i(1), of 4096] by linarith
    ultimately show ?thesis
      using \<open>KERNBASE \<le> q\<close> by (simp add: word_less_nat_alt word_le_nat_alt)
  qed
  ultimately show ?thesis by (simp add: page_ok_def)
qed

section \<open>Properties\<close>

text \<open>
  C18: \<^verbatim>\<open>kalloc\<close> and \<^verbatim>\<open>kfree\<close> implement a stack of pages: a freed page is at once the
  next page allocated, allocation from an empty pool gives the null pointer, and freeing
  a page changes no byte outside it, so pages in use keep their contents.
\<close>

theorem kalloc_kfree_stack:
  assumes "pool s xs" "page_ok s v" "v \<notin> set xs"
  shows "\<exists>s1. kfree v s = Ret () s1 \<and> pool s1 (v # xs)
     \<and> (\<forall>x. \<not> in_page v x \<longrightarrow> k_mem s1 x = k_mem s x)
     \<and> (\<exists>s2. kalloc s1 = Ret v s2 \<and> pool s2 xs \<and> k_mem s2 = k_mem s1
          \<and> k_numfreepages s2 = k_numfreepages s)
     \<and> (xs = [] \<longrightarrow> (\<exists>s3. kalloc s = Ret 0 s3 \<and> pool s3 []))"
proof -
  let ?s1 = "s\<lparr>k_numfreepages := k_numfreepages s + 1,
    k_mem := st32 (fill (k_mem s) v 1 4096) v (km_freelist (k_kmem s)),
    k_kmem := (k_kmem s)\<lparr>km_freelist := v\<rparr>\<rparr>"
  have f: "kfree v s = Ret () ?s1" "pool ?s1 (v # xs)" using pool_kfree [OF assms] by auto
  note a = pool_kalloc_Cons [OF f(2)]
  show ?thesis
    using f a free_mem_elsewhere [OF page_ok_aligned [OF assms(2)]] assms(1) kpool.alloc_empty
    by (intro exI [of _ ?s1]) auto
qed

text \<open>
  C19: \<^verbatim>\<open>freerange\<close> (so \<^verbatim>\<open>kinit1\<close> and \<^verbatim>\<open>kinit2\<close>) puts exactly the whole pages between
  \<open>vstart\<close> and \<open>vend\<close> on the free list, and \<^verbatim>\<open>numfreepages\<close> grows by their number.
\<close>

theorem freerange_pool:
  assumes "pool s xs" "\<forall>x\<in>set xs. unat x < unat vstart"
    and "KERNBASE \<le> vstart" "k_end s \<le> vstart" "vstart \<le> vend"
    and "unat (PGROUNDUP vstart) \<le> unat vend" "unat vend \<le> unat KERNBASE + unat PHYSTOP"
  shows "\<exists>s'. freerange vstart vend s = Ret () s'
    \<and> pool s' (rev (page_run (PGROUNDUP vstart)
         ((unat vend - unat (PGROUNDUP vstart)) div 4096)) @ xs)
    \<and> k_numfreepages s' = k_numfreepages s + int ((unat vend - unat (PGROUNDUP vstart)) div 4096)"
proof -
  let ?p = "PGROUNDUP vstart" and ?n = "(unat vend - unat (PGROUNDUP vstart)) div 4096"
  have lim: "unat vend \<le> 2382364672"
    using assms(7) by (simp add: KERNBASE_def PHYSTOP_def)
  then have up: "unat ?p = (unat vstart + 4095) div 4096 * 4096"
    using assms(5) by (intro unat_PGROUNDUP) (simp add: word_le_nat_alt)
  then have al: "page_aligned ?p" by (simp add: page_aligned_unat)
  have le: "unat vstart \<le> unat ?p"
    using up div_mult_mod_eq [of "unat vstart + 4095" 4096]
      mod_less_divisor [of 4096 "unat vstart + 4095"] by linarith
  have n: "?n * 4096 \<le> unat vend - unat ?p" "unat vend - unat ?p < Suc ?n * 4096"
    using dividend_less_div_times [of 4096 "unat vend - unat ?p"] by auto
  have ok: "page_ok s q" if "q \<in> set (page_run ?p ?n)" for q
    using page_run_ok [OF that al] assms(3,4,6,7) le n by (simp add: word_le_nat_alt)
  have "\<exists>i<?n. unat q = unat ?p + i * 4096" if "q \<in> set (page_run ?p ?n)" for q
    using page_run_unat [OF that] lim n assms(6) by simp
  then have "unat vstart \<le> unat q" if "q \<in> set (page_run ?p ?n)" for q
    using that le by fastforce
  then have "set (page_run ?p ?n) \<inter> set xs = {}" using assms(2) by fastforce
  moreover have "distinct (page_run ?p ?n)"
    using lim n assms(6) by (intro page_run_distinct) simp
  moreover have a: "unat ?p + ?n * 4096 \<le> unat vend" "unat vend < unat ?p + Suc ?n * 4096"
    using n assms(6) by linarith+
  moreover have "unat ?p + Suc ?n * 4096 < 2 ^ 32"
    using a(1) lim by simp
  ultimately show ?thesis
    using freerange_loop_pool [of s xs ?p ?n vend] assms(1) ok
    unfolding freerange_def by blast
qed

text \<open>
  C27: \<^verbatim>\<open>numfreepages\<close> is decremented by a \<^verbatim>\<open>kalloc\<close> that finds no page, so after a failed
  allocation the counter no longer is the length of the free list.
\<close>

theorem kalloc_failure_miscounts:
  assumes "pool s []" "k_numfreepages s = 0"
  shows "\<exists>s'. kalloc s = Ret 0 s' \<and> pool s' [] \<and> freemem s' = Ret (- 1) s'"
  using assms pool_kalloc_Nil [OF assms(1)] by (simp add: freemem_def)

lemma pool_boot: "pool boot []"
  by (simp add: pool_def boot_def lock_avail_def cpu_ok_def lock_free_def)

theorem kalloc_kfree_stack_witness:
  "\<exists>s1 s2. kfree 0x80400000 boot = Ret () s1 \<and> kalloc s1 = Ret 0x80400000 s2 \<and> pool s2 []"
proof -
  have "page_ok boot 0x80400000"
    by (simp add: page_ok_def boot_def v2p_def layout_defs)
  then show ?thesis
    using kalloc_kfree_stack [OF pool_boot, of "0x80400000"] by auto
qed

theorem freerange_pool_witness:
  "\<exists>s'. freerange 0x803FF123 0x80403000 boot = Ret () s'
     \<and> pool s' [0x80402000, 0x80401000, 0x80400000] \<and> k_numfreepages s' = 3"
proof -
  have r: "PGROUNDUP 0x803FF123 = 0x80400000" by (simp add: PGROUNDUP_def PGSIZE_def)
  have p: "page_run 0x80400000 3 = [0x80400000, 0x80401000, 0x80402000]"
    by (simp add: numeral_3_eq_3 PGSIZE_def)
  have "k_end boot \<le> 0x803FF123" "k_numfreepages boot = 0" by (simp_all add: boot_def)
  then show ?thesis
    using freerange_pool [OF pool_boot, of "0x803FF123" "0x80403000"]
    by (simp add: r p layout_defs)
qed

theorem kalloc_failure_miscounts_witness:
  "\<exists>s'. kalloc boot = Ret 0 s' \<and> freemem s' = Ret (- 1) s'"
  using kalloc_failure_miscounts [OF pool_boot] by (auto simp: boot_def)

end
