(* ===== verification/Vm.thy ===== *)
theory Vm
  imports Kalloc
begin

text \<open>
  Virtual memory (\<^verbatim>\<open>vm.c\<close>): the two-level page tables, read and written in byte-addressed
  memory, and what the memory-management unit does with them.
  \<^verbatim>\<open>loaduvm\<close>, which reads from an inode, is with \<^verbatim>\<open>exec\<close>.
\<close>

section \<open>Operations\<close>

definition NPDENTRIES :: nat where "NPDENTRIES = 1024"
definition NPTENTRIES :: uint where "NPTENTRIES = 1024"

text \<open>Reading and writing a page-table entry, a 32-bit word.\<close>

abbreviation rd32 :: "uint \<Rightarrow> uint kern" where
  "rd32 a \<equiv> gets (\<lambda>s. ld32 (k_mem s) a)"

abbreviation wr32 :: "uint \<Rightarrow> uint \<Rightarrow> unit kern" where
  "wr32 a v \<equiv> modify (\<lambda>s. s\<lparr>k_mem := st32 (k_mem s) a v\<rparr>)"

abbreviation zero_page :: "uint \<Rightarrow> unit kern" where
  "zero_page a \<equiv> modify (\<lambda>s. s\<lparr>k_mem := memset (k_mem s) a 0 PGSIZE\<rparr>)"

text \<open>\<^verbatim>\<open>walkpgdir\<close>: the address of the entry for \<open>va\<close>, or 0.\<close>

definition walkpgdir :: "uint \<Rightarrow> uint \<Rightarrow> bool \<Rightarrow> uint kern" where
  "walkpgdir pgdir va alloc =
     (let pde = pgdir + 4 * PDX va in
      bnd (rd32 pde) (\<lambda>e.
      if e AND PTE_P \<noteq> 0 then ret (p2v (PTE_ADDR e) + 4 * PTX va)
      else if \<not> alloc then ret 0
      else bnd kalloc (\<lambda>pgtab.
        if pgtab = 0 then ret 0
        else andthen (zero_page pgtab)
          (andthen (wr32 pde (v2p pgtab OR PTE_P OR PTE_W OR PTE_U))
          (ret (pgtab + 4 * PTX va))))))"

text \<open>The address space has \<open>2 ^ 20\<close> pages, so no loop over pages makes more rounds.\<close>

definition NPAGES :: nat where "NPAGES = 2 ^ 20"

definition mappages :: "uint \<Rightarrow> uint \<Rightarrow> uint \<Rightarrow> uint \<Rightarrow> uint \<Rightarrow> int kern" where
  "mappages pgdir va sz pa perm =
     (let last = PGROUNDDOWN (va + sz - 1) in
      loop (Suc NPAGES) (\<lambda>(a, pa).
        bnd (walkpgdir pgdir a True) (\<lambda>pte.
        if pte = 0 then ret (Inr (-1))
        else bnd (rd32 pte) (\<lambda>e.
          if e \<noteq> 0 then panic ''*pte is 0''
          else if e AND PTE_P \<noteq> 0 then panic ''remap''
          else andthen (wr32 pte (pa OR perm OR PTE_P))
            (if a = last then ret (Inr 0) else ret (Inl (a + PGSIZE, pa + PGSIZE))))))
      (PGROUNDDOWN va, pa))"

text \<open>The table \<^verbatim>\<open>kmap\<close>: virtual address, physical start and end, permissions.\<close>

definition kmap :: "kernel \<Rightarrow> (uint \<times> uint \<times> uint \<times> uint) list" where
  "kmap s =
    [(KERNBASE, 0, EXTMEM, PTE_W),
     (KERNLINK, v2p KERNLINK, v2p (k_data s), 0),
     (k_data s, v2p (k_data s), PHYSTOP, PTE_W),
     (DEVSPACE, DEVSPACE, 0, PTE_W)]"

text \<open>The loop over \<^verbatim>\<open>kmap\<close>: it stops at the first entry that cannot be mapped.\<close>

fun map_kmap :: "uint \<Rightarrow> (uint \<times> uint \<times> uint \<times> uint) list \<Rightarrow> uint kern" where
  "map_kmap pgdir [] = ret pgdir"
| "map_kmap pgdir ((virt, ps, pe, perm) # ks) =
     bnd (mappages pgdir virt (pe - ps) ps perm) (\<lambda>r.
       if r < 0 then ret 0 else map_kmap pgdir ks)"

definition setupkvm :: "uint kern" where
  "setupkvm = bnd kalloc (\<lambda>pgdir.
     if pgdir = 0 then ret 0
     else andthen (zero_page pgdir)
       (if p2v PHYSTOP > DEVSPACE then panic ''PHYSTOP too high''
        else bnd (gets kmap) (map_kmap pgdir)))"

definition inituvm :: "uint \<Rightarrow> uchar list \<Rightarrow> unit kern" where
  "inituvm pgdir init =
     (if PGSIZE \<le> of_nat (length init) then panic ''inituvm: more than a page''
      else bnd kalloc (\<lambda>mem.
        andthen (zero_page mem)
        (andthen (mappages pgdir 0 PGSIZE (v2p mem) (PTE_W OR PTE_U))
        (modify (\<lambda>s. s\<lparr>k_mem := (\<lambda>x. if unat (x - mem) < length init
            then init ! unat (x - mem) else k_mem s x)\<rparr>)))))"

definition deallocuvm :: "uint \<Rightarrow> uint \<Rightarrow> uint \<Rightarrow> uint kern" where
  "deallocuvm pgdir oldsz newsz =
     (if newsz \<ge> oldsz then ret oldsz
      else loop (Suc NPAGES) (\<lambda>a.
        if \<not> a < oldsz then ret (Inr newsz)
        else bnd (walkpgdir pgdir a False) (\<lambda>pte.
          if pte = 0 then ret (Inl (a + (NPTENTRIES - 1) * PGSIZE + PGSIZE))
          else bnd (rd32 pte) (\<lambda>e.
            if e AND PTE_P \<noteq> 0 then
              let pa = PTE_ADDR e in
              if pa = 0 then panic ''kfree''
              else andthen (kfree (p2v pa)) (andthen (wr32 pte 0) (ret (Inl (a + PGSIZE))))
            else ret (Inl (a + PGSIZE)))))
      (PGROUNDUP newsz))"

text \<open>A round of the loop of \<^verbatim>\<open>allocuvm\<close>; its message when memory runs out is left out.\<close>

definition allocuvm_body :: "uint \<Rightarrow> uint \<Rightarrow> uint \<Rightarrow> uint \<Rightarrow> (uint + uint) kern" where
  "allocuvm_body pgdir oldsz newsz a =
     (if \<not> a < newsz then ret (Inr newsz)
      else bnd kalloc (\<lambda>mem.
        if mem = 0 then andthen (deallocuvm pgdir newsz oldsz) (ret (Inr 0))
        else andthen (zero_page mem)
          (andthen (mappages pgdir a PGSIZE (v2p mem) (PTE_W OR PTE_U))
          (ret (Inl (a + PGSIZE))))))"

definition allocuvm :: "uint \<Rightarrow> uint \<Rightarrow> uint \<Rightarrow> uint kern" where
  "allocuvm pgdir oldsz newsz =
     (if newsz \<ge> KERNBASE then ret 0
      else if newsz < oldsz then ret oldsz
      else loop (Suc NPAGES) (allocuvm_body pgdir oldsz newsz) (PGROUNDUP oldsz))"

definition freevm :: "uint \<Rightarrow> unit kern" where
  "freevm pgdir =
     (if pgdir = 0 then panic ''freevm: no pgdir''
      else andthen (deallocuvm pgdir KERNBASE 0)
        (andthen (for_each [0..<NPDENTRIES] (\<lambda>i.
            bnd (rd32 (pgdir + 4 * of_nat i)) (\<lambda>e.
              if e AND PTE_P \<noteq> 0 then kfree (p2v (PTE_ADDR e)) else ret ())))
        (kfree pgdir)))"

definition clearpteu :: "uint \<Rightarrow> uint \<Rightarrow> unit kern" where
  "clearpteu pgdir uva = bnd (walkpgdir pgdir uva False) (\<lambda>pte.
     if pte = 0 then panic ''clearpteu''
     else bnd (rd32 pte) (\<lambda>e. wr32 pte (e AND NOT PTE_U)))"

definition copyuvm :: "uint \<Rightarrow> uint \<Rightarrow> uint kern" where
  "copyuvm pgdir sz = bnd setupkvm (\<lambda>d.
     if d = 0 then ret 0
     else loop (Suc NPAGES) (\<lambda>i.
       if \<not> i < sz then ret (Inr d)
       else bnd (walkpgdir pgdir i False) (\<lambda>pte.
         if pte = 0 then panic ''copyuvm: pte should exist''
         else bnd (rd32 pte) (\<lambda>e.
           if e AND PTE_P = 0 then panic ''copyuvm: page not present''
           else bnd kalloc (\<lambda>mem.
             if mem = 0 then andthen (freevm d) (ret (Inr 0))
             else andthen (modify (\<lambda>s. s\<lparr>k_mem := memmove (k_mem s) mem (p2v (PTE_ADDR e)) PGSIZE\<rparr>))
               (bnd (mappages d i PGSIZE (v2p mem) (PTE_FLAGS e)) (\<lambda>r.
                if r < 0 then andthen (freevm d) (ret (Inr 0))
                else ret (Inl (i + PGSIZE))))))))
     0)"

text \<open>\<^verbatim>\<open>uva2ka\<close> reads the entry without testing the pointer: a null pointer faults.\<close>

definition uva2ka :: "uint \<Rightarrow> uint \<Rightarrow> uint kern" where
  "uva2ka pgdir uva = bnd (walkpgdir pgdir uva False) (\<lambda>pte.
     if pte = 0 then panic ''trap''
     else bnd (rd32 pte) (\<lambda>e.
       if e AND PTE_P = 0 then ret 0
       else if e AND PTE_U = 0 then ret 0
       else ret (p2v (PTE_ADDR e))))"

text \<open>The buffer \<^verbatim>\<open>copyout\<close> copies from is the list of its bytes.\<close>

definition put_bytes :: "memory \<Rightarrow> uint \<Rightarrow> uchar list \<Rightarrow> memory" where
  "put_bytes m a bs = (\<lambda>x. if unat (x - a) < length bs then bs ! unat (x - a) else m x)"

definition copyout :: "uint \<Rightarrow> uint \<Rightarrow> uchar list \<Rightarrow> int kern" where
  "copyout pgdir va buf =
     loop (Suc NPAGES) (\<lambda>(va, buf).
       if buf = [] then ret (Inr 0)
       else let va0 = PGROUNDDOWN va in
         bnd (uva2ka pgdir va0) (\<lambda>pa0.
         if pa0 = 0 then ret (Inr (-1))
         else let n = min (unat (PGSIZE - (va - va0))) (length buf) in
           andthen (modify (\<lambda>s. s\<lparr>k_mem := put_bytes (k_mem s) (pa0 + (va - va0)) (take n buf)\<rparr>))
           (ret (Inl (va0 + PGSIZE, drop n buf)))))
     (va, buf)"

definition KSTACKSIZE :: uint where "KSTACKSIZE = 4096"

definition switchkvm :: "unit kern" where
  "switchkvm = modify (\<lambda>s. s\<lparr>k_cpu := (k_cpu s)\<lparr>c_cr3 := v2p (k_kpgdir s)\<rparr>\<rparr>)"

text \<open>
  \<^verbatim>\<open>switchuvm\<close> (\<^verbatim>\<open>vm.c\<close>): the task state's stack pointer and the page-table register; the
  segment descriptor it writes is the same every time.
\<close>

definition switchuvm :: "nat \<Rightarrow> unit kern" where
  "switchuvm j = andthen pushcli (bnd curproc (\<lambda>i.
     andthen (modify (\<lambda>s. s\<lparr>k_cpu := (k_cpu s)\<lparr>c_esp0 := p_kstack (k_procs s ! i) + KSTACKSIZE\<rparr>\<rparr>))
     (bnd (gets (\<lambda>s. p_pgdir (k_procs s ! j))) (\<lambda>d.
      if d = 0 then panic ''switchuvm: no pgdir''
      else andthen (modify (\<lambda>s. s\<lparr>k_cpu := (k_cpu s)\<lparr>c_cr3 := v2p d\<rparr>\<rparr>)) popcli))))"

definition kvmalloc :: "unit kern" where
  "kvmalloc = bnd setupkvm (\<lambda>d. andthen (modify (\<lambda>s. s\<lparr>k_kpgdir := d\<rparr>)) switchkvm)"

section \<open>The memory-management unit\<close>

text \<open>
  What an access by kernel code to virtual address \<open>va\<close> reaches: kernel addresses are
  mapped directly; a user address goes through the page table in \<open>cr3\<close>. Writes need the
  write bit, since the kernel runs with CR0_WP set (\<^verbatim>\<open>entry.S\<close>). Where the translation fails, the
  CPU faults and \<^verbatim>\<open>trap\<close> panics.
\<close>

definition translate :: "kernel \<Rightarrow> bool \<Rightarrow> uint \<Rightarrow> uint option" where
  "translate s wr va =
     (if va \<ge> KERNBASE then Some va
      else let e = ld32 (k_mem s) (p2v (c_cr3 (k_cpu s)) + 4 * PDX va) in
        if e AND PTE_P = 0 \<or> (wr \<and> e AND PTE_W = 0) then None
        else let e' = ld32 (k_mem s) (p2v (PTE_ADDR e) + 4 * PTX va) in
          if e' AND PTE_P = 0 \<or> (wr \<and> e' AND PTE_W = 0) then None
          else Some (p2v (PTE_ADDR e') + (va AND 0xFFF)))"

definition load8 :: "uint \<Rightarrow> uchar kern" where
  "load8 va s = (case translate s False va of None \<Rightarrow> Panic ''trap'' | Some a \<Rightarrow> Ret (k_mem s a) s)"

definition store8 :: "uint \<Rightarrow> uchar \<Rightarrow> unit kern" where
  "store8 va v s = (case translate s True va of None \<Rightarrow> Panic ''trap''
     | Some a \<Rightarrow> Ret () (s\<lparr>k_mem := (k_mem s)(a := v)\<rparr>))"

fun load_bytes :: "uint \<Rightarrow> nat \<Rightarrow> uchar list kern" where
  "load_bytes va 0 = ret []"
| "load_bytes va (Suc n) = bnd (load8 va) (\<lambda>b. bnd (load_bytes (va + 1) n) (\<lambda>bs. ret (b # bs)))"

fun store_bytes :: "uint \<Rightarrow> uchar list \<Rightarrow> unit kern" where
  "store_bytes va [] = ret ()"
| "store_bytes va (b # bs) = andthen (store8 va b) (store_bytes (va + 1) bs)"

definition load32 :: "uint \<Rightarrow> uint kern" where
  "load32 va = bnd (load_bytes va 4) (\<lambda>bs. ret (ucast (bs ! 0) OR push_bit 8 (ucast (bs ! 1))
     OR push_bit 16 (ucast (bs ! 2)) OR push_bit 24 (ucast (bs ! 3))))"

definition store32 :: "uint \<Rightarrow> uint \<Rightarrow> unit kern" where
  "store32 va v = store_bytes va [ucast v, ucast (drop_bit 8 v), ucast (drop_bit 16 v),
     ucast (drop_bit 24 v)]"

section \<open>Entries of a table page\<close>

lemma entry_unat:
  assumes "page_aligned p" "i < 1024"
  shows "unat (p + 4 * i) = unat p + 4 * unat i"
proof -
  have i: "unat i < 1024" using assms(2) by (simp add: word_less_nat_alt)
  obtain k where k: "unat p = 4096 * k" using assms(1) by (auto simp: page_aligned_unat)
  then have "k < 2 ^ 20" using unat_bound [of p] by simp
  then have "unat p \<le> 2 ^ 32 - 4096" using k by simp
  then show ?thesis using i by (simp add: unat_word_ariths)
qed

lemma entry_aligned4: "page_aligned p \<Longrightarrow> i < 1024 \<Longrightarrow> aligned4 (p + 4 * i)"
  using page_aligned_aligned4 [of p] by (simp add: aligned4_def entry_unat)

lemma entry_div:
  assumes "page_aligned p" "i < 1024"
  shows "unat (p + 4 * i) div 4096 = unat p div 4096"
proof -
  have "unat i < 1024" using assms(2) by (simp add: word_less_nat_alt)
  moreover obtain k where "unat p = 4096 * k" using assms(1) by (auto simp: page_aligned_unat)
  ultimately show ?thesis by (simp add: entry_unat [OF assms])
qed

lemma entry_inj:
  assumes "page_aligned p" "page_aligned q" "i < 1024" "j < 1024"
  shows "p + 4 * i = q + 4 * j \<longleftrightarrow> p = q \<and> i = j"
proof
  assume eq: "p + 4 * i = q + 4 * j"
  then have "unat p div 4096 = unat q div 4096"
    using entry_div [OF assms(1,3)] entry_div [OF assms(2,4)] by simp
  moreover have "unat p mod 4096 = unat q mod 4096"
    using assms(1,2) by (simp add: page_aligned_unat)
  ultimately have "unat p = unat q" by (metis div_mult_mod_eq)
  moreover have "unat p + 4 * unat i = unat q + 4 * unat j"
    using entry_unat [OF assms(1,3)] entry_unat [OF assms(2,4)] eq by simp
  ultimately show "p = q \<and> i = j" by (simp add: word_unat_eq_iff)
qed simp

lemma entry_bytes_in_page:
  assumes "page_aligned p" "i < 1024" "k < 4"
  shows "in_page p (p + 4 * i + of_nat k)"
proof -
  have "unat i < 1024" using assms(2) by (simp add: word_less_nat_alt)
  then have "unat (4 * i + of_nat k) = 4 * unat i + k"
    using assms(3) by (simp add: unat_word_ariths unat_of_nat)
  then show ?thesis using \<open>unat i < 1024\<close> assms(3) by (simp add: in_page_def add.assoc)
qed

lemma ld32_entry_cong:
  assumes "page_aligned p" "i < 1024" "\<And>x. in_page p x \<Longrightarrow> m x = m' x"
  shows "ld32 m (p + 4 * i) = ld32 m' (p + 4 * i)"
  using entry_bytes_in_page [OF assms(1,2), of 0] entry_bytes_in_page [OF assms(1,2), of 1]
    entry_bytes_in_page [OF assms(1,2), of 2] entry_bytes_in_page [OF assms(1,2), of 3]
  by (intro ld32_cong assms(3)) simp_all

lemma st32_entry_elsewhere:
  assumes "page_aligned p" "i < 1024" "\<not> in_page p x"
  shows "st32 m (p + 4 * i) v x = m x"
  using entry_bytes_in_page [OF assms(1,2), of 0] entry_bytes_in_page [OF assms(1,2), of 1]
    entry_bytes_in_page [OF assms(1,2), of 2] entry_bytes_in_page [OF assms(1,2), of 3] assms(3)
  by (intro st32_elsewhere) auto

lemma ld32_st32_entry:
  assumes "page_aligned p" "page_aligned q" "i < 1024" "j < 1024"
  shows "ld32 (st32 m (p + 4 * i) v) (q + 4 * j) =
    (if p = q \<and> i = j then v else ld32 m (q + 4 * j))"
  using entry_inj [OF assms] ld32_st32_other entry_aligned4 assms by auto

lemma ld32_fill_other:
  assumes "page_aligned p" "page_aligned q" "p \<noteq> q" "j < 1024"
  shows "ld32 (fill m p c 4096) (q + 4 * j) = ld32 m (q + 4 * j)"
proof (rule ld32_entry_cong [OF assms(2,4)])
  fix x assume "in_page q x"
  then have "\<not> in_page p x" using in_page_disjoint [OF assms(1,2,3)] by simp
  then show "fill m p c 4096 x = m x" by (simp add: fill_def in_page_def)
qed

lemma ld32_fill_same:
  assumes "page_aligned p" "j < 1024"
  shows "ld32 (fill m p 0 4096) (p + 4 * j) = 0"
proof -
  have "ld32 (fill m p 0 4096) (p + 4 * j) = ld32 (\<lambda>_. 0) (p + 4 * j)"
    by (rule ld32_entry_cong [OF assms]) (simp add: fill_def in_page_def)
  then show ?thesis by (simp add: ld32_def)
qed

lemma PDX_less [simp]: "PDX va < 1024"
proof -
  have "PDX va = take_bit 10 (drop_bit 22 va)"
    by (simp add: PDX_def take_bit_eq_mask mask_eq_exp_minus_1)
  then show ?thesis by (simp add: take_bit_eq_mod word_less_nat_alt unat_mod_distrib)
qed

lemma PTX_less [simp]: "PTX va < 1024"
proof -
  have "PTX va = take_bit 10 (drop_bit 12 va)"
    by (simp add: PTX_def take_bit_eq_mask mask_eq_exp_minus_1)
  then show ?thesis by (simp add: take_bit_eq_mod word_less_nat_alt unat_mod_distrib)
qed

text \<open>Frame number and flags of an entry made by \<^verbatim>\<open>pa | perm\<close> come apart again.\<close>

lemma PTE_ADDR_or:
  assumes "page_aligned pa" "f AND 0xFFF = f"
  shows "PTE_ADDR (pa OR f) = pa" "PTE_FLAGS (pa OR f) = f"
proof -
  have m: "(0xFFF :: uint) = mask 12" by (simp add: mask_eq_exp_minus_1)
  have "take_bit 12 pa = 0"
    using assms(1) by (simp add: page_aligned_def PGSIZE_def take_bit_eq_mod)
  then have lo: "pa AND mask 12 = 0" by (simp add: take_bit_eq_mask)
  have "pa = (pa AND mask 12) OR (pa AND NOT (mask 12))"
    by (rule bit_word_eqI) (auto simp: bit_simps)
  then have hi: "pa AND NOT (mask 12) = pa" using lo by simp
  have f: "f AND mask 12 = f" using assms(2) m by simp
  have "(f AND mask 12) AND NOT (mask 12) = 0"
    by (rule bit_word_eqI) (auto simp: bit_simps)
  then have "f AND NOT (mask 12) = 0" using f by simp
  then show "PTE_ADDR (pa OR f) = pa" "PTE_FLAGS (pa OR f) = f"
    using hi lo f unfolding PTE_ADDR_def PTE_FLAGS_def m by (simp_all add: bit.conj_disj_distrib2)
qed

lemma field_eq:
  fixes v w :: uint
  shows "drop_bit k v AND mask n = drop_bit k w AND mask n
    \<longleftrightarrow> (\<forall>i. k \<le> i \<and> i < k + n \<longrightarrow> bit v i = bit w i)"
proof
  assume eq: "drop_bit k v AND mask n = drop_bit k w AND mask n"
  show "\<forall>i. k \<le> i \<and> i < k + n \<longrightarrow> bit v i = bit w i"
  proof (intro allI impI)
    fix i assume i: "k \<le> i \<and> i < k + n"
    show "bit v i = bit w i"
    proof (cases "i < 32")
      case True
      have "bit (drop_bit k v AND mask n) (i - k) = bit (drop_bit k w AND mask n) (i - k)"
        by (simp only: eq)
      then show ?thesis using i True by (auto simp: bit_simps)
    next
      case False
      then show ?thesis using bit_imp_le_length [of v i] bit_imp_le_length [of w i] by auto
    qed
  qed
next
  assume "\<forall>i. k \<le> i \<and> i < k + n \<longrightarrow> bit v i = bit w i"
  then show "drop_bit k v AND mask n = drop_bit k w AND mask n"
    by (intro bit_word_eqI) (auto simp: bit_simps)
qed

lemma same_page: "PDX v = PDX w \<and> PTX v = PTX w \<longleftrightarrow> PGROUNDDOWN v = PGROUNDDOWN w"
proof -
  have m: "(0x3FF :: uint) = mask 10" by (simp add: mask_eq_exp_minus_1)
  have x: "PDX v = PDX w \<longleftrightarrow> (\<forall>i. 22 \<le> i \<and> i < 32 \<longrightarrow> bit v i = bit w i)"
    "PTX v = PTX w \<longleftrightarrow> (\<forall>i. 12 \<le> i \<and> i < 22 \<longrightarrow> bit v i = bit w i)"
    unfolding PDX_def PTX_def m field_eq by simp_all
  have "PGROUNDDOWN v = PGROUNDDOWN w \<longleftrightarrow> drop_bit 12 v AND mask 20 = drop_bit 12 w AND mask 20"
  proof -
    have "drop_bit 12 a AND mask 20 = drop_bit 12 a" for a :: uint
      by (rule bit_word_eqI) (auto simp: bit_simps dest: bit_imp_le_length)
    moreover have "drop_bit 12 (push_bit 12 (drop_bit 12 a)) = drop_bit 12 a" for a :: uint
      by (rule bit_word_eqI) (auto simp: bit_simps dest: bit_imp_le_length)
    ultimately show ?thesis
      unfolding PGROUNDDOWN_def PGSIZE_def using and_not_mask12 [of v] and_not_mask12 [of w]
      by (simp, metis)
  qed
  also have "\<dots> \<longleftrightarrow> (\<forall>i. 12 \<le> i \<and> i < 32 \<longrightarrow> bit v i = bit w i)"
    unfolding field_eq by simp
  also have "\<dots> \<longleftrightarrow> PDX v = PDX w \<and> PTX v = PTX w"
  proof -
    have "12 \<le> i \<and> i < 32 \<longleftrightarrow> 22 \<le> i \<and> i < 32 \<or> 12 \<le> i \<and> i < 22" for i :: nat by auto
    then show ?thesis unfolding x by blast
  qed
  finally show ?thesis ..
qed

section \<open>Address spaces\<close>

definition present :: "uint \<Rightarrow> bool" where
  "present e \<longleftrightarrow> e AND PTE_P \<noteq> 0"

text \<open>The directory entry, the page table it points to, and the entry of an address.\<close>

definition pde :: "memory \<Rightarrow> uint \<Rightarrow> uint \<Rightarrow> uint" where
  "pde m d i = ld32 m (d + 4 * i)"

definition pgtable :: "memory \<Rightarrow> uint \<Rightarrow> uint \<Rightarrow> uint" where
  "pgtable m d i = p2v (PTE_ADDR (pde m d i))"

definition pte :: "memory \<Rightarrow> uint \<Rightarrow> uint \<Rightarrow> uint" where
  "pte m d va = (if present (pde m d (PDX va)) then ld32 m (pgtable m d (PDX va) + 4 * PTX va) else 0)"

definition pt_pages :: "memory \<Rightarrow> uint \<Rightarrow> uint set" where
  "pt_pages m d = insert d (pgtable m d ` {i. i < 1024 \<and> present (pde m d i)})"

text \<open>
  \<open>pt_ok s d xs\<close>: the directory \<open>d\<close> and its page tables are pages of their own, no two
  directory entries share a table, and none of these pages is among the free pages \<open>xs\<close>.
\<close>

definition pt_ok :: "kernel \<Rightarrow> uint \<Rightarrow> uint list \<Rightarrow> bool" where
  "pt_ok s d xs \<longleftrightarrow> page_ok s d \<and> pt_pages (k_mem s) d \<inter> set xs = {}
     \<and> (\<forall>i<1024. present (pde (k_mem s) d i) \<longrightarrow>
          page_ok s (pgtable (k_mem s) d i) \<and> pgtable (k_mem s) d i \<noteq> d)
     \<and> inj_on (pgtable (k_mem s) d) {i. i < 1024 \<and> present (pde (k_mem s) d i)}"

lemma pt_okD:
  assumes "pt_ok s d xs"
  shows "page_aligned d" "d \<notin> set xs"
    and "i < 1024 \<Longrightarrow> present (pde (k_mem s) d i) \<Longrightarrow> page_aligned (pgtable (k_mem s) d i)
      \<and> pgtable (k_mem s) d i \<noteq> d \<and> pgtable (k_mem s) d i \<notin> set xs \<and> pgtable (k_mem s) d i \<noteq> 0"
  using assms by (auto simp: pt_ok_def pt_pages_def page_ok_aligned page_ok_nonzero)

lemma walkpgdir_present:
  "present (pde (k_mem s) d (PDX va)) \<Longrightarrow>
   walkpgdir d va alloc s = Ret (pgtable (k_mem s) d (PDX va) + 4 * PTX va) s"
  by (simp add: walkpgdir_def present_def pde_def pgtable_def Let_def)

lemma walkpgdir_absent:
  "\<not> present (pde (k_mem s) d (PDX va)) \<Longrightarrow> walkpgdir d va False s = Ret 0 s"
  by (simp add: walkpgdir_def present_def pde_def Let_def)

lemma walkpgdir_nomem:
  assumes "\<not> present (pde (k_mem s) d (PDX va))" "pool s []"
  shows "walkpgdir d va True s = Ret 0 (s\<lparr>k_numfreepages := k_numfreepages s - 1\<rparr>)"
  using assms pool_kalloc_Nil(1) [OF assms(2)]
  by (simp add: walkpgdir_def present_def pde_def Let_def)

definition new_pde :: "uint \<Rightarrow> uint" where
  "new_pde x = v2p x OR PTE_P OR PTE_W OR PTE_U"

lemma walkpgdir_alloc:
  assumes "\<not> present (pde (k_mem s) d (PDX va))" "pool s (x # xs)"
  shows "walkpgdir d va True s = Ret (x + 4 * PTX va)
    (s\<lparr>k_numfreepages := k_numfreepages s - 1,
       k_mem := st32 (fill (k_mem s) x 0 4096) (d + 4 * PDX va) (new_pde x),
       k_kmem := (k_kmem s)\<lparr>km_freelist := ld32 (k_mem s) x\<rparr>\<rparr>)"
proof -
  have "x \<noteq> 0" using kpool.pages_usable [OF assms(2), of x] by simp
  then show ?thesis
    using assms pool_kalloc_Cons(1) [OF assms(2)]
    by (simp add: walkpgdir_def present_def pde_def Let_def memset_fill PGSIZE_def new_pde_def)
qed

lemma page_aligned_add:
  assumes "page_aligned x" "page_aligned y"
  shows "page_aligned (x + y)"
proof -
  have "(unat x + unat y) mod 4096 = 0"
    using assms by (simp add: page_aligned_unat mod_add_eq [symmetric])
  then show ?thesis
    by (simp add: page_aligned_unat unat_word_ariths mod_mod_cancel)
qed

lemma page_aligned_v2p: "page_aligned x \<Longrightarrow> page_aligned (v2p x)"
  using page_aligned_add [of x "- KERNBASE"] by (simp add: v2p_def page_aligned_unat KERNBASE_def)

lemma new_pde [simp]:
  assumes "page_aligned x"
  shows "p2v (PTE_ADDR (new_pde x)) = x" "present (new_pde x)"
proof -
  have e: "new_pde x = v2p x OR 7" by (simp add: new_pde_def PTE_P_def PTE_W_def PTE_U_def or.assoc)
  show "p2v (PTE_ADDR (new_pde x)) = x"
    using PTE_ADDR_or(1) [OF page_aligned_v2p [OF assms], of 7] by (simp add: e)
  have "(v2p x OR 7) AND 1 = (v2p x AND 1) OR 1" 
    by (rule bit_word_eqI) (auto simp: bit_simps bit_numeral_rec)
  then show "present (new_pde x)"
    by (simp add: e present_def PTE_P_def)
qed

lemma pool_mem:
  assumes "pool s xs" "\<And>y. y \<in> set xs \<Longrightarrow> ld32 m' y = ld32 (k_mem s) y"
  shows "pool (s\<lparr>k_mem := m'\<rparr>) xs"
  using assms chain_cong [of xs m' "k_mem s"] by (simp add: pool_def)

text \<open>Installing a fresh, zeroed page table changes no translation.\<close>

definition with_table :: "memory \<Rightarrow> uint \<Rightarrow> uint \<Rightarrow> uint \<Rightarrow> memory" where
  "with_table m d i x = st32 (fill m x 0 4096) (d + 4 * i) (new_pde x)"

lemma ld32_with_table:
  assumes "page_aligned d" "page_aligned x" "x \<noteq> d" "i < 1024" "page_aligned q" "j < 1024"
  shows "ld32 (with_table m d i x) (q + 4 * j) =
    (if q = d \<and> j = i then new_pde x else if q = x then 0 else ld32 m (q + 4 * j))"
  using assms by (auto simp: with_table_def ld32_st32_entry ld32_fill_same ld32_fill_other)

lemma with_table_elsewhere:
  assumes "page_aligned d" "page_aligned x" "i < 1024" "\<not> in_page d a" "\<not> in_page x a"
  shows "with_table m d i x a = m a"
  using assms by (simp add: with_table_def st32_entry_elsewhere fill_def in_page_def)

lemma pde_with_table:
  assumes "page_aligned d" "page_aligned x" "x \<noteq> d" "i < 1024" "j < 1024"
  shows "pde (with_table m d i x) d j = (if j = i then new_pde x else pde m d j)"
  using assms by (simp add: pde_def ld32_with_table)

lemma pte_with_table:
  assumes "pt_ok s d (x # xs)" "page_aligned x" "\<not> present (pde (k_mem s) d (PDX va))"
  shows "pte (with_table (k_mem s) d (PDX va) x) d v = pte (k_mem s) d v"
proof -
  have d: "page_aligned d" "x \<noteq> d" using pt_okD(1,2) [OF assms(1)] by auto
  show ?thesis
  proof (cases "PDX v = PDX va")
    case True
    then show ?thesis
      using assms(2,3) d by (simp add: pte_def pgtable_def pde_with_table ld32_with_table)
  next
    case False
    then show ?thesis
      using assms(2) d pt_okD(3) [OF assms(1), of "PDX v"]
      by (simp add: pte_def pgtable_def pde_with_table ld32_with_table)
  qed
qed

lemma pt_pages_with_table:
  assumes "pt_ok s d (x # xs)" "page_aligned x" "\<not> present (pde (k_mem s) d i)" "i < 1024"
  shows "pt_pages (with_table (k_mem s) d i x) d = insert x (pt_pages (k_mem s) d)"
proof -
  have d: "page_aligned d" "x \<noteq> d" using pt_okD(1,2) [OF assms(1)] by auto
  let ?m = "with_table (k_mem s) d i x"
  have p: "{j. j < 1024 \<and> present (pde ?m d j)} = insert i {j. j < 1024 \<and> present (pde (k_mem s) d j)}"
    using assms(2,4) d by (auto simp: pde_with_table split: if_splits)
  have "pgtable ?m d j = (if j = i then x else pgtable (k_mem s) d j)" if "j < 1024" for j
    using assms(2,4) d that by (simp add: pgtable_def pde_with_table)
  then have "pgtable ?m d ` {j. j < 1024 \<and> present (pde (k_mem s) d j)} =
      pgtable (k_mem s) d ` {j. j < 1024 \<and> present (pde (k_mem s) d j)}" "pgtable ?m d i = x"
    using assms(3,4) by (auto simp: image_iff)
  then show ?thesis unfolding pt_pages_def p by auto
qed

lemma pt_ok_with_table:
  assumes "pt_ok s d (x # xs)" "page_ok s x" "x \<notin> set xs" "\<not> present (pde (k_mem s) d i)" "i < 1024"
  shows "pt_ok (s\<lparr>k_mem := with_table (k_mem s) d i x\<rparr>) d xs"
proof -
  have d: "page_aligned d" "x \<noteq> d" using pt_okD(1,2) [OF assms(1)] by auto
  have x: "page_aligned x" using assms(2) by (rule page_ok_aligned)
  let ?m = "with_table (k_mem s) d i x"
  have t: "pgtable ?m d j = (if j = i then x else pgtable (k_mem s) d j)"
    "present (pde ?m d j) \<longleftrightarrow> j = i \<or> present (pde (k_mem s) d j)" if "j < 1024" for j
    using assms(5) d x that by (simp_all add: pgtable_def pde_with_table)
  have old: "page_ok s (pgtable (k_mem s) d j)" "pgtable (k_mem s) d j \<noteq> d"
    "pgtable (k_mem s) d j \<noteq> x" if "j < 1024" "present (pde (k_mem s) d j)" for j
    using assms(1) that by (auto simp: pt_ok_def pt_pages_def)
  have "inj_on (pgtable ?m d) {j. j < 1024 \<and> present (pde ?m d j)}"
  proof (rule inj_onI)
    fix j k
    assume "j \<in> {j. j < 1024 \<and> present (pde ?m d j)}" "k \<in> {j. j < 1024 \<and> present (pde ?m d j)}"
      and eq: "pgtable ?m d j = pgtable ?m d k"
    then have jk: "j < 1024" "k < 1024" "j = i \<or> present (pde (k_mem s) d j)"
      "k = i \<or> present (pde (k_mem s) d k)" by (auto simp: t)
    have "inj_on (pgtable (k_mem s) d) {i. i < 1024 \<and> present (pde (k_mem s) d i)}"
      using assms(1) by (simp add: pt_ok_def)
    then show "j = k"
      using eq jk old(3) [of j] old(3) [of k] by (auto simp: t inj_on_def split: if_splits)
  qed
  moreover have "pt_pages ?m d \<inter> set xs = {}"
    using pt_pages_with_table [OF assms(1) x assms(4,5)] assms(1,3) by (auto simp: pt_ok_def)
  ultimately show ?thesis
    using assms(1,2) d old by (auto simp: pt_ok_def t)
qed

lemma pool_with_table:
  assumes "pool s (x # xs)" "pt_ok s d (x # xs)" "i < 1024"
  shows "pool (s\<lparr>k_numfreepages := n, k_mem := with_table (k_mem s) d i x,
    k_kmem := (k_kmem s)\<lparr>km_freelist := ld32 (k_mem s) x\<rparr>\<rparr>) xs"
proof -
  have al: "page_aligned y \<and> y \<noteq> d" if "y \<in> set (x # xs)" for y
    using that assms(1) pt_okD(2) [OF assms(2)] by (auto simp: pool_def page_ok_aligned)
  have "ld32 (with_table (k_mem s) d i x) y = ld32 (k_mem s) y" if "y \<in> set xs" for y
  proof -
    have "y \<noteq> x" using that assms(1) by (auto simp: pool_def)
    then show ?thesis
      using ld32_with_table [of d x i y 0 "k_mem s"] al [of x] al [of y] that assms(3)
        pt_okD(1) [OF assms(2)] by simp
  qed
  then have "pool ((s\<lparr>k_numfreepages := k_numfreepages s - 1,
      k_kmem := (k_kmem s)\<lparr>km_freelist := ld32 (k_mem s) x\<rparr>\<rparr>)\<lparr>k_mem := with_table (k_mem s) d i x\<rparr>) xs"
    by (intro pool_mem pool_kalloc_Cons(2) [OF assms(1)]) simp
  then show ?thesis by (subst pool_cong) simp_all
qed

text \<open>Writing the entry of one page changes the translation of that page only.\<close>

definition with_pte :: "memory \<Rightarrow> uint \<Rightarrow> uint \<Rightarrow> uint \<Rightarrow> memory" where
  "with_pte m d va e = st32 m (pgtable m d (PDX va) + 4 * PTX va) e"

lemma pde_with_pte:
  assumes "pt_ok s d xs" "present (pde (k_mem s) d (PDX va))" "i < 1024"
  shows "pde (with_pte (k_mem s) d va e) d i = pde (k_mem s) d i"
  using assms pt_okD(1) [OF assms(1)] pt_okD(3) [OF assms(1) _ assms(2)]
  by (auto simp: with_pte_def pde_def ld32_st32_entry)

lemma pte_with_pte:
  assumes "pt_ok s d xs" "present (pde (k_mem s) d (PDX va))"
  shows "pte (with_pte (k_mem s) d va e) d v =
    (if PGROUNDDOWN v = PGROUNDDOWN va then e else pte (k_mem s) d v)"
proof -
  let ?m = "k_mem s"
  have p: "pde (with_pte ?m d va e) d (PDX v) = pde ?m d (PDX v)"
    using pde_with_pte [OF assms] by simp
  show ?thesis
  proof (cases "present (pde ?m d (PDX v))")
    case True
    have al: "page_aligned (pgtable ?m d (PDX v))" "page_aligned (pgtable ?m d (PDX va))"
      using pt_okD(3) [OF assms(1)] True assms(2) by auto
    have "inj_on (pgtable ?m d) {i. i < 1024 \<and> present (pde ?m d i)}"
      using assms(1) by (simp add: pt_ok_def)
    then have "pgtable ?m d (PDX va) = pgtable ?m d (PDX v) \<longleftrightarrow> PDX va = PDX v"
      using True assms(2) by (auto simp: inj_on_def)
    then have "ld32 (with_pte ?m d va e) (pgtable ?m d (PDX v) + 4 * PTX v) =
        (if PDX v = PDX va \<and> PTX v = PTX va then e else ld32 ?m (pgtable ?m d (PDX v) + 4 * PTX v))"
      using al by (auto simp: with_pte_def ld32_st32_entry)
    then show ?thesis
      using True by (simp add: same_page [symmetric] pte_def p pgtable_def)
  next
    case False
    then have "PDX v \<noteq> PDX va" using assms(2) by metis
    then show ?thesis using False by (auto simp: same_page [symmetric] pte_def p)
  qed
qed

lemma pte_same_page: "PGROUNDDOWN v = PGROUNDDOWN w \<Longrightarrow> pte m d v = pte m d w"
  using same_page [of v w] by (simp add: pte_def)

lemma pt_pages_cong:
  assumes "\<And>i. i < 1024 \<Longrightarrow> pde m' d i = pde m d i"
  shows "pt_pages m' d = pt_pages m d"
proof -
  have "{i. i < 1024 \<and> present (pde m' d i)} = {i. i < 1024 \<and> present (pde m d i)}"
    using assms by auto
  moreover have "pgtable m' d i = pgtable m d i" if "i < 1024" for i
    using assms [OF that] by (simp add: pgtable_def)
  ultimately show ?thesis unfolding pt_pages_def by (auto simp: image_iff)
qed

lemma pt_ok_cong:
  assumes "pt_ok s d xs" "k_end s' = k_end s" "set ys \<subseteq> set xs"
    and "\<And>i. i < 1024 \<Longrightarrow> pde (k_mem s') d i = pde (k_mem s) d i"
  shows "pt_ok s' d ys"
proof -
  have "{i. i < 1024 \<and> present (pde (k_mem s') d i)} = {i. i < 1024 \<and> present (pde (k_mem s) d i)}"
    using assms(4) by auto
  moreover have t: "pgtable (k_mem s') d i = pgtable (k_mem s) d i" if "i < 1024" for i
    using assms(4) [OF that] by (simp add: pgtable_def)
  moreover have "inj_on (pgtable (k_mem s') d) {i. i < 1024 \<and> present (pde (k_mem s) d i)}"
    using assms(1) t inj_on_cong [of "{i. i < 1024 \<and> present (pde (k_mem s) d i)}"
        "pgtable (k_mem s') d" "pgtable (k_mem s) d"] by (auto simp: pt_ok_def)
  ultimately show ?thesis
    using assms(1,3) pt_pages_cong [OF assms(4)] page_ok_cong [OF assms(2)]
    by (auto simp: pt_ok_def assms(4))
qed

lemma pool_with_pte:
  assumes "pool s xs" "pt_ok s d xs" "present (pde (k_mem s) d (PDX va))"
  shows "pool (s\<lparr>k_mem := with_pte (k_mem s) d va e\<rparr>) xs"
proof (rule pool_mem [OF assms(1)])
  fix y assume y: "y \<in> set xs"
  then have "page_aligned y" using assms(1) by (auto simp: pool_def page_ok_aligned)
  then show "ld32 (with_pte (k_mem s) d va e) y = ld32 (k_mem s) y"
    using pt_okD(3) [OF assms(2) _ assms(3)] y
      ld32_st32_entry [of "pgtable (k_mem s) d (PDX va)" y "PTX va" 0 "k_mem s" e]
    by (auto simp: with_pte_def)
qed

lemma with_pte_elsewhere:
  assumes "pt_ok s d xs" "present (pde (k_mem s) d (PDX va))"
    and "page_aligned q" "q \<notin> pt_pages (k_mem s) d" "in_page q x"
  shows "with_pte (k_mem s) d va e x = k_mem s x"
proof -
  let ?t = "pgtable (k_mem s) d (PDX va)"
  have "?t \<in> pt_pages (k_mem s) d" using assms(2) by (auto simp: pt_pages_def)
  then have "?t \<noteq> q" "page_aligned ?t" using assms(4) pt_okD(3) [OF assms(1) _ assms(2)] by auto
  then have "\<not> in_page ?t x" using in_page_disjoint assms(3,5) by blast
  then show ?thesis using \<open>page_aligned ?t\<close> by (simp add: with_pte_def st32_entry_elsewhere)
qed

text \<open>
  \<open>map_step s d xs va e s' xs'\<close>: going from \<open>s\<close> to \<open>s'\<close>, the page of \<open>va\<close> got the entry \<open>e\<close>
  and no other translation changed; at most one free page was used, for a page table; pages
  that are neither free nor part of the table have their contents.
\<close>

definition map_step :: "kernel \<Rightarrow> uint \<Rightarrow> uint list \<Rightarrow> uint \<Rightarrow> uint \<Rightarrow> kernel \<Rightarrow> uint list \<Rightarrow> bool" where
  "map_step s d xs va e s' xs' \<longleftrightarrow> pool s' xs' \<and> pt_ok s' d xs'
     \<and> (\<forall>v. pte (k_mem s') d v = (if PGROUNDDOWN v = PGROUNDDOWN va then e else pte (k_mem s) d v))
     \<and> (xs' = xs \<or> (\<exists>x. xs = x # xs'))
     \<and> pt_pages (k_mem s) d \<subseteq> pt_pages (k_mem s') d
     \<and> pt_pages (k_mem s') d \<subseteq> pt_pages (k_mem s) d \<union> (set xs - set xs')
     \<and> (\<forall>q x. page_aligned q \<and> q \<notin> pt_pages (k_mem s) d \<and> q \<notin> set xs \<and> in_page q x
           \<longrightarrow> k_mem s' x = k_mem s x)
     \<and> s' = s\<lparr>k_mem := k_mem s', k_kmem := k_kmem s', k_numfreepages := k_numfreepages s'\<rparr>"

lemma PGROUNDDOWN_aligned: "page_aligned a \<Longrightarrow> PGROUNDDOWN a = a"
proof -
  assume "page_aligned a"
  then obtain k where "unat a = 4096 * k" by (auto simp: page_aligned_unat)
  then have "unat (PGROUNDDOWN a) = unat a" by (simp add: unat_PGROUNDDOWN)
  then show ?thesis by (simp add: word_unat_eq_iff)
qed

lemma PGROUNDDOWN_last:
  assumes "page_aligned a"
  shows "PGROUNDDOWN (a + PGSIZE - 1) = a"
proof -
  obtain k where k: "unat a = 4096 * k" using assms by (auto simp: page_aligned_unat)
  then have "k < 2 ^ 20" using unat_bound [of a] by simp
  then have "unat (a + 4095) = 4096 * k + 4095" using k by (simp add: unat_word_ariths)
  then have "unat (PGROUNDDOWN (a + 4095)) = unat a" using k by (simp add: unat_PGROUNDDOWN)
  then show ?thesis by (simp add: word_unat_eq_iff PGSIZE_def add_diff_eq [symmetric])
qed

lemma map_step_present:
  assumes "pool s xs" "pt_ok s d xs" "present (pde (k_mem s) d (PDX va))"
  shows "map_step s d xs va e (s\<lparr>k_mem := with_pte (k_mem s) d va e\<rparr>) xs"
proof -
  let ?s = "s\<lparr>k_mem := with_pte (k_mem s) d va e\<rparr>"
  have p: "pde (k_mem ?s) d i = pde (k_mem s) d i" if "i < 1024" for i
    using pde_with_pte [OF assms(2,3) that] by simp
  have "pt_ok ?s d xs" by (rule pt_ok_cong [OF assms(2) _ _ p]) simp_all
  moreover have "pt_pages (k_mem ?s) d = pt_pages (k_mem s) d" by (rule pt_pages_cong [OF p])
  ultimately show ?thesis
    using pool_with_pte [OF assms] pte_with_pte [OF assms(2,3)] with_pte_elsewhere [OF assms(2,3)]
    by (auto simp: map_step_def)
qed

text \<open>With the page table in place or a free page for it, the step succeeds.\<close>

lemma walkpgdir_True:
  assumes "pool s xs" "pt_ok s d xs" "present (pde (k_mem s) d (PDX va)) \<or> xs \<noteq> []"
  obtains s' xs' where "walkpgdir d va True s = Ret (pgtable (k_mem s') d (PDX va) + 4 * PTX va) s'"
    "present (pde (k_mem s') d (PDX va))" "map_step s d xs va (pte (k_mem s) d va) s' xs'"
proof (cases "present (pde (k_mem s) d (PDX va))")
  case True
  have "map_step s d xs va (pte (k_mem s) d va) s xs"
    using assms(1,2) by (auto simp: map_step_def intro: pte_same_page)
  then show ?thesis using that True walkpgdir_present by blast
next
  case False
  then obtain x ys where xs: "xs = x # ys" using assms(3) by (cases xs) auto
  have x: "page_ok s x" "page_aligned x" "x \<notin> set ys"
    using assms(1) by (auto simp: xs pool_def page_ok_aligned)
  let ?m = "with_table (k_mem s) d (PDX va) x"
  define s' where "s' = s\<lparr>k_numfreepages := k_numfreepages s - 1, k_mem := ?m,
    k_kmem := (k_kmem s)\<lparr>km_freelist := ld32 (k_mem s) x\<rparr>\<rparr>"
  have ok: "pt_ok s d (x # ys)" using assms(2) xs by simp
  have d: "page_aligned d" "x \<noteq> d" using pt_okD(1,2) [OF ok] by auto
  have w: "walkpgdir d va True s = Ret (x + 4 * PTX va) s'"
    using walkpgdir_alloc [OF False] assms(1) by (simp add: xs s'_def with_table_def)
  have e: "pde ?m d (PDX va) = new_pde x" using d x by (simp add: pde_with_table)
  have "pt_ok s' d ys"
    using pt_ok_with_table [OF ok x(1,3) False PDX_less]
    by (rule pt_ok_cong) (simp_all add: s'_def)
  moreover have "pool s' ys" unfolding s'_def
    using pool_with_table [OF _ ok PDX_less] assms(1) by (simp add: xs)
  moreover have "k_mem s' a = k_mem s a"
    if "page_aligned q" "q \<notin> pt_pages (k_mem s) d" "q \<notin> set xs" "in_page q a" for q a
  proof -
    have "q \<noteq> d" "q \<noteq> x" using that(2,3) by (auto simp: pt_pages_def xs)
    then have "\<not> in_page d a" "\<not> in_page x a"
      using in_page_disjoint that(1,4) d(1) x(2) by blast+
    then show ?thesis using d x by (simp add: s'_def with_table_elsewhere)
  qed
  ultimately have "map_step s d xs va (pte (k_mem s) d va) s' ys"
    using pte_with_table [OF ok x(2) False] pt_pages_with_table [OF ok x(2) False PDX_less] x(3)
    by (auto simp: map_step_def s'_def xs intro: pte_same_page)
  moreover have "pgtable (k_mem s') d (PDX va) = x" "present (pde (k_mem s') d (PDX va))"
    using e x by (simp_all add: s'_def pgtable_def)
  ultimately show ?thesis using that w by metis
qed

lemma map_step_trans:
  assumes a: "map_step s d xs va e1 s1 xs1" and b: "map_step s1 d xs1 va e2 s2 xs1"
  shows "map_step s d xs va e2 s2 xs1"
proof -
  have "k_mem s2 x = k_mem s x" if "page_aligned q" "q \<notin> pt_pages (k_mem s) d" "q \<notin> set xs" "in_page q x" for q x
  proof -
    have "q \<notin> pt_pages (k_mem s1) d" "q \<notin> set xs1" "k_mem s1 x = k_mem s x"
      using a that by (auto simp: map_step_def)
    then show ?thesis using b that by (auto simp: map_step_def)
  qed
  moreover have "s2 = s\<lparr>k_mem := k_mem s2, k_kmem := k_kmem s2, k_numfreepages := k_numfreepages s2\<rparr>"
  proof -
    have "s1 = s\<lparr>k_mem := k_mem s1, k_kmem := k_kmem s1, k_numfreepages := k_numfreepages s1\<rparr>"
      "s2 = s1\<lparr>k_mem := k_mem s2, k_kmem := k_kmem s2, k_numfreepages := k_numfreepages s2\<rparr>"
      using a b unfolding map_step_def by blast+
    then show ?thesis by (cases s, cases s1, cases s2) simp
  qed
  ultimately show ?thesis
    using a b unfolding map_step_def by (auto split: if_splits)
qed

lemma mappages_page:
  assumes "pool s xs" "pt_ok s d xs" "present (pde (k_mem s) d (PDX va)) \<or> xs \<noteq> []"
    and "page_aligned va" "pte (k_mem s) d va = 0"
  obtains s' xs' where "mappages d va PGSIZE pa perm s = Ret 0 s'"
    "map_step s d xs va (pa OR perm OR PTE_P) s' xs'"
proof -
  obtain s1 xs1 where w: "walkpgdir d va True s = Ret (pgtable (k_mem s1) d (PDX va) + 4 * PTX va) s1"
    and p: "present (pde (k_mem s1) d (PDX va))" and st: "map_step s d xs va (pte (k_mem s) d va) s1 xs1"
    using walkpgdir_True [OF assms(1-3)] by metis
  have ok: "pool s1 xs1" "pt_ok s1 d xs1" using st by (auto simp: map_step_def)
  let ?a = "pgtable (k_mem s1) d (PDX va) + 4 * PTX va" and ?e = "pa OR perm OR PTE_P"
  have z: "ld32 (k_mem s1) ?a = 0"
    using st assms(5) p by (auto simp: map_step_def pte_def dest!: spec [of _ va])
  have "page_aligned (pgtable (k_mem s1) d (PDX va))" "pgtable (k_mem s1) d (PDX va) \<noteq> 0"
    using pt_okD(3) [OF ok(2) PDX_less p] by auto
  then have nz: "?a \<noteq> 0"
    using entry_inj [of "pgtable (k_mem s1) d (PDX va)" 0 "PTX va" 0] by (auto simp: page_aligned_def)
  have "mappages d va PGSIZE pa perm s = Ret 0 (s1\<lparr>k_mem := with_pte (k_mem s1) d va ?e\<rparr>)"
    using w nz z assms(4)
    by (simp add: mappages_def Let_def PGROUNDDOWN_last PGROUNDDOWN_aligned with_pte_def)
  moreover have "map_step s d xs va ?e (s1\<lparr>k_mem := with_pte (k_mem s1) d va ?e\<rparr>) xs1"
    by (rule map_step_trans [OF st map_step_present [OF ok p]])
  ultimately show ?thesis using that by blast
qed

section \<open>Growing an address space\<close>

text \<open>The entry of a user page, and the addresses of the pages of a run.\<close>

definition upte :: "uint \<Rightarrow> uint" where
  "upte q = v2p q OR (PTE_W OR PTE_U) OR PTE_P"

definition page_at :: "uint \<Rightarrow> nat \<Rightarrow> uint" where
  "page_at a i = a + of_nat i * PGSIZE"

definition zeroed :: "memory \<Rightarrow> uint \<Rightarrow> bool" where
  "zeroed m q \<longleftrightarrow> (\<forall>x. in_page q x \<longrightarrow> m x = 0)"

text \<open>
  \<open>mapped_run s d xs a qs s' ys\<close>: going from \<open>s\<close> to \<open>s'\<close>, the pages from \<open>a\<close> on were mapped
  to the zeroed pages \<open>qs\<close>, taken from the free pages \<open>xs\<close>, of which \<open>ys\<close> are left; all
  other translations and the contents of all other pages in use are unchanged.
\<close>

definition mapped_run :: "kernel \<Rightarrow> uint \<Rightarrow> uint list \<Rightarrow> uint \<Rightarrow> uint list \<Rightarrow> kernel \<Rightarrow> uint list \<Rightarrow> bool" where
  "mapped_run s d xs a qs s' ys \<longleftrightarrow> pool s' ys \<and> pt_ok s' d ys \<and> set ys \<subseteq> set xs
     \<and> distinct qs \<and> set qs \<subseteq> set xs - set ys \<and> set qs \<inter> pt_pages (k_mem s') d = {}
     \<and> pt_pages (k_mem s') d \<subseteq> pt_pages (k_mem s) d \<union> (set xs - set ys)
     \<and> (\<forall>i<length qs. \<forall>v. PGROUNDDOWN v = page_at a i \<longrightarrow> pte (k_mem s') d v = upte (qs ! i))
     \<and> (\<forall>v. (\<forall>i<length qs. PGROUNDDOWN v \<noteq> page_at a i) \<longrightarrow> pte (k_mem s') d v = pte (k_mem s) d v)
     \<and> (\<forall>q\<in>set qs. zeroed (k_mem s') q)
     \<and> (\<forall>q x. page_aligned q \<and> q \<notin> pt_pages (k_mem s) d \<and> q \<notin> set xs \<and> in_page q x
           \<longrightarrow> k_mem s' x = k_mem s x)"

lemma page_at_Suc: "page_at a (Suc i) = page_at (a + PGSIZE) i"
  by (simp add: page_at_def algebra_simps)

lemma page_at_unat:
  "unat a + i * 4096 < 2 ^ 32 \<Longrightarrow> unat (page_at a i) = unat a + i * 4096"
  by (simp add: page_at_def PGSIZE_def unat_word_ariths unat_of_nat)

text \<open>Taking a page off the free list and clearing it touches no translation.\<close>

lemma kalloc_zero_page:
  assumes "pool s (q # zs)" "pt_ok s d (q # zs)"
  defines "s1 \<equiv> s\<lparr>k_numfreepages := k_numfreepages s - 1,
    k_kmem := (k_kmem s)\<lparr>km_freelist := ld32 (k_mem s) q\<rparr>, k_mem := fill (k_mem s) q 0 4096\<rparr>"
  shows "bnd kalloc (\<lambda>mem. if mem = 0 then f mem else andthen (zero_page mem) (g mem)) s = g q s1"
    and "pool s1 zs" "pt_ok s1 d zs" "pte (k_mem s1) d v = pte (k_mem s) d v"
    and "pt_pages (k_mem s1) d = pt_pages (k_mem s) d" "zeroed (k_mem s1) q"
    and "page_aligned p \<Longrightarrow> p \<noteq> q \<Longrightarrow> in_page p x \<Longrightarrow> k_mem s1 x = k_mem s x"
proof -
  have q: "page_aligned q" "q \<noteq> 0" "q \<notin> set zs"
    using assms(1) by (auto simp: pool_def page_ok_aligned)
  have d: "page_aligned d" "q \<noteq> d" using pt_okD(1,2) [OF assms(2)] by auto
  have l: "ld32 (k_mem s1) (p + 4 * j) = ld32 (k_mem s) (p + 4 * j)"
    if "page_aligned p" "p \<noteq> q" "j < 1024" for p j
    using that q by (simp add: s1_def ld32_fill_other)
  show "bnd kalloc (\<lambda>mem. if mem = 0 then f mem else andthen (zero_page mem) (g mem)) s = g q s1"
    using pool_kalloc_Cons(1) [OF assms(1)] q
    by (simp add: s1_def memset_fill PGSIZE_def)
  have "pool ((s\<lparr>k_numfreepages := k_numfreepages s - 1,
      k_kmem := (k_kmem s)\<lparr>km_freelist := ld32 (k_mem s) q\<rparr>\<rparr>)\<lparr>k_mem := k_mem s1\<rparr>) zs"
  proof (intro pool_mem pool_kalloc_Cons(2) [OF assms(1)])
    fix y assume "y \<in> set zs"
    then have "page_aligned y" "y \<noteq> q" using assms(1) by (auto simp: pool_def page_ok_aligned)
    then show "ld32 (k_mem s1) y = ld32 (k_mem (s\<lparr>k_numfreepages := k_numfreepages s - 1,
      k_kmem := (k_kmem s)\<lparr>km_freelist := ld32 (k_mem s) q\<rparr>\<rparr>)) y" using l [of y 0] by simp
  qed
  then show "pool s1 zs" by (subst pool_cong) (simp_all add: s1_def)
  have p: "pde (k_mem s1) d i = pde (k_mem s) d i" if "i < 1024" for i
    using l [OF d(1) _ that] d(2) by (simp add: pde_def)
  show "pt_ok s1 d zs" by (rule pt_ok_cong [OF assms(2) _ _ p]) (auto simp: s1_def)
  show "pt_pages (k_mem s1) d = pt_pages (k_mem s) d" by (rule pt_pages_cong [OF p])
  show "pte (k_mem s1) d v = pte (k_mem s) d v"
    using p [of "PDX v"] pt_okD(3) [OF assms(2), of "PDX v"] l by (simp add: pte_def pgtable_def)
  show "zeroed (k_mem s1) q" by (simp add: zeroed_def s1_def fill_def in_page_def)
  show "k_mem s1 x = k_mem s x" if "page_aligned p" "p \<noteq> q" "in_page p x"
    using in_page_disjoint [OF q(1) that(1) _ that(3)] that(2) by (simp add: s1_def fill_def in_page_def)
qed

lemma mapped_run_Nil: "pool s xs \<Longrightarrow> pt_ok s d xs \<Longrightarrow> mapped_run s d xs a [] s xs"
  by (simp add: mapped_run_def)

lemma mapped_run_Cons:
  assumes s1: "pool s1 zs" "pt_ok s1 d zs" "\<And>v. pte (k_mem s1) d v = pte (k_mem s) d v"
      "pt_pages (k_mem s1) d = pt_pages (k_mem s) d" "zeroed (k_mem s1) q"
      "\<And>p x. page_aligned p \<Longrightarrow> p \<noteq> q \<Longrightarrow> in_page p x \<Longrightarrow> k_mem s1 x = k_mem s x"
    and s: "pool s (q # zs)" "pt_ok s d (q # zs)"
    and st: "map_step s1 d zs a (upte q) s2 xs2"
    and run: "mapped_run s2 d xs2 (a + PGSIZE) qs s' ys"
    and a: "page_aligned a" "unat a + Suc (length qs) * 4096 \<le> 2 ^ 32"
  shows "mapped_run s d (q # zs) a (q # qs) s' ys"
proof -
  have q: "page_aligned q" "q \<notin> set zs" "q \<notin> pt_pages (k_mem s) d"
    using s by (auto simp: pool_def page_ok_aligned pt_ok_def)
  have sub: "set xs2 \<subseteq> set zs" "set ys \<subseteq> set xs2" using st run by (auto simp: map_step_def mapped_run_def)
  have q2: "q \<notin> pt_pages (k_mem s2) d" "q \<notin> set xs2"
    using st q s1(4) by (auto simp: map_step_def)
  have keep1: "k_mem s2 x = k_mem s1 x"
    if "page_aligned p" "p \<notin> pt_pages (k_mem s1) d" "p \<notin> set zs" "in_page p x" for p x
    using st that unfolding map_step_def by blast
  have keep2: "k_mem s' x = k_mem s2 x"
    if "page_aligned p" "p \<notin> pt_pages (k_mem s2) d" "p \<notin> set xs2" "in_page p x" for p x
    using run that unfolding mapped_run_def by blast
  have z: "zeroed (k_mem s') q"
    using s1(5) keep1 [of q] keep2 [of q] q q2 s1(4) by (simp add: zeroed_def)
  have ne: "PGROUNDDOWN v \<noteq> page_at (a + PGSIZE) i" if "i < length qs" "PGROUNDDOWN v = a" for v i
  proof -
    have "unat a + Suc i * 4096 < 2 ^ 32" using a(2) that(1) by simp
    from page_at_unat [OF this] show ?thesis using that(2) by (auto simp: page_at_Suc)
  qed
  have pt: "pte (k_mem s2) d v = (if PGROUNDDOWN v = a then upte q else pte (k_mem s) d v)" for v
    using st s1(3) PGROUNDDOWN_aligned [OF a(1)] by (simp add: map_step_def)
  have "pte (k_mem s') d v = upte ((q # qs) ! i)" if "i < length (q # qs)" "PGROUNDDOWN v = page_at a i" for i v
  proof (cases i)
    case 0
    then have "PGROUNDDOWN v = a" using that(2) by (simp add: page_at_def)
    then show ?thesis using run ne pt 0 by (auto simp: mapped_run_def)
  next
    case (Suc j)
    then show ?thesis using run that by (auto simp: mapped_run_def page_at_Suc)
  qed
  moreover have "pte (k_mem s') d v = pte (k_mem s) d v"
    if "\<forall>i<length (q # qs). PGROUNDDOWN v \<noteq> page_at a i" for v
  proof -
    have "PGROUNDDOWN v \<noteq> a" "\<forall>i<length qs. PGROUNDDOWN v \<noteq> page_at (a + PGSIZE) i"
      using that by (force simp: page_at_def, auto simp: page_at_Suc)
    then show ?thesis using run pt by (auto simp: mapped_run_def)
  qed
  moreover have "k_mem s' x = k_mem s x"
    if "page_aligned p \<and> p \<notin> pt_pages (k_mem s) d \<and> p \<notin> set (q # zs) \<and> in_page p x" for p x
  proof -
    have "p \<notin> pt_pages (k_mem s2) d" "p \<notin> set xs2" using st that s1(4) sub by (auto simp: map_step_def)
    then show ?thesis using keep1 [of p x] keep2 [of p x] s1(6) [of p x] s1(4) that by simp
  qed
  moreover have "pt_pages (k_mem s') d \<subseteq> pt_pages (k_mem s) d \<union> (set zs - set ys)"
    using st run sub s1(4) by (auto simp: map_step_def mapped_run_def)
  moreover have "q \<notin> pt_pages (k_mem s') d" using calculation(4) q by auto
  ultimately show ?thesis
    using run z q q2 sub unfolding mapped_run_def by auto
qed

lemma page_aligned_PGSIZE [simp]: "page_aligned PGSIZE"
  by (simp add: page_aligned_def)

lemma page_aligned_page_at: "page_aligned a \<Longrightarrow> page_aligned (page_at a i)"
proof (induction i arbitrary: a)
  case (Suc i)
  then show ?case by (simp add: page_at_Suc page_aligned_add)
qed (simp add: page_at_def)

lemma allocuvm_loop:
  assumes "page_aligned a" "pool s xs" "pt_ok s d xs" "2 * n \<le> length xs" "n < fuel"
    and "unat newsz \<le> unat a + n * 4096" "\<forall>i<n. unat a + i * 4096 < unat newsz"
    and "unat a + n * 4096 \<le> 2 ^ 31" "\<forall>i<n. pte (k_mem s) d (page_at a i) = 0"
  shows "\<exists>s' ys qs. loop fuel (allocuvm_body d oldsz newsz) a s = Ret newsz s' \<and> length qs = n
    \<and> mapped_run s d xs a qs s' ys"
  using assms
proof (induction n arbitrary: a s xs fuel)
  case 0
  then have "\<not> a < newsz" by (simp add: word_less_nat_alt)
  moreover obtain f where "fuel = Suc f" using "0.prems"(5) by (cases fuel) auto
  ultimately have "loop fuel (allocuvm_body d oldsz newsz) a s = Ret newsz s"
    by (simp add: allocuvm_body_def)
  then show ?case using mapped_run_Nil [OF "0.prems"(2,3)] by fastforce
next
  case (Suc n)
  obtain q zs where xs: "xs = q # zs" using Suc.prems(4) by (cases xs) auto
  obtain f where f: "fuel = Suc f" "n < f" using Suc.prems(5) by (cases fuel) auto
  have lt: "a < newsz" using Suc.prems(7) by (force simp: word_less_nat_alt)
  note z = kalloc_zero_page [OF Suc.prems(2,3) [unfolded xs]]
  define s1 where "s1 = s\<lparr>k_numfreepages := k_numfreepages s - 1,
    k_kmem := (k_kmem s)\<lparr>km_freelist := ld32 (k_mem s) q\<rparr>, k_mem := fill (k_mem s) q 0 4096\<rparr>"
  note z = z [folded s1_def]
  have "pte (k_mem s1) d a = 0" using z(4) Suc.prems(9) by (force simp: page_at_def)
  moreover have "zs \<noteq> []" using Suc.prems(4) xs by auto
  ultimately obtain s2 xs2 where m: "mappages d a PGSIZE (v2p q) (PTE_W OR PTE_U) s1 = Ret 0 s2"
    and st: "map_step s1 d zs a (upte q) s2 xs2"
    using mappages_page [OF z(2,3) _ Suc.prems(1)] unfolding upte_def by metis
  have u: "unat (a + PGSIZE) = unat a + 4096"
    using Suc.prems(8) by (simp add: PGSIZE_def unat_word_ariths)
  have pt: "pte (k_mem s2) d (page_at (a + PGSIZE) i) = 0" if "i < n" for i
  proof -
    have b: "unat (page_at a (Suc i)) = unat a + Suc i * 4096"
      using Suc.prems(8) that by (intro page_at_unat) simp
    have "page_aligned (page_at a (Suc i))" using Suc.prems(1) by (rule page_aligned_page_at)
    moreover have "page_at a (Suc i) \<noteq> a" using b by auto
    ultimately have "PGROUNDDOWN (page_at a (Suc i)) \<noteq> PGROUNDDOWN a"
      using Suc.prems(1) by (simp add: PGROUNDDOWN_aligned)
    then show ?thesis
      using st z(4) Suc.prems(9) that by (simp add: map_step_def page_at_Suc [symmetric])
  qed
  have step: "loop fuel (allocuvm_body d oldsz newsz) a s = loop f (allocuvm_body d oldsz newsz) (a + PGSIZE) s2"
  proof -
    have "allocuvm_body d oldsz newsz a s = Ret (Inl (a + PGSIZE)) s2"
      using lt m by (simp add: allocuvm_body_def z(1))
    then show ?thesis by (simp add: f(1))
  qed
  have al: "page_aligned (a + PGSIZE)" using Suc.prems(1) by (simp add: page_aligned_add)
  have "2 * n \<le> length xs2" "pool s2 xs2" "pt_ok s2 d xs2"
    using st Suc.prems(4) xs by (auto simp: map_step_def)
  then obtain s' ys qs where r: "loop f (allocuvm_body d oldsz newsz) (a + PGSIZE) s2 = Ret newsz s'"
    "length qs = n" "mapped_run s2 d xs2 (a + PGSIZE) qs s' ys"
    using Suc.IH [of "a + PGSIZE" s2 xs2 f] al f(2) pt Suc.prems(6-8) u by fastforce
  have "mapped_run s d (q # zs) a (q # qs) s' ys"
    by (rule mapped_run_Cons [OF z(2-7) Suc.prems(2,3) [unfolded xs] st r(3) Suc.prems(1)])
       (use Suc.prems(8) r(2) in simp_all)
  then show ?case using step r(1,2) xs by (metis length_Cons)
qed

text \<open>The number of pages between two sizes.\<close>

definition npages :: "uint \<Rightarrow> uint \<Rightarrow> nat" where
  "npages oldsz newsz = (unat newsz + 4095) div 4096 - (unat oldsz + 4095) div 4096"

text \<open>
  C2: \<^verbatim>\<open>allocuvm\<close> grows an address space. If the pages between the two sizes are unmapped and
  two free pages per new page are there (one for the page, one for a page table it may
  need), it returns the new size; every page in between is mapped, user-accessible and
  writable, to a frame of its own that was free and is now zeroed; no other
  translation and no other page in use changes, and the frames and tables have left the free list.
\<close>

theorem allocuvm_grows:
  assumes "pool s xs" "pt_ok s d xs" "oldsz \<le> newsz" "newsz < KERNBASE"
    and "\<forall>i<npages oldsz newsz. pte (k_mem s) d (page_at (PGROUNDUP oldsz) i) = 0"
    and "2 * npages oldsz newsz \<le> length xs"
  shows "\<exists>s' ys qs. allocuvm d oldsz newsz s = Ret newsz s' \<and> length qs = npages oldsz newsz
    \<and> mapped_run s d xs (PGROUNDUP oldsz) qs s' ys"
proof -
  have b: "unat oldsz \<le> unat newsz" "unat newsz < 2 ^ 31"
    using assms(3,4) by (simp_all add: word_le_nat_alt word_less_nat_alt KERNBASE_def)
  have a: "unat (PGROUNDUP oldsz) = (unat oldsz + 4095) div 4096 * 4096"
    using b by (intro unat_PGROUNDUP) simp
  define k l where "k = (unat oldsz + 4095) div 4096" and "l = (unat newsz + 4095) div 4096"
  have kl: "k \<le> l" using b(1) unfolding k_def l_def by (intro div_le_mono) simp
  have n: "npages oldsz newsz = l - k" by (simp add: npages_def k_def l_def)
  have l1: "unat newsz \<le> l * 4096" "l * 4096 < unat newsz + 4096"
    using div_mult_mod_eq [of "unat newsz + 4095" 4096] mod_less_divisor [of 4096 "unat newsz + 4095"]
    unfolding l_def by linarith+
  have l2: "l \<le> 2 ^ 19" using b(2) unfolding l_def by (simp add: less_mult_imp_div_less le_div_geq)
  have "\<exists>s' ys qs. loop (Suc NPAGES) (allocuvm_body d oldsz newsz) (PGROUNDUP oldsz) s = Ret newsz s'
    \<and> length qs = l - k \<and> mapped_run s d xs (PGROUNDUP oldsz) qs s' ys"
  proof (rule allocuvm_loop [OF _ assms(1,2)])
    show "page_aligned (PGROUNDUP oldsz)" by (simp add: page_aligned_unat a)
    show "2 * (l - k) \<le> length xs" using assms(6) n by simp
    show "l - k < Suc NPAGES" using l2 by (simp add: NPAGES_def)
    show "unat newsz \<le> unat (PGROUNDUP oldsz) + (l - k) * 4096"
      using l1(1) kl by (simp add: a k_def [symmetric] diff_mult_distrib)
    show "\<forall>i<l - k. unat (PGROUNDUP oldsz) + i * 4096 < unat newsz"
      using l1(2) by (auto simp: a k_def [symmetric])
    show "unat (PGROUNDUP oldsz) + (l - k) * 4096 \<le> 2 ^ 31"
      using l2 kl by (simp add: a k_def [symmetric] diff_mult_distrib)
    show "\<forall>i<l - k. pte (k_mem s) d (page_at (PGROUNDUP oldsz) i) = 0"
      using assms(5) n by simp
  qed
  moreover have "allocuvm d oldsz newsz =
      loop (Suc NPAGES) (allocuvm_body d oldsz newsz) (PGROUNDUP oldsz)"
    using assms(3,4) unfolding allocuvm_def by (meson leD)
  ultimately show ?thesis using n by simp
qed

text \<open>
  C13: \<^verbatim>\<open>mappages\<close> on one unmapped page sets the entry of exactly that page: the address
  translates to the given frame with the given permissions and every other page of the
  address space translates as before. A missing page table is taken from the free list.
\<close>

theorem mappages_one_page:
  assumes "pool s xs" "pt_ok s d xs" "present (pde (k_mem s) d (PDX va)) \<or> xs \<noteq> []"
    and "page_aligned va" "pte (k_mem s) d va = 0"
  shows "\<exists>s' xs'. mappages d va PGSIZE pa perm s = Ret 0 s' \<and> pool s' xs' \<and> pt_ok s' d xs'
    \<and> (xs' = xs \<or> (\<exists>x. xs = x # xs'))
    \<and> (\<forall>v. pte (k_mem s') d v =
         (if PGROUNDDOWN v = va then pa OR perm OR PTE_P else pte (k_mem s) d v))"
proof -
  obtain s' xs' where "mappages d va PGSIZE pa perm s = Ret 0 s'"
    "map_step s d xs va (pa OR perm OR PTE_P) s' xs'"
    using mappages_page [OF assms] by metis
  then show ?thesis using PGROUNDDOWN_aligned [OF assms(4)] unfolding map_step_def by metis
qed

section \<open>Examples\<close>

text \<open>An empty address space at 0x80500000 and two free pages.\<close>

definition vm_start :: kernel where
  "vm_start = boot\<lparr>k_mem := st32 (\<lambda>_. 0) 0x80401000 0x80400000,
     k_kmem := \<lparr>km_use_lock = False, km_freelist = 0x80401000\<rparr>\<rparr>"

lemma vm_start_entry:
  assumes "page_aligned q" "i < 1024" "q \<noteq> 0x80401000"
  shows "ld32 (k_mem vm_start) (q + 4 * i) = 0"
proof -
  have "ld32 (st32 (\<lambda>_. 0) (0x80401000 + 4 * 0) 0x80400000) (q + 4 * i) = ld32 (\<lambda>_. 0) (q + 4 * i)"
    using assms by (subst ld32_st32_entry) (auto simp: page_aligned_def PGSIZE_def)
  then show ?thesis by (simp add: vm_start_def ld32_def)
qed

lemma vm_start_ok:
  "pool vm_start [0x80401000, 0x80400000]" "pt_ok vm_start 0x80500000 [0x80401000, 0x80400000]"
  "pte (k_mem vm_start) 0x80500000 v = 0"
proof -
  have z: "pde (k_mem vm_start) 0x80500000 i = 0" if "i < 1024" for i
    using vm_start_entry [OF _ that, of "0x80500000"] by (simp add: pde_def page_aligned_def PGSIZE_def)
  have pk: "page_ok vm_start v" if "v \<in> {0x80400000, 0x80401000, 0x80500000}" for v
    using that by (auto simp: page_ok_def vm_start_def boot_def v2p_def layout_defs)
  have n: "present (pde (k_mem vm_start) 0x80500000 i) \<longleftrightarrow> False" if "i < 1024" for i
    using z [OF that] by (simp add: present_def)
  have "ld32 (k_mem vm_start) 0x80400000 = 0"
    using vm_start_entry [of "0x80400000" 0] by (simp add: page_aligned_def PGSIZE_def)
  moreover have "ld32 (k_mem vm_start) 0x80401000 = 0x80400000" by (simp add: vm_start_def)
  moreover have "lock_avail KmemLk vm_start" by (simp add: vm_start_def)
  ultimately show "pool vm_start [0x80401000, 0x80400000]"
    using pk by (simp add: pool_def) (simp add: vm_start_def)
  have "{i. i < 1024 \<and> present (pde (k_mem vm_start) 0x80500000 i)} = {}" using n by auto
  then show "pt_ok vm_start 0x80500000 [0x80401000, 0x80400000]"
    using pk n unfolding pt_ok_def pt_pages_def by (auto simp: inj_on_def)
  show "pte (k_mem vm_start) 0x80500000 v = 0" using n by (simp add: pte_def)
qed

theorem allocuvm_grows_witness:
  "\<exists>s' qs. allocuvm 0x80500000 0 4096 vm_start = Ret 4096 s' \<and> length qs = 1
     \<and> pte (k_mem s') 0x80500000 0 = upte (qs ! 0)"
proof -
  have n: "npages 0 4096 = 1" by (simp add: npages_def)
  have a: "PGROUNDUP 0 = 0" by (simp add: PGROUNDUP_def PGSIZE_def)
  obtain s' ys qs where "allocuvm 0x80500000 0 4096 vm_start = Ret 4096 s'" "length qs = 1"
    "mapped_run vm_start 0x80500000 [0x80401000, 0x80400000] 0 qs s' ys"
    using allocuvm_grows [OF vm_start_ok(1,2), of 0 4096] vm_start_ok(3) n a
    by (auto simp: KERNBASE_def)
  moreover have "PGROUNDDOWN 0 = page_at 0 0" by (simp add: page_at_def PGROUNDDOWN_def)
  ultimately show ?thesis unfolding mapped_run_def by (metis less_one)
qed

theorem mappages_one_page_witness:
  "\<exists>s'. mappages 0x80500000 0x3000 PGSIZE 0x700000 PTE_U vm_start = Ret 0 s'
     \<and> pte (k_mem s') 0x80500000 0x3000 = 0x700005 \<and> pte (k_mem s') 0x80500000 0x4000 = 0"
proof -
  have "page_aligned 0x3000" by (simp add: page_aligned_def PGSIZE_def)
  then show ?thesis
    using mappages_one_page [OF vm_start_ok(1,2) _ _ vm_start_ok(3), of "0x3000" "0x700000" PTE_U]
      vm_start_ok(3) by (auto simp: PGROUNDDOWN_def PGSIZE_def PTE_U_def PTE_P_def)
qed

end
