(* ===== verification/Ptable.thy ===== *)
theory Ptable
  imports Vm
begin

text \<open>
  The process table and the scheduler (\<^verbatim>\<open>proc.c\<close>): allocating a slot, the switch into the
  scheduler, sleeping and waking, killing, and the scheduler's rounds over the table. The code of
  \<^verbatim>\<open>sleep\<close> and \<^verbatim>\<open>wakeup\<close> is a list of statements, which the machine of \<^verbatim>\<open>Spinlock\<close> interleaves on several CPUs.
  \<^verbatim>\<open>sched\<close> is the coroutine switch: the code before it ends with the outcome \<open>Switch\<close>,
  and the code after it runs when the scheduler dispatches the process again.
\<close>

section \<open>Operations\<close>

abbreviation upd_proc :: "nat \<Rightarrow> (proc \<Rightarrow> proc) \<Rightarrow> unit kern" where
  "upd_proc i f \<equiv> modify (update_procs (upd_at i f))"

definition pinit :: "unit kern" where
  "pinit = initlock PtableLk ''ptable''"

text \<open>
  \<^verbatim>\<open>allocproc\<close>. The trap frame area of the new stack page is left as it is; every
  caller overwrites it before the process runs.
\<close>

definition allocproc :: "nat option kern" where
  "allocproc =
     andthen (acquire PtableLk)
     (bnd (gets (\<lambda>s. find_idx (\<lambda>p. p_state p = UNUSED) (k_procs s))) (\<lambda>r.
      case r of
        None \<Rightarrow> andthen (release PtableLk) (ret None)
      | Some i \<Rightarrow>
          andthen (modify (\<lambda>s. s\<lparr>k_procs := upd_at i (\<lambda>p. p\<lparr>p_state := EMBRYO,
              p_pid := k_nextpid s, p_is_thread := False, p_tid := 0, p_numOfThread := 0\<rparr>) (k_procs s),
              k_nextpid := k_nextpid s + 1\<rparr>))
         (andthen (release PtableLk)
         (bnd kalloc (\<lambda>k.
          andthen (upd_proc i (\<lambda>p. p\<lparr>p_kstack := k\<rparr>))
          (if k = 0 then andthen (upd_proc i (\<lambda>p. p\<lparr>p_state := UNUSED\<rparr>)) (ret None)
           else andthen (modify (\<lambda>s. update_procs (upd_at i
                  (\<lambda>p. p\<lparr>p_context := context0\<lparr>cx_eip := k_forkret s\<rparr>\<rparr>)) s))
                (ret (Some i))))))))"

definition wakeup1_procs :: "chan \<Rightarrow> proc list \<Rightarrow> proc list" where
  "wakeup1_procs c = map (\<lambda>p. if p_state p = SLEEPING \<and> p_chan p = c
     then p\<lparr>p_state := RUNNABLE\<rparr> else p)"

definition wakeup1 :: "chan \<Rightarrow> unit kern" where
  "wakeup1 c = modify (update_procs (wakeup1_procs c))"

definition wakeup_stmts :: "chan \<Rightarrow> unit kern list" where
  "wakeup_stmts c = [acquire PtableLk, wakeup1 c, release PtableLk]"

definition wakeup :: "chan \<Rightarrow> unit kern" where
  "wakeup c = run_stmts (wakeup_stmts c)"

text \<open>The channel of a process pointer, null for the null pointer.\<close>

definition chan_of :: "nat option \<Rightarrow> chan" where
  "chan_of p = (case p of None \<Rightarrow> NoChan | Some i \<Rightarrow> ChProc i)"

definition sched :: "unit kern" where
  "sched s =
     (if \<not> holding PtableLk s then Panic ''sched ptable.lock''
      else if c_ncli (k_cpu s) \<noteq> 1 then Panic ''sched locks''
      else bnd curproc (\<lambda>i s.
        if p_state (k_procs s ! i) = RUNNING then Panic ''sched running''
        else if c_IF (k_cpu s) then Panic ''sched interruptible''
        else Switch s) s)"

definition yield :: "unit kern" where
  "yield = andthen (acquire PtableLk) (bnd curproc (\<lambda>i.
     andthen (upd_proc i (\<lambda>p. p\<lparr>p_state := RUNNABLE\<rparr>)) (andthen sched (release PtableLk))))"

text \<open>\<open>sleep_tail l\<close>: what \<^verbatim>\<open>sleep\<close> does once it is running again.\<close>

definition sleep_tail :: "lockid \<Rightarrow> unit kern" where
  "sleep_tail l = bnd curproc (\<lambda>i. andthen (upd_proc i (\<lambda>p. p\<lparr>p_chan := NoChan\<rparr>))
     (if l \<noteq> PtableLk then andthen (release PtableLk) (acquire l) else ret ()))"

text \<open>The statements of \<^verbatim>\<open>sleep\<close> up to the switch to the scheduler.\<close>

definition sleep_stmts :: "chan \<Rightarrow> lockid \<Rightarrow> unit kern list" where
  "sleep_stmts c l = (if l \<noteq> PtableLk then [acquire PtableLk, release l] else []) @
     [bnd curproc (\<lambda>i. upd_proc i (\<lambda>p. p\<lparr>p_chan := c\<rparr>)),
      bnd curproc (\<lambda>i. upd_proc i (\<lambda>p. p\<lparr>p_state := SLEEPING\<rparr>)),
      sched]"

definition sleep :: "chan \<Rightarrow> lockid option \<Rightarrow> unit kern" where
  "sleep c lk s =
     (if c_proc (k_cpu s) = None then Panic ''sleep''
      else case lk of
        None \<Rightarrow> Panic ''sleep without lk''
      | Some l \<Rightarrow> andthen (run_stmts (sleep_stmts c l)) (sleep_tail l) s)"

text \<open>
  \<open>block_on c l\<close>: a \<^verbatim>\<open>sleep\<close> at the end of a loop body. The process gives up the CPU; when it
  runs again it does \<open>sleep_tail l\<close> and starts over at the head of its loop.
\<close>

definition block_on :: "chan \<Rightarrow> lockid \<Rightarrow> 'a kern" where
  "block_on c l s = (case sleep c (Some l) s of Switch s' \<Rightarrow> Switch s' | Panic m \<Rightarrow> Panic m
     | _ \<Rightarrow> Spin)"

definition kill :: "int \<Rightarrow> int kern" where
  "kill pid = with_lock PtableLk
     (bnd (gets (\<lambda>s. find_idx (\<lambda>p. p_pid p = pid) (k_procs s))) (\<lambda>r.
      case r of
        None \<Rightarrow> ret (-1)
      | Some i \<Rightarrow> andthen (upd_proc i (\<lambda>p. p\<lparr>p_killed := True,
            p_state := (if p_state p = SLEEPING then RUNNABLE else p_state p)\<rparr>)) (ret 0)))"

definition getpid :: "int kern" where
  "getpid = bnd curproc (\<lambda>i. gets (\<lambda>s. p_pid (k_procs s ! i)))"

section \<open>The scheduler\<close>

definition set_cpu_proc :: "nat option \<Rightarrow> unit kern" where
  "set_cpu_proc p = modify (\<lambda>s. s\<lparr>k_cpu := (k_cpu s)\<lparr>c_proc := p\<rparr>\<rparr>)"

text \<open>The body of the loop for a runnable entry \<open>j\<close>, up to the switch to it.\<close>

definition scheduler_dispatch :: "nat \<Rightarrow> unit kern" where
  "scheduler_dispatch j = andthen (set_cpu_proc (Some j)) (andthen (switchuvm j)
     (upd_proc j (\<lambda>p. p\<lparr>p_state := RUNNING\<rparr>)))"

text \<open>The rest of the body, when the dispatched process has switched back.\<close>

definition scheduler_return :: "unit kern" where
  "scheduler_return = andthen switchkvm (set_cpu_proc None)"

text \<open>
  The loop over the table. \<open>run u\<close> is the state when a process has switched back, after \<^verbatim>\<open>swtch\<close>
  left the scheduler in state \<open>u\<close>. The result has the state of each \<^verbatim>\<open>swtch\<close>, in order.
\<close>

definition scheduler_entry :: "(kernel \<Rightarrow> kernel) \<Rightarrow> nat \<Rightarrow> kernel list kern" where
  "scheduler_entry run j = bnd (gets (\<lambda>s. p_state (k_procs s ! j))) (\<lambda>st.
     if st \<noteq> RUNNABLE then ret []
     else andthen (scheduler_dispatch j) (bnd (gets (\<lambda>u. u)) (\<lambda>u.
       andthen (modify run) (andthen scheduler_return (ret [u])))))"

fun scheduler_pass :: "(kernel \<Rightarrow> kernel) \<Rightarrow> nat list \<Rightarrow> kernel list kern" where
  "scheduler_pass run [] = ret []"
| "scheduler_pass run (j # js) = bnd (scheduler_entry run j) (\<lambda>us.
     bnd (scheduler_pass run js) (\<lambda>vs. ret (us @ vs)))"

text \<open>One round of the endless loop.\<close>

definition sti :: "unit kern" where
  "sti = modify (\<lambda>s. s\<lparr>k_cpu := (k_cpu s)\<lparr>c_IF := True\<rparr>\<rparr>)"

definition scheduler_round :: "(kernel \<Rightarrow> kernel) \<Rightarrow> kernel list kern" where
  "scheduler_round run = andthen sti (andthen (acquire PtableLk)
     (bnd (scheduler_pass run [0..<NPROC]) (\<lambda>us. andthen (release PtableLk) (ret us))))"

section \<open>Effects\<close>

lemma length_wakeup1_procs [simp]: "length (wakeup1_procs c ps) = length ps"
  by (simp add: wakeup1_procs_def)

lemma nth_wakeup1_procs:
  "i < length ps \<Longrightarrow> wakeup1_procs c ps ! i = (if p_state (ps ! i) = SLEEPING \<and> p_chan (ps ! i) = c
     then (ps ! i)\<lparr>p_state := RUNNABLE\<rparr> else ps ! i)"
  by (simp add: wakeup1_procs_def)

lemma wakeup_eq:
  "lock_avail PtableLk s \<Longrightarrow>
   wakeup c s = Ret () (s\<lparr>k_procs := wakeup1_procs c (k_procs s)\<rparr>)"
  by (simp add: wakeup_def wakeup_stmts_def wakeup1_def lock_avail_def)

lemma wp_wakeup:
  "lock_avail PtableLk s \<Longrightarrow>
   wp (wakeup c) Q s = Q () (s\<lparr>k_procs := wakeup1_procs c (k_procs s)\<rparr>)"
  by (simp add: wp_def wakeup_eq)

lemma lock_avail_free: "lock_avail l s \<Longrightarrow> lock_free l s" "lock_avail l s \<Longrightarrow> cpu_ok (k_cpu s)"
  by (simp_all add: lock_avail_def)

lemma sched_switch:
  assumes "c_ncli (k_cpu s) = 0" "c_proc (k_cpu s) = Some i"
    and "p_state (k_procs s ! i) \<noteq> RUNNING"
  shows "sched (entered PtableLk s) = Switch (entered PtableLk s)"
  using assms by (simp add: sched_def)

lemma yield_switch:
  assumes "lock_avail PtableLk s" "c_ncli (k_cpu s) = 0" "c_proc (k_cpu s) = Some i"
    and "i < length (k_procs s)"
  shows "yield s = Switch (entered PtableLk (update_procs (upd_at i (\<lambda>p. p\<lparr>p_state := RUNNABLE\<rparr>)) s))"
  using assms by (simp add: yield_def lock_avail_free sched_switch)

lemma sleep_switch:
  assumes "lock_avail l s" "lock_avail PtableLk s" "c_ncli (k_cpu s) = 0"
    and "c_proc (k_cpu s) = Some i" "i < length (k_procs s)"
  shows "sleep c (Some l) (entered l s) = Switch (entered PtableLk
     (update_procs (upd_at i (\<lambda>p. p\<lparr>p_chan := c, p_state := SLEEPING\<rparr>)) s))"
proof (cases "l = PtableLk")
  case True
  then show ?thesis using assms by (simp add: sleep_def sleep_stmts_def sched_switch)
next
  case False
  have "acquire PtableLk (entered l s) = Ret () (entered PtableLk (entered l s))"
    using assms False by (simp add: lock_avail_free)
  moreover have "release l (entered PtableLk (entered l s)) = Ret () (entered PtableLk s)"
    using assms False by (simp add: release_under lock_avail_free)
  ultimately show ?thesis using assms False by (simp add: sleep_def sleep_stmts_def sched_switch)
qed

lemma sleep_tail_eq:
  assumes "lock_avail l s" "lock_avail PtableLk s" "c_proc (k_cpu s) = Some i"
  shows "sleep_tail l (entered PtableLk s)
     = Ret () (entered l (update_procs (upd_at i (\<lambda>p. p\<lparr>p_chan := NoChan\<rparr>)) s))"
  using assms by (cases "l = PtableLk") (simp_all add: sleep_tail_def lock_avail_free)

lemma kill_eq:
  assumes "lock_avail PtableLk s"
  shows "kill pid s = (case find_idx (\<lambda>p. p_pid p = pid) (k_procs s) of
      None \<Rightarrow> Ret (-1) s
    | Some i \<Rightarrow> Ret 0 (update_procs (upd_at i (\<lambda>p. p\<lparr>p_killed := True,
        p_state := (if p_state p = SLEEPING then RUNNABLE else p_state p)\<rparr>)) s))"
  unfolding kill_def using assms by (auto intro!: with_lock_eq split: option.splits)

text \<open>\<^verbatim>\<open>allocproc\<close>: no free slot, no memory for the stack, success.\<close>

lemma allocproc_full:
  assumes "lock_avail PtableLk s" "find_idx (\<lambda>p. p_state p = UNUSED) (k_procs s) = None"
  shows "allocproc s = Ret None s"
  using assms by (simp add: allocproc_def lock_avail_free)

definition embryo :: "int \<Rightarrow> proc \<Rightarrow> proc" where
  "embryo pid p = p\<lparr>p_state := EMBRYO, p_pid := pid, p_is_thread := False, p_tid := 0,
     p_numOfThread := 0\<rparr>"

lemma allocproc_slot:
  assumes "lock_avail PtableLk s" "lock_avail KmemLk s"
    and "find_idx (\<lambda>p. p_state p = UNUSED) (k_procs s) = Some i"
    and "kalloc (s\<lparr>k_procs := upd_at i (embryo (k_nextpid s)) (k_procs s),
      k_nextpid := k_nextpid s + 1\<rparr>) = Ret k s1"
  shows "allocproc s = (if k = 0
     then Ret None (update_procs (upd_at i (\<lambda>p. p\<lparr>p_state := UNUSED\<rparr>))
            (update_procs (upd_at i (\<lambda>p. p\<lparr>p_kstack := k\<rparr>)) s1))
     else Ret (Some i) (update_procs (upd_at i
            (\<lambda>p. p\<lparr>p_context := context0\<lparr>cx_eip := k_forkret s1\<rparr>\<rparr>))
            (update_procs (upd_at i (\<lambda>p. p\<lparr>p_kstack := k\<rparr>)) s1)))"
  using assms by (simp add: allocproc_def lock_avail_free embryo_def [abs_def])

definition new_slot :: "uint \<Rightarrow> int \<Rightarrow> uint \<Rightarrow> proc \<Rightarrow> proc" where
  "new_slot k pid eip p = p\<lparr>p_state := EMBRYO, p_pid := pid, p_is_thread := False, p_tid := 0,
     p_numOfThread := 0, p_kstack := k, p_context := context0\<lparr>cx_eip := eip\<rparr>\<rparr>"

lemma allocproc_ok:
  assumes "lock_avail PtableLk s" "pool s (k # ks)"
    and "find_idx (\<lambda>p. p_state p = UNUSED) (k_procs s) = Some i"
  shows "\<exists>s'. allocproc s = Ret (Some i) s' \<and> pool s' ks
    \<and> k_procs s' = upd_at i (new_slot k (k_nextpid s) (k_forkret s)) (k_procs s)
    \<and> s' = s\<lparr>k_procs := k_procs s', k_nextpid := k_nextpid s + 1,
         k_kmem := k_kmem s', k_numfreepages := k_numfreepages s - 1\<rparr>"
proof -
  let ?s1 = "s\<lparr>k_procs := upd_at i (embryo (k_nextpid s)) (k_procs s), k_nextpid := k_nextpid s + 1\<rparr>"
  have "pool ?s1 (k # ks)" using assms(2) by simp
  note al = pool_kalloc_Cons [OF this]
  have "k \<noteq> 0" using kpool.pages_usable [OF assms(2), of k] by simp
  moreover have "pool (s\<lparr>k_nextpid := k_nextpid s + 1, k_numfreepages := k_numfreepages s - 1,
      k_kmem := (k_kmem s)\<lparr>km_freelist := ld32 (k_mem s) k\<rparr>\<rparr>) ks"
    using al(2) by (subst (asm) pool_cong) simp_all
  ultimately show ?thesis
    using allocproc_slot [OF assms(1) pool_avail [OF assms(2)] assms(3) al(1)]
    by (simp add: new_slot_def [abs_def] embryo_def)
qed

lemma allocproc_nomem:
  assumes "lock_avail PtableLk s" "pool s []"
    and "find_idx (\<lambda>p. p_state p = UNUSED) (k_procs s) = Some i"
  shows "\<exists>s'. allocproc s = Ret None s' \<and> pool s' [] \<and> k_nextpid s' = k_nextpid s + 1
    \<and> p_state (k_procs s' ! i) = UNUSED \<and> (\<forall>j. j \<noteq> i \<longrightarrow> k_procs s' ! j = k_procs s ! j)"
proof -
  let ?s1 = "s\<lparr>k_procs := upd_at i (embryo (k_nextpid s)) (k_procs s), k_nextpid := k_nextpid s + 1\<rparr>"
  have "pool ?s1 []" using assms(2) by simp
  note al = pool_kalloc_Nil [OF this]
  have "i < length (k_procs s)" using find_idx_SomeD [OF assms(3)] by simp
  then show ?thesis
    using allocproc_slot [OF assms(1) pool_avail [OF assms(2)] assms(3) al(1)] assms(2) by simp
qed

section \<open>Sleeping and waking\<close>

lemma release_held:
  assumes "holding l s" "\<not> c_IF (k_cpu s)" "1 \<le> c_ncli (k_cpu s)"
  shows "\<exists>c. release l s = Ret () (s\<lparr>k_lks := (k_lks s)(l := (k_lks s l)\<lparr>l_cpu := None, l_locked := 0\<rparr>), k_cpu := c\<rparr>)
    \<and> c_id c = c_id (k_cpu s) \<and> c_ncli c = c_ncli (k_cpu s) - 1 \<and> c_proc c = c_proc (k_cpu s)
    \<and> (1 < c_ncli (k_cpu s) \<longrightarrow> \<not> c_IF c)"
proof -
  let ?c = "if c_ncli (k_cpu s) = 1 \<and> c_intena (k_cpu s) then (k_cpu s)\<lparr>c_ncli := 0, c_IF := True\<rparr>
    else (k_cpu s)\<lparr>c_ncli := c_ncli (k_cpu s) - 1\<rparr>"
  show ?thesis using assms by (intro exI [of _ ?c]) (auto simp: release_eq popcli_def Let_def)
qed

lemma scheduler_return_eq:
  "scheduler_return s = Ret () (s\<lparr>k_cpu := (k_cpu s)\<lparr>c_cr3 := v2p (k_kpgdir s), c_proc := None\<rparr>\<rparr>)"
  by (simp add: scheduler_return_def switchkvm_def set_cpu_proc_def)

text \<open>
  CPU \<open>a\<close> runs \<^verbatim>\<open>sleep(chan, lk)\<close> and then the scheduler, which finds nothing else to run and
  releases the table lock. Every other CPU takes \<^verbatim>\<open>lk\<close>, as whoever changes the awaited
  condition does, calls \<^verbatim>\<open>wakeup(chan)\<close> and releases \<^verbatim>\<open>lk\<close>.
\<close>

definition sleeper_code :: "chan \<Rightarrow> lockid \<Rightarrow> unit kern list" where
  "sleeper_code c l = sleep_stmts c l @ [scheduler_return, release PtableLk]"

definition waker_code :: "chan \<Rightarrow> lockid \<Rightarrow> unit kern list" where
  "waker_code c l = [acquire l] @ wakeup_stmts c @ [release l]"

definition sleep_code :: "nat \<Rightarrow> chan \<Rightarrow> lockid \<Rightarrow> nat \<Rightarrow> unit kern list" where
  "sleep_code a c l j = (if j = a then sleeper_code c l else waker_code c l)"

definition held_by :: "lockid \<Rightarrow> nat \<Rightarrow> smp \<Rightarrow> bool" where
  "held_by l j M \<longleftrightarrow> l_locked (k_lks (m_shared M) l) \<noteq> 0 \<and> l_cpu (k_lks (m_shared M) l) = Some j"

text \<open>Process \<open>i\<close> runs on CPU \<open>a\<close>, which holds \<^verbatim>\<open>lk\<close> and nothing else; all are about to begin.\<close>

definition sleep_start :: "nat \<Rightarrow> nat \<Rightarrow> lockid \<Rightarrow> smp \<Rightarrow> bool" where
  "sleep_start a i l M \<longleftrightarrow> l \<noteq> PtableLk \<and> held_by l a M \<and> lock_free PtableLk (m_shared M)
     \<and> i < length (k_procs (m_shared M)) \<and> c_proc (m_cpus M a) = Some i \<and> c_ncli (m_cpus M a) = 1 \<and> \<not> c_IF (m_cpus M a)
     \<and> (\<forall>j. m_pc M j = 0 \<and> c_id (m_cpus M j) = j \<and> 0 \<le> c_ncli (m_cpus M j))"

text \<open>How many locks a CPU holds at its next statement.\<close>

definition sleeper_depth :: "nat \<Rightarrow> int" where
  "sleeper_depth p = (if p = 1 then 2 else if p < 7 then 1 else 0)"

definition waker_depth :: "nat \<Rightarrow> int" where
  "waker_depth q = (if q = 2 \<or> q = 3 then 2 else if q = 1 \<or> q = 4 then 1 else 0)"

text \<open>What holds of the locks, of the CPUs and of the process, whatever the interleaving.\<close>

definition sleep_locks :: "nat \<Rightarrow> lockid \<Rightarrow> smp \<Rightarrow> bool" where
  "sleep_locks a l M \<longleftrightarrow>
     (m_pc M a \<le> 1 \<longrightarrow> held_by l a M) \<and> (\<forall>j. j \<noteq> a \<and> m_pc M j \<in> {1..4} \<longrightarrow> held_by l j M)
     \<and> (1 < m_pc M a \<and> (\<forall>j. j \<noteq> a \<longrightarrow> m_pc M j \<notin> {1..4}) \<longrightarrow> lock_free l (m_shared M))
     \<and> (m_pc M a \<in> {1..6} \<longrightarrow> held_by PtableLk a M) \<and> (\<forall>j. j \<noteq> a \<and> m_pc M j \<in> {2..3} \<longrightarrow> held_by PtableLk j M)
     \<and> (m_pc M a \<notin> {1..6} \<and> (\<forall>j. j \<noteq> a \<longrightarrow> m_pc M j \<notin> {2..3}) \<longrightarrow> lock_free PtableLk (m_shared M))"

definition sleep_cpus :: "nat \<Rightarrow> nat \<Rightarrow> smp \<Rightarrow> bool" where
  "sleep_cpus a i M \<longleftrightarrow> (\<forall>j. c_id (m_cpus M j) = j)
     \<and> m_pc M a \<le> 7 \<and> c_ncli (m_cpus M a) = sleeper_depth (m_pc M a) \<and> (m_pc M a < 7 \<longrightarrow> \<not> c_IF (m_cpus M a))
     \<and> (m_pc M a < 6 \<longrightarrow> c_proc (m_cpus M a) = Some i)
     \<and> (\<forall>j. j \<noteq> a \<longrightarrow> m_pc M j \<le> 5 \<and> waker_depth (m_pc M j) \<le> c_ncli (m_cpus M j)
         \<and> (m_pc M j \<in> {1..4} \<longrightarrow> \<not> c_IF (m_cpus M j)))
     \<and> (\<forall>j. j \<noteq> a \<and> 0 < m_pc M j \<longrightarrow> 1 < m_pc M a) \<and> (\<forall>j. j \<noteq> a \<and> 1 < m_pc M j \<longrightarrow> m_pc M a = 7)"

definition sleep_proc :: "nat \<Rightarrow> nat \<Rightarrow> chan \<Rightarrow> smp \<Rightarrow> bool" where
  "sleep_proc a i c M \<longleftrightarrow> i < length (k_procs (m_shared M))
     \<and> (3 \<le> m_pc M a \<longrightarrow> p_chan (k_procs (m_shared M) ! i) = c)
     \<and> (4 \<le> m_pc M a \<longrightarrow> p_state (k_procs (m_shared M) ! i) =
         (if \<exists>j. j \<noteq> a \<and> 3 \<le> m_pc M j then RUNNABLE else SLEEPING))"

lemma sleeper_code_nth:
  assumes "l \<noteq> PtableLk" "p < length (sleeper_code c l)"
  obtains "p = 0" "sleeper_code c l ! p = acquire PtableLk" | "p = 1" "sleeper_code c l ! p = release l"
  | "p = 2" "sleeper_code c l ! p = bnd curproc (\<lambda>i. upd_proc i (\<lambda>p. p\<lparr>p_chan := c\<rparr>))"
  | "p = 3" "sleeper_code c l ! p = bnd curproc (\<lambda>i. upd_proc i (\<lambda>p. p\<lparr>p_state := SLEEPING\<rparr>))"
  | "p = 4" "sleeper_code c l ! p = sched" | "p = 5" "sleeper_code c l ! p = scheduler_return"
  | "p = 6" "sleeper_code c l ! p = release PtableLk"
proof -
  have "p < 7" using assms by (simp add: sleeper_code_def sleep_stmts_def)
  then consider "p = 0" | "p = 1" | "p = 2" | "p = 3" | "p = 4" | "p = 5" | "p = 6" by linarith
  then show ?thesis by cases (rule that; use assms(1) in \<open>simp add: sleeper_code_def sleep_stmts_def\<close>)+
qed

lemma waker_code_nth:
  assumes "q < length (waker_code c l)"
  obtains "q = 0" "waker_code c l ! q = acquire l" | "q = 1" "waker_code c l ! q = acquire PtableLk"
  | "q = 2" "waker_code c l ! q = wakeup1 c" | "q = 3" "waker_code c l ! q = release PtableLk"
  | "q = 4" "waker_code c l ! q = release l"
proof -
  have "q < 5" using assms by (simp add: waker_code_def wakeup_stmts_def)
  then consider "q = 0" | "q = 1" | "q = 2" | "q = 3" | "q = 4" by linarith
  then show ?thesis by cases (rule that; simp add: waker_code_def wakeup_stmts_def)+
qed

lemma acquire_RetD: "acquire l s = Ret () t \<Longrightarrow> l_locked (k_lks s l) = 0 \<and> t = entered l s"
  by (auto simp: acquire_eq pushcli_def modify_def andthen_def bnd_def entered_def split: if_splits)

lemma acquire_no_switch: "acquire l s \<noteq> Switch t"
  by (simp add: acquire_eq pushcli_def modify_def andthen_def bnd_def)

lemma entered_lks: "k_lks (entered l s) = (k_lks s)(l := (k_lks s l)\<lparr>l_locked := 1, l_cpu := Some (c_id (k_cpu s))\<rparr>)"
  by (simp add: entered_def)

definition sleep_inv :: "nat \<Rightarrow> nat \<Rightarrow> chan \<Rightarrow> lockid \<Rightarrow> smp \<Rightarrow> bool" where
  "sleep_inv a i c l M \<longleftrightarrow> sleep_locks a l M \<and> sleep_cpus a i M \<and> sleep_proc a i c M"

lemmas sleep_defs = sleep_inv_def sleep_locks_def sleep_cpus_def sleep_proc_def held_by_def sleeper_depth_def waker_depth_def

lemma held_holding: "held_by l j M \<Longrightarrow> c_id (m_cpus M j) = j \<Longrightarrow> holding l (on_cpu M j)"
  by (simp add: held_by_def holding_def)

definition unlocked :: "lockid \<Rightarrow> cpu \<Rightarrow> kernel \<Rightarrow> kernel" where
  "unlocked l d s = s\<lparr>k_lks := (k_lks s)(l := (k_lks s l)\<lparr>l_cpu := None, l_locked := 0\<rparr>), k_cpu := d\<rparr>"

lemma release_on_cpu:
  assumes "held_by l j M" "c_id (m_cpus M j) = j" "\<not> c_IF (m_cpus M j)" "1 \<le> c_ncli (m_cpus M j)"
  shows "\<exists>d. release l (on_cpu M j) = Ret () (unlocked l d (on_cpu M j)) \<and> c_id d = j
    \<and> c_ncli d = c_ncli (m_cpus M j) - 1 \<and> c_proc d = c_proc (m_cpus M j) \<and> (1 < c_ncli (m_cpus M j) \<longrightarrow> \<not> c_IF d)"
  using release_held [OF held_holding [OF assms(1,2)]] assms(2-4) by (simp add: unlocked_def)

lemma sleep_inv_wakers:
  assumes "sleep_inv a i c l M" "j \<noteq> a"
  shows "m_pc M a \<le> 1 \<Longrightarrow> m_pc M j = 0" "m_pc M a < 7 \<Longrightarrow> m_pc M j \<le> 1"
proof -
  have "0 < m_pc M j \<longrightarrow> 1 < m_pc M a" "1 < m_pc M j \<longrightarrow> m_pc M a = 7"
    using assms unfolding sleep_inv_def sleep_cpus_def by blast+
  then show "m_pc M a \<le> 1 \<Longrightarrow> m_pc M j = 0" "m_pc M a < 7 \<Longrightarrow> m_pc M j \<le> 1" by linarith+
qed

lemma sleeper_runs:
  assumes inv: "sleep_inv a i c l M" and l: "l \<noteq> PtableLk" and p: "m_pc M a < length (sleeper_code c l)"
  shows "\<exists>t. ((sleeper_code c l ! m_pc M a) (on_cpu M a) = Ret () t \<or> (sleeper_code c l ! m_pc M a) (on_cpu M a) = Switch t)
    \<and> sleep_inv a i c l (moved a t M)"
proof -
  have L: "sleep_locks a l M" and C: "sleep_cpus a i M" and P: "sleep_proc a i c M" using inv by (simp_all add: sleep_inv_def)
  have id: "c_id (m_cpus M a) = a" using C by (simp add: sleep_cpus_def)
  note w = sleep_inv_wakers [OF inv]
  show ?thesis
    using l p
  proof (cases rule: sleeper_code_nth)
    case 1
    then have w0: "\<And>j. j \<noteq> a \<Longrightarrow> m_pc M j = 0" using w(1) by simp
    then have "lock_free PtableLk (m_shared M)" using L 1(1) by (simp add: sleep_locks_def)
    then have "acquire PtableLk (on_cpu M a) = Ret () (entered PtableLk (on_cpu M a))"
      by (intro acquire_free) (simp add: lock_free_def)
    moreover have "sleep_inv a i c l (moved a (entered PtableLk (on_cpu M a)) M)"
      using L C P 1(1) w0 id l
      by (auto simp: sleep_defs entered_lks)
    ultimately show ?thesis using 1(2) by auto
  next
    case 2
    then have w0: "\<And>j. j \<noteq> a \<Longrightarrow> m_pc M j = 0" using w(1) by simp
    have "held_by l a M" "c_ncli (m_cpus M a) = 2" "\<not> c_IF (m_cpus M a)"
      using L C 2(1) by (simp_all add: sleep_locks_def sleep_cpus_def sleeper_depth_def)
    then obtain d where "release l (on_cpu M a) = Ret () (unlocked l d (on_cpu M a))"
        "c_id d = a" "c_ncli d = 1" "c_proc d = c_proc (m_cpus M a)" "\<not> c_IF d"
      using release_on_cpu [of l a M] id by auto
    then show ?thesis using 2 L C P w0 l by (intro exI) (auto simp: sleep_defs lock_free_def unlocked_def)
  next
    case 3
    then have w1: "\<And>j. j \<noteq> a \<Longrightarrow> m_pc M j \<le> 1" using w(2) by simp
    have "c_proc (m_cpus M a) = Some i" using C 3(1) by (simp add: sleep_cpus_def)
    then show ?thesis using 3 L C P w1 by (intro exI) (auto simp: sleep_defs lock_free_def modify_def)
  next
    case 4
    then have w1: "\<And>j. j \<noteq> a \<Longrightarrow> m_pc M j \<le> 1" using w(2) by simp
    have "c_proc (m_cpus M a) = Some i" using C 4(1) by (simp add: sleep_cpus_def)
    then show ?thesis using 4 L C P w1 by (intro exI) (auto simp: sleep_defs lock_free_def modify_def)
  next
    case 5
    have "held_by PtableLk a M" using L 5(1) by (simp add: sleep_locks_def)
    then have h: "holding PtableLk (on_cpu M a)" using id by (rule held_holding)
    have "c_proc (m_cpus M a) = Some i" "c_ncli (m_cpus M a) = 1" "\<not> c_IF (m_cpus M a)"
      "p_state (k_procs (m_shared M) ! i) \<noteq> RUNNING"
      using C P 5(1) by (simp_all add: sleep_cpus_def sleep_proc_def sleeper_depth_def)
    then have "sched (on_cpu M a) = Switch (on_cpu M a)" using h by (simp add: sched_def)
    then show ?thesis using 5 L C P by (intro exI [of _ "on_cpu M a"]) (auto simp: sleep_defs lock_free_def)
  next
    case 6
    then show ?thesis using L C P by (intro exI) (auto simp: sleep_defs lock_free_def scheduler_return_eq)
  next
    case 7
    then have w1: "\<And>j. j \<noteq> a \<Longrightarrow> m_pc M j \<le> 1" using w(2) by simp
    have "held_by PtableLk a M" "c_ncli (m_cpus M a) = 1" "\<not> c_IF (m_cpus M a)"
      using L C 7(1) by (simp_all add: sleep_locks_def sleep_cpus_def sleeper_depth_def)
    then obtain d where "release PtableLk (on_cpu M a) = Ret () (unlocked PtableLk d (on_cpu M a))"
        "c_id d = a" "c_ncli d = 0"
      using release_on_cpu [of PtableLk a M] id by auto
    then show ?thesis using 7 L C P w1 l by (intro exI) (auto simp: sleep_defs lock_free_def unlocked_def)
  qed
qed

lemma waker_cpus:
  assumes "sleep_cpus a i M" "j \<noteq> a" "m_pc M j < 5" "c_id (k_cpu t) = j" "waker_depth (Suc (m_pc M j)) \<le> c_ncli (k_cpu t)"
    and "m_pc M j < 4 \<Longrightarrow> \<not> c_IF (k_cpu t)" "1 < m_pc M a" "0 < m_pc M j \<Longrightarrow> m_pc M a = 7"
  shows "sleep_cpus a i (moved j t M)"
  using assms unfolding sleep_cpus_def by auto

lemma waker_proc:
  assumes "sleep_proc a i c M" "j \<noteq> a" "k_procs t = k_procs (m_shared M)" "m_pc M j \<noteq> 2"
  shows "sleep_proc a i c (moved j t M)"
proof -
  have "3 \<le> m_pc (moved j t M) k \<longleftrightarrow> 3 \<le> m_pc M k" for k using assms(4) by (cases "k = j") auto
  moreover have "m_pc (moved j t M) a = m_pc M a" using assms(2) by simp
  ultimately show ?thesis using assms(1,3) unfolding sleep_proc_def by simp
qed

text \<open>The owner of each lock after a step of a waker.\<close>

lemma waker_locks:
  assumes "sleep_locks a l M" "j \<noteq> a" "1 < m_pc M a"
    and "\<And>k. k \<noteq> a \<Longrightarrow> k \<noteq> j \<Longrightarrow> m_pc M k \<in> {1..4} \<Longrightarrow> k_lks t l = k_lks (m_shared M) l"
    and "Suc (m_pc M j) \<in> {1..4} \<Longrightarrow> l_locked (k_lks t l) \<noteq> 0 \<and> l_cpu (k_lks t l) = Some j"
    and "Suc (m_pc M j) \<notin> {1..4} \<Longrightarrow> lock_free l t"
    and "m_pc M a \<in> {1..6} \<Longrightarrow> k_lks t PtableLk = k_lks (m_shared M) PtableLk"
    and "\<And>k. k \<noteq> a \<Longrightarrow> k \<noteq> j \<Longrightarrow> m_pc M k \<in> {2..3} \<Longrightarrow> k_lks t PtableLk = k_lks (m_shared M) PtableLk"
    and "Suc (m_pc M j) \<in> {2..3} \<Longrightarrow> l_locked (k_lks t PtableLk) \<noteq> 0 \<and> l_cpu (k_lks t PtableLk) = Some j"
    and "Suc (m_pc M j) \<notin> {2..3} \<Longrightarrow> m_pc M a \<notin> {1..6} \<Longrightarrow> lock_free PtableLk t \<or> (\<exists>k. k \<noteq> a \<and> k \<noteq> j \<and> m_pc M k \<in> {2..3})"
  shows "sleep_locks a l (moved j t M)"
proof -
  have x: "held_by l k M" if "k \<noteq> a" "m_pc M k \<in> {1..4}" for k using assms(1) that unfolding sleep_locks_def by blast
  have y: "held_by PtableLk k M" if "k \<noteq> a" "m_pc M k \<in> {2..3}" for k using assms(1) that unfolding sleep_locks_def by blast
  have z: "m_pc M a \<in> {1..6} \<Longrightarrow> held_by PtableLk a M" using assms(1) unfolding sleep_locks_def by blast
  let ?M = "moved j t M"
  have pa: "m_pc ?M a = m_pc M a" "m_pc ?M j = Suc (m_pc M j)" "\<And>k. k \<noteq> j \<Longrightarrow> m_pc ?M k = m_pc M k" using assms(2) by simp_all
  have 1: "held_by l k ?M" if "k \<noteq> a" "m_pc ?M k \<in> {1..4}" for k
    using that x [of k] assms(4) [of k] assms(5) pa by (cases "k = j") (simp_all add: held_by_def)
  have 2: "held_by PtableLk k ?M" if "k \<noteq> a" "m_pc ?M k \<in> {2..3}" for k
    using that y [of k] assms(8) [of k] assms(9) pa by (cases "k = j") (simp_all add: held_by_def)
  have 3: "held_by PtableLk a ?M" if "m_pc M a \<in> {1..6}" using that z assms(7) by (simp add: held_by_def)
  have 4: "lock_free l t" if "\<forall>k. k \<noteq> a \<longrightarrow> m_pc ?M k \<notin> {1..4}" using that assms(2,6) pa(2) by metis
  have 5: "lock_free PtableLk t" if "m_pc M a \<notin> {1..6}" "\<forall>k. k \<noteq> a \<longrightarrow> m_pc ?M k \<notin> {2..3}"
    using that assms(2,10) pa by metis
  show ?thesis unfolding sleep_locks_def pa(1) using assms(3) 1 2 3 4 5 by (auto simp: moved_simps(1))
qed

lemma sleep_invD:
  assumes "sleep_inv a i c l M"
  shows "sleep_locks a l M" "sleep_cpus a i M" "sleep_proc a i c M" "c_id (m_cpus M j) = j"
    "j \<noteq> a \<Longrightarrow> waker_depth (m_pc M j) \<le> c_ncli (m_cpus M j)" "j \<noteq> a \<Longrightarrow> m_pc M j \<in> {1..4} \<Longrightarrow> \<not> c_IF (m_cpus M j)"
    "j \<noteq> a \<Longrightarrow> 0 < m_pc M j \<Longrightarrow> 1 < m_pc M a" "j \<noteq> a \<Longrightarrow> 1 < m_pc M j \<Longrightarrow> m_pc M a = 7"
    "j \<noteq> a \<Longrightarrow> m_pc M j \<in> {1..4} \<Longrightarrow> held_by l j M" "j \<noteq> a \<Longrightarrow> m_pc M j \<in> {2..3} \<Longrightarrow> held_by PtableLk j M"
    "m_pc M a \<le> 1 \<Longrightarrow> held_by l a M" "m_pc M a \<in> {1..6} \<Longrightarrow> held_by PtableLk a M"
    "m_pc M a \<notin> {1..6} \<Longrightarrow> (\<forall>k. k \<noteq> a \<longrightarrow> m_pc M k \<notin> {2..3}) \<Longrightarrow> lock_free PtableLk (m_shared M)"
    "1 < m_pc M a \<Longrightarrow> (\<forall>k. k \<noteq> a \<longrightarrow> m_pc M k \<notin> {1..4}) \<Longrightarrow> lock_free l (m_shared M)" "m_pc M a \<le> 7"
  using assms unfolding sleep_inv_def sleep_locks_def sleep_cpus_def by blast+

lemma sleep_invI:
  "sleep_locks a l M \<Longrightarrow> sleep_cpus a i M \<Longrightarrow> sleep_proc a i c M \<Longrightarrow> sleep_inv a i c l M"
  by (simp add: sleep_inv_def)

lemma held_by_unique: "held_by l j M \<Longrightarrow> held_by l k M \<Longrightarrow> k = j"
  by (simp add: held_by_def)

text \<open>The five statements of a waker.\<close>

lemma waker_takes_lk:
  assumes inv: "sleep_inv a i c l M" and l: "l \<noteq> PtableLk" and j: "j \<noteq> a" and q: "m_pc M j = 0"
    and st: "acquire l (on_cpu M j) = Ret () t"
  shows "sleep_inv a i c l (moved j t M)"
proof (rule sleep_invI)
  note d = sleep_invD [OF inv]
  have t: "l_locked (k_lks (m_shared M) l) = 0" "t = entered l (on_cpu M j)"
    using acquire_RetD [OF st] by simp_all
  have p1: "1 < m_pc M a" using d(11) t(1) by (cases "m_pc M a \<le> 1") (simp_all add: held_by_def)
  have no: "m_pc M k \<notin> {1..4}" if "k \<noteq> a" for k using d(9) [OF that] t(1) by (auto simp: held_by_def)
  have kl: "k_lks t PtableLk = k_lks (m_shared M) PtableLk" using t(2) l by (simp add: entered_lks)
  show "sleep_locks a l (moved j t M)"
  proof (rule waker_locks [OF d(1) j p1])
    show "lock_free PtableLk t \<or> (\<exists>k. k \<noteq> a \<and> k \<noteq> j \<and> m_pc M k \<in> {2..3})" if "m_pc M a \<notin> {1..6}"
      using d(13) [OF that] no kl by (fastforce simp: lock_free_def)
    show "k_lks t l = k_lks (m_shared M) l" if "k \<noteq> a" "m_pc M k \<in> {1..4}" for k using no [OF that(1)] that(2) by blast
  qed (use no kl t(2) q d(4) in \<open>simp_all add: entered_lks\<close>)
  show "sleep_cpus a i (moved j t M)"
    using q t d(4) d(5) [OF j] p1 by (intro waker_cpus [OF d(2) j]) (simp_all add: waker_depth_def)
  show "sleep_proc a i c (moved j t M)" using q t by (intro waker_proc [OF d(3) j]) simp_all
qed

lemma waker_takes_table:
  assumes inv: "sleep_inv a i c l M" and l: "l \<noteq> PtableLk" and j: "j \<noteq> a" and q: "m_pc M j = 1"
    and st: "acquire PtableLk (on_cpu M j) = Ret () t"
  shows "sleep_inv a i c l (moved j t M)"
proof (rule sleep_invI)
  note d = sleep_invD [OF inv]
  have t: "l_locked (k_lks (m_shared M) PtableLk) = 0" "t = entered PtableLk (on_cpu M j)"
    using acquire_RetD [OF st] by simp_all
  have "m_pc M a \<notin> {1..6}" using d(12) t(1) by (auto simp: held_by_def)
  moreover have "1 < m_pc M a" "m_pc M a \<le> 7" using d(7) [OF j] d(15) q by simp_all
  ultimately have p7: "m_pc M a = 7" by simp
  have no: "m_pc M k \<notin> {2..3}" if "k \<noteq> a" for k using d(10) [OF that] t(1) by (auto simp: held_by_def)
  have kl: "k_lks t l = k_lks (m_shared M) l" using t(2) l by (simp add: entered_lks)
  show "sleep_locks a l (moved j t M)"
  proof (rule waker_locks [OF d(1) j])
    show "k_lks t PtableLk = k_lks (m_shared M) PtableLk" if "k \<noteq> a" "m_pc M k \<in> {2..3}" for k
      using no [OF that(1)] that(2) by blast
  qed (use kl t(2) q d(4) p7 d(9) [OF j] in \<open>simp_all add: entered_lks held_by_def\<close>)
  show "sleep_cpus a i (moved j t M)"
    using q t d(4) d(5) [OF j] p7 by (intro waker_cpus [OF d(2) j]) (simp_all add: waker_depth_def)
  show "sleep_proc a i c (moved j t M)" using q t by (intro waker_proc [OF d(3) j]) simp_all
qed

lemma waker_wakes:
  assumes inv: "sleep_inv a i c l M" and j: "j \<noteq> a" and q: "m_pc M j = 2" and st: "wakeup1 c (on_cpu M j) = Ret () t"
  shows "sleep_inv a i c l (moved j t M)"
proof (rule sleep_invI)
  note d = sleep_invD [OF inv]
  have t: "t = update_procs (wakeup1_procs c) (on_cpu M j)" using st by (simp add: wakeup1_def)
  have p7: "m_pc M a = 7" using d(8) [OF j] q by simp
  show "sleep_locks a l (moved j t M)"
    using t q p7 d(9,10) [OF j] by (intro waker_locks [OF d(1) j]) (simp_all add: held_by_def)
  show "sleep_cpus a i (moved j t M)"
    using q t d(4) d(5,6) [OF j] p7 by (intro waker_cpus [OF d(2) j]) (simp_all add: waker_depth_def)
  have i: "i < length (k_procs (m_shared M))" "p_chan (k_procs (m_shared M) ! i) = c"
    "p_state (k_procs (m_shared M) ! i) = SLEEPING \<or> p_state (k_procs (m_shared M) ! i) = RUNNABLE"
    using d(3) p7 by (auto simp: sleep_proc_def)
  have "\<exists>k. k \<noteq> a \<and> 3 \<le> m_pc (moved j t M) k" using j q by (intro exI [of _ j]) simp
  then show "sleep_proc a i c (moved j t M)" using t i by (auto simp: sleep_proc_def nth_wakeup1_procs)
qed

lemma waker_leaves_table:
  assumes inv: "sleep_inv a i c l M" and l: "l \<noteq> PtableLk" and j: "j \<noteq> a" and q: "m_pc M j = 3"
    and st: "release PtableLk (on_cpu M j) = Ret () t"
  shows "sleep_inv a i c l (moved j t M)"
proof (rule sleep_invI)
  note d = sleep_invD [OF inv]
  have h: "held_by PtableLk j M" "2 \<le> c_ncli (m_cpus M j)" "\<not> c_IF (m_cpus M j)" and p7: "m_pc M a = 7"
    using d(5,6,8,10) [OF j] q by (simp_all add: waker_depth_def)
  then obtain e where t: "t = unlocked PtableLk e (on_cpu M j)" "c_id e = j" "1 \<le> c_ncli e" "\<not> c_IF e"
    using release_on_cpu [of PtableLk j M] d(4) st by auto
  have u: "k = j" if "k \<noteq> a" "m_pc M k \<in> {2..3}" for k using held_by_unique [OF h(1) d(10) [OF that]] .
  show "sleep_locks a l (moved j t M)"
    using t q p7 d(9) [OF j] u l by (intro waker_locks [OF d(1) j]) (auto simp: held_by_def unlocked_def lock_free_def)
  show "sleep_cpus a i (moved j t M)"
    using q t p7 by (intro waker_cpus [OF d(2) j]) (simp_all add: waker_depth_def unlocked_def)
  show "sleep_proc a i c (moved j t M)" using q t by (intro waker_proc [OF d(3) j]) (simp_all add: unlocked_def)
qed

lemma waker_leaves_lk:
  assumes inv: "sleep_inv a i c l M" and l: "l \<noteq> PtableLk" and j: "j \<noteq> a" and q: "m_pc M j = 4"
    and st: "release l (on_cpu M j) = Ret () t"
  shows "sleep_inv a i c l (moved j t M)"
proof (rule sleep_invI)
  note d = sleep_invD [OF inv]
  have h: "held_by l j M" "1 \<le> c_ncli (m_cpus M j)" "\<not> c_IF (m_cpus M j)" and p7: "m_pc M a = 7"
    using d(5,6,8,9) [OF j] q by (simp_all add: waker_depth_def)
  then obtain e where t: "t = unlocked l e (on_cpu M j)" "c_id e = j" "0 \<le> c_ncli e"
    using release_on_cpu [of l j M] d(4) st by auto
  have u: "k = j" if "k \<noteq> a" "m_pc M k \<in> {1..4}" for k using held_by_unique [OF h(1) d(9) [OF that]] .
  then have "\<forall>k. k \<noteq> a \<longrightarrow> m_pc M k \<notin> {2..3}" using q by fastforce
  then have "lock_free PtableLk t" using d(13) p7 l t(1) by (simp add: unlocked_def lock_free_def)
  then show "sleep_locks a l (moved j t M)"
    using t q p7 u l by (intro waker_locks [OF d(1) j]) (auto simp: unlocked_def lock_free_def)
  show "sleep_cpus a i (moved j t M)"
    using q t p7 by (intro waker_cpus [OF d(2) j]) (simp_all add: waker_depth_def unlocked_def)
  show "sleep_proc a i c (moved j t M)" using q t by (intro waker_proc [OF d(3) j]) (simp_all add: unlocked_def)
qed

lemma wakeup1_no_switch: "wakeup1 c s \<noteq> Switch t"
  by (simp add: wakeup1_def modify_def)

lemma release_no_switch: "release l s \<noteq> Switch t"
  by (simp add: release_eq popcli_def Let_def)

lemma waker_moves:
  assumes "sleep_inv a i c l M" "l \<noteq> PtableLk" "j \<noteq> a" "m_pc M j < length (waker_code c l)"
    and "(waker_code c l ! m_pc M j) (on_cpu M j) = Ret () t \<or> (waker_code c l ! m_pc M j) (on_cpu M j) = Switch t"
  shows "sleep_inv a i c l (moved j t M)"
  using assms(4)
proof (cases rule: waker_code_nth)
  case 1
  then show ?thesis using assms acquire_no_switch waker_takes_lk by metis
next
  case 2
  then show ?thesis using assms acquire_no_switch waker_takes_table by metis
next
  case 3
  then show ?thesis using assms wakeup1_no_switch waker_wakes by metis
next
  case 4
  then show ?thesis using assms release_no_switch waker_leaves_table by metis
next
  case 5
  then show ?thesis using assms release_no_switch waker_leaves_lk by metis
qed

lemma sleep_inv_moved:
  assumes "sleep_inv a i c l M" "l \<noteq> PtableLk" "m_pc M j < length (sleep_code a c l j)"
    and "(sleep_code a c l j ! m_pc M j) (on_cpu M j) = Ret () t \<or> (sleep_code a c l j ! m_pc M j) (on_cpu M j) = Switch t"
  shows "sleep_inv a i c l (moved j t M)"
proof (cases "j = a")
  case True
  then obtain u where "(sleeper_code c l ! m_pc M a) (on_cpu M a) = Ret () u \<or> (sleeper_code c l ! m_pc M a) (on_cpu M a) = Switch u"
      "sleep_inv a i c l (moved a u M)"
    using sleeper_runs [OF assms(1,2)] assms(3) by (auto simp: sleep_code_def)
  moreover from this(1) have "u = t" using assms(4) True by (auto simp: sleep_code_def)
  ultimately show ?thesis using True by simp
next
  case False
  then show ?thesis using waker_moves [OF assms(1,2) False] assms(3,4) by (simp add: sleep_code_def)
qed

lemma sleep_inv_reachable:
  assumes "(smp_step (sleep_code a c l) {})\<^sup>*\<^sup>* M0 M" "sleep_start a i l M0"
  shows "sleep_inv a i c l M"
  using assms(1)
proof induction
  case base
  then show ?case using assms(2) by (simp add: sleep_start_def sleep_defs)
next
  case (step M M')
  have l: "l \<noteq> PtableLk" using assms(2) by (simp add: sleep_start_def)
  from step.hyps(2) show ?case by cases (use sleep_inv_moved [OF step.IH l] in auto)
qed

text \<open>No deadlock: as long as some CPU has statements left, some CPU can make a step.\<close>

lemma waker_can_move:
  assumes inv: "sleep_inv a i c l M" and l: "l \<noteq> PtableLk" and p7: "m_pc M a = 7" and j: "j \<noteq> a" "m_pc M j \<in> {1..4}"
  shows "\<exists>t. (waker_code c l ! m_pc M j) (on_cpu M j) = Ret () t"
proof -
  note d = sleep_invD [OF inv]
  have q: "m_pc M j < length (waker_code c l)" using j(2) by (simp add: waker_code_def wakeup_stmts_def)
  have h: "held_by l j M" "\<not> c_IF (m_cpus M j)" "1 \<le> c_ncli (m_cpus M j)"
    using d(6,9) [OF j] d(5) [OF j(1)] j(2) by (auto simp: waker_depth_def split: if_splits)
  show ?thesis
    using q
  proof (cases rule: waker_code_nth)
    case 2
    have "m_pc M k \<notin> {2..3}" if "k \<noteq> a" for k
      using held_by_unique [OF h(1) d(9) [OF that]] 2(1) by (cases "k = j") auto
    then have "lock_free PtableLk (on_cpu M j)" using d(13) p7 by (simp add: lock_free_def)
    then show ?thesis using 2(2) by simp
  next
    case 3
    then show ?thesis by (simp add: wakeup1_def)
  next
    case 4
    then show ?thesis using release_on_cpu [OF d(10) [OF j(1)] d(4) h(2,3)] by auto
  next
    case 5
    then show ?thesis using release_on_cpu [OF h(1) d(4) h(2,3)] by auto
  qed (use j(2) in auto)
qed

lemma sleep_progress:
  assumes inv: "sleep_inv a i c l M" and l: "l \<noteq> PtableLk" and k: "m_pc M k < length (sleep_code a c l k)"
  shows "\<exists>M'. smp_step (sleep_code a c l) {} M M'"
proof -
  note d = sleep_invD [OF inv]
  have len: "length (sleeper_code c l) = 7" "length (waker_code c l) = 5"
    using l by (simp_all add: sleeper_code_def sleep_stmts_def waker_code_def wakeup_stmts_def)
  consider "m_pc M a < 7" | j where "m_pc M a = 7" "j \<noteq> a" "m_pc M j \<in> {1..4}"
    | "m_pc M a = 7" "\<forall>j. j \<noteq> a \<longrightarrow> m_pc M j \<notin> {1..4}"
    using d(15) by (meson le_neq_implies_less)
  then show ?thesis
  proof cases
    case 1
    then show ?thesis using sleeper_runs [OF inv l] len smp_step.intros(1,2) [of M a "sleep_code a c l"]
      by (fastforce simp: sleep_code_def)
  next
    case 2
    then show ?thesis using waker_can_move [OF inv l 2] len smp_step.run [of M j "sleep_code a c l"]
      by (fastforce simp: sleep_code_def)
  next
    case 3
    then have "k \<noteq> a" "m_pc M k = 0" using k len by (auto simp: sleep_code_def split: if_splits)
    moreover have "lock_free l (on_cpu M k)" using d(14) 3 by (simp add: lock_free_def)
    ultimately show ?thesis using k smp_step.run [of M k "sleep_code a c l"]
      by (fastforce simp: sleep_code_def waker_code_def)
  qed
qed

text \<open>
  C14: no lost wake-up. A process calls \<^verbatim>\<open>sleep(chan, lk)\<close> while it holds \<^verbatim>\<open>lk\<close>; any number of other
  CPUs take \<^verbatim>\<open>lk\<close>, call \<^verbatim>\<open>wakeup(chan)\<close> and release \<^verbatim>\<open>lk\<close>; their statements interleave in any way.
  As soon as one of them is done, the process is RUNNABLE: no wake-up falls between the release
  of \<^verbatim>\<open>lk\<close> and the process being asleep. Before any of them has begun, once it has given up its
  CPU, it is SLEEPING on \<^verbatim>\<open>chan\<close>. The CPUs never deadlock: while one has statements left, some CPU can go on. When
  the process runs again it has \<^verbatim>\<open>lk\<close> back and no channel.
\<close>

theorem sleep_no_lost_wakeup:
  assumes "sleep_start a i l M0" "(smp_step (sleep_code a c l) {})\<^sup>*\<^sup>* M0 M"
  shows "(\<forall>j. j \<noteq> a \<and> m_pc M j = length (waker_code c l) \<longrightarrow> p_state (k_procs (m_shared M) ! i) = RUNNABLE)
    \<and> (m_pc M a = length (sleeper_code c l) \<and> (\<forall>j. j \<noteq> a \<longrightarrow> m_pc M j = 0) \<longrightarrow>
        p_state (k_procs (m_shared M) ! i) = SLEEPING \<and> p_chan (k_procs (m_shared M) ! i) = c)
    \<and> ((\<exists>j. m_pc M j < length (sleep_code a c l j)) \<longrightarrow> (\<exists>M'. smp_step (sleep_code a c l) {} M M'))
    \<and> (\<forall>u. lock_avail l u \<and> lock_avail PtableLk u \<and> c_proc (k_cpu u) = Some i \<and> i < length (k_procs u) \<longrightarrow>
        (\<exists>v. sleep_tail l (entered PtableLk u) = Ret () v \<and> holding l v \<and> p_chan (k_procs v ! i) = NoChan))"
proof -
  have l: "l \<noteq> PtableLk" using assms(1) by (simp add: sleep_start_def)
  have inv: "sleep_inv a i c l M" by (rule sleep_inv_reachable [OF assms(2,1)])
  have len: "length (sleeper_code c l) = 7" "length (waker_code c l) = 5"
    using l by (simp_all add: sleeper_code_def sleep_stmts_def waker_code_def wakeup_stmts_def)
  have P: "sleep_proc a i c M" by (rule sleep_invD(3) [OF inv])
  have "p_state (k_procs (m_shared M) ! i) = RUNNABLE" if "j \<noteq> a" "m_pc M j = 5" for j
  proof -
    have "m_pc M a = 7" "\<exists>j. j \<noteq> a \<and> 3 \<le> m_pc M j" using sleep_invD(8) [OF inv that(1)] that by auto
    then show ?thesis using P by (simp add: sleep_proc_def)
  qed
  moreover have "p_state (k_procs (m_shared M) ! i) = SLEEPING \<and> p_chan (k_procs (m_shared M) ! i) = c"
    if "m_pc M a = 7" "\<forall>j. j \<noteq> a \<longrightarrow> m_pc M j = 0"
    using P that by (auto simp: sleep_proc_def)
  moreover have "(\<exists>j. m_pc M j < length (sleep_code a c l j)) \<longrightarrow> (\<exists>M'. smp_step (sleep_code a c l) {} M M')"
    using sleep_progress [OF inv l] by blast
  moreover have "\<exists>v. sleep_tail l (entered PtableLk u) = Ret () v \<and> holding l v \<and> p_chan (k_procs v ! i) = NoChan"
    if "lock_avail l u" "lock_avail PtableLk u" "c_proc (k_cpu u) = Some i" "i < length (k_procs u)" for u
    using sleep_tail_eq [OF that(1-3)] that(4) by simp
  ultimately show ?thesis unfolding len by blast
qed

text \<open>
  \<^verbatim>\<open>wakeup(chan)\<close> makes RUNNABLE exactly the processes that sleep on \<^verbatim>\<open>chan\<close> and leaves
  every other entry as it is.
\<close>

theorem wakeup_exact:
  assumes "lock_avail PtableLk s" "i < length (k_procs s)"
  shows "\<exists>t. wakeup c s = Ret () t
    \<and> k_procs t ! i = (if p_state (k_procs s ! i) = SLEEPING \<and> p_chan (k_procs s ! i) = c
         then (k_procs s ! i)\<lparr>p_state := RUNNABLE\<rparr> else k_procs s ! i)
    \<and> t = s\<lparr>k_procs := k_procs t\<rparr>"
  using assms by (simp add: wakeup_eq nth_wakeup1_procs)

section \<open>Killing\<close>

text \<open>
  C25: \<^verbatim>\<open>kill(0)\<close> succeeds on an UNUSED slot. A freed slot has pid 0, so \<^verbatim>\<open>kill(0)\<close> marks the
  first unused slot as killed; \<^verbatim>\<open>allocproc\<close> does not clear the mark, and the process created
  there next starts out killed.
\<close>

theorem kill_zero_poisons_slot:
  assumes "lock_avail PtableLk s" "pool s (k # ks)" "i < length (k_procs s)"
    and "p_state (k_procs s ! i) = UNUSED" "p_pid (k_procs s ! i) = 0"
    and "\<forall>j<i. p_pid (k_procs s ! j) \<noteq> 0 \<and> p_state (k_procs s ! j) \<noteq> UNUSED"
  shows "\<exists>s1 s2. kill 0 s = Ret 0 s1 \<and> allocproc s1 = Ret (Some i) s2 \<and> p_killed (k_procs s2 ! i)"
proof -
  let ?s1 = "update_procs (upd_at i (\<lambda>p. p\<lparr>p_killed := True,
        p_state := (if p_state p = SLEEPING then RUNNABLE else p_state p)\<rparr>)) s"
  have "find_idx (\<lambda>p. p_pid p = 0) (k_procs s) = Some i"
    using assms by (intro find_idx_SomeI) auto
  then have k: "kill 0 s = Ret 0 ?s1" using assms(1) by (simp add: kill_eq)
  have "find_idx (\<lambda>p. p_state p = UNUSED) (k_procs ?s1) = Some i"
    using assms by (intro find_idx_SomeI) auto
  moreover have "lock_avail PtableLk ?s1" "pool ?s1 (k # ks)" using assms(1,2) by simp_all
  ultimately obtain s2 where s2: "allocproc ?s1 = Ret (Some i) s2"
    "k_procs s2 = upd_at i (new_slot k (k_nextpid ?s1) (k_forkret ?s1)) (k_procs ?s1)"
    using allocproc_ok by blast
  have "p_killed (k_procs s2 ! i)"
    using assms(3) by (simp add: s2(2) new_slot_def)
  then show ?thesis using k s2(1) by blast
qed

section \<open>One pass of the scheduler\<close>

text \<open>
  \<open>sched_good\<close>: what holds in the scheduler's loop. The table has its size, every RUNNABLE entry
  has a page table, and the CPU holds the table lock and no other.
\<close>

definition sched_good :: "kernel \<Rightarrow> bool" where
  "sched_good s \<longleftrightarrow> length (k_procs s) = NPROC \<and> holding PtableLk s \<and> c_ncli (k_cpu s) = 1 \<and> \<not> c_IF (k_cpu s)
     \<and> (\<forall>i<NPROC. p_state (k_procs s ! i) = RUNNABLE \<longrightarrow> p_pgdir (k_procs s ! i) \<noteq> 0)"

lemma switchuvm_eq:
  assumes "cpu_ok (k_cpu s)" "c_proc (k_cpu s) = Some j" "p_pgdir (k_procs s ! j) \<noteq> 0"
  shows "switchuvm j s = Ret () (s\<lparr>k_cpu := (k_cpu s)\<lparr>
    c_esp0 := p_kstack (k_procs s ! j) + KSTACKSIZE, c_cr3 := v2p (p_pgdir (k_procs s ! j))\<rparr>\<rparr>)"
  using assms
  by (cases "k_cpu s") (auto simp: switchuvm_def pushcli_def popcli_def pushcli_cpu_def cpu_ok_def Let_def)

lemma cpu_ok_updates [simp]:
  "cpu_ok (c\<lparr>c_proc := p\<rparr>) = cpu_ok c" "cpu_ok (c\<lparr>c_cr3 := a\<rparr>) = cpu_ok c"
  "cpu_ok (c\<lparr>c_esp0 := a\<rparr>) = cpu_ok c"
  by (simp_all add: cpu_ok_def)

lemma lock_avail_cpu [simp]:
  "lock_avail l (s\<lparr>k_cpu := (k_cpu s)\<lparr>c_proc := p\<rparr>\<rparr>) = lock_avail l s"
  by (simp add: lock_avail_def)

lemma sched_good_cpu: "sched_good s \<Longrightarrow> cpu_ok (k_cpu s)"
  by (simp add: sched_good_def cpu_ok_def)

lemma scheduler_dispatch_eq:
  assumes "sched_good s" "j < NPROC" "p_state (k_procs s ! j) = RUNNABLE"
  shows "scheduler_dispatch j s = Ret () (s\<lparr>k_cpu := (k_cpu s)\<lparr>c_proc := Some j,
      c_esp0 := p_kstack (k_procs s ! j) + KSTACKSIZE, c_cr3 := v2p (p_pgdir (k_procs s ! j))\<rparr>,
      k_procs := upd_at j (\<lambda>p. p\<lparr>p_state := RUNNING\<rparr>) (k_procs s)\<rparr>)"
proof -
  have "p_pgdir (k_procs s ! j) \<noteq> 0" "cpu_ok (k_cpu s)" using assms sched_good_cpu by (auto simp: sched_good_def)
  then show ?thesis by (simp add: scheduler_dispatch_def set_cpu_proc_def switchuvm_eq)
qed

lemma sched_good_cpu_upd:
  "sched_good (s\<lparr>k_cpu := (k_cpu s)\<lparr>c_cr3 := a, c_proc := x\<rparr>\<rparr>) = sched_good s"
  by (simp add: sched_good_def holding_def)

text \<open>
  \<open>dispatched j u\<close>: in \<open>u\<close> the CPU is about to run process \<open>j\<close>, in its address space and on its stack.
  \<open>undisturbed run k\<close>: no other process's turn takes entry \<open>k\<close> out of the RUNNABLE state.
\<close>

definition dispatched :: "nat \<Rightarrow> kernel \<Rightarrow> bool" where
  "dispatched j u \<longleftrightarrow> c_proc (k_cpu u) = Some j \<and> p_state (k_procs u ! j) = RUNNING
     \<and> c_cr3 (k_cpu u) = v2p (p_pgdir (k_procs u ! j)) \<and> c_esp0 (k_cpu u) = p_kstack (k_procs u ! j) + KSTACKSIZE
     \<and> holding PtableLk u"

definition undisturbed :: "(kernel \<Rightarrow> kernel) \<Rightarrow> nat \<Rightarrow> bool" where
  "undisturbed run k \<longleftrightarrow> (\<forall>u. c_proc (k_cpu u) \<noteq> Some k \<and> p_state (k_procs u ! k) = RUNNABLE
     \<longrightarrow> p_state (k_procs (run u) ! k) = RUNNABLE)"

text \<open>One entry: skipped, or dispatched; an undisturbed runnable entry stays so in other entries' turns.\<close>

lemma scheduler_entry_runs:
  assumes "sched_good s" "j < NPROC" and run: "\<And>u. sched_good u \<Longrightarrow> sched_good (run u)"
  shows "\<exists>us t. scheduler_entry run j s = Ret us t \<and> sched_good t
    \<and> (us = [] \<and> p_state (k_procs s ! j) \<noteq> RUNNABLE \<or> (\<exists>u. us = [u] \<and> dispatched j u))
    \<and> (\<forall>k. k \<noteq> j \<and> undisturbed run k \<and> p_state (k_procs s ! k) = RUNNABLE \<longrightarrow> p_state (k_procs t ! k) = RUNNABLE)"
proof (cases "p_state (k_procs s ! j) = RUNNABLE")
  case False
  then show ?thesis using assms(1) by (simp add: scheduler_entry_def)
next
  case True
  define u where "u = s\<lparr>k_cpu := (k_cpu s)\<lparr>c_proc := Some j,
      c_esp0 := p_kstack (k_procs s ! j) + KSTACKSIZE, c_cr3 := v2p (p_pgdir (k_procs s ! j))\<rparr>,
      k_procs := upd_at j (\<lambda>p. p\<lparr>p_state := RUNNING\<rparr>) (k_procs s)\<rparr>"
  have l: "j < length (k_procs s)" using assms(1,2) by (simp add: sched_good_def)
  have d: "scheduler_dispatch j s = Ret () u" using scheduler_dispatch_eq [OF assms(1,2) True] by (simp add: u_def)
  have g: "sched_good u" using assms(1) by (auto simp: u_def sched_good_def holding_def nth_upd_at)
  have "dispatched j u" using l assms(1) by (auto simp: u_def dispatched_def sched_good_def holding_def)
  moreover define t where "t = (run u)\<lparr>k_cpu := (k_cpu (run u))\<lparr>c_cr3 := v2p (k_kpgdir (run u)), c_proc := None\<rparr>\<rparr>"
  moreover have "sched_good t" using run [OF g] by (simp add: t_def sched_good_cpu_upd)
  moreover have "p_state (k_procs t ! k) = RUNNABLE"
    if "k \<noteq> j" "undisturbed run k" "p_state (k_procs s ! k) = RUNNABLE" for k
  proof -
    have "c_proc (k_cpu u) \<noteq> Some k" "p_state (k_procs u ! k) = RUNNABLE" using that by (simp_all add: u_def)
    then show ?thesis using that(2) by (simp add: t_def undisturbed_def)
  qed
  moreover have "scheduler_entry run j s = Ret [u] t"
    using True d by (simp add: scheduler_entry_def scheduler_return_eq t_def)
  ultimately show ?thesis by blast
qed

lemma scheduler_pass_runs:
  assumes "sched_good s" "\<forall>j\<in>set js. j < NPROC" "sorted_wrt (<) js"
    and run: "\<And>u. sched_good u \<Longrightarrow> sched_good (run u)"
  shows "\<exists>us t ds. scheduler_pass run js s = Ret us t \<and> sched_good t \<and> list_all2 dispatched ds us \<and> sorted_wrt (<) ds
    \<and> set ds \<subseteq> set js
    \<and> (\<forall>k\<in>set js. undisturbed run k \<and> p_state (k_procs s ! k) = RUNNABLE \<longrightarrow> k \<in> set ds)"
  using assms(1-3)
proof (induction js arbitrary: s)
  case (Cons j js)
  obtain us t where e: "scheduler_entry run j s = Ret us t" "sched_good t"
      "us = [] \<and> p_state (k_procs s ! j) \<noteq> RUNNABLE \<or> (\<exists>u. us = [u] \<and> dispatched j u)"
      "\<forall>k. k \<noteq> j \<and> undisturbed run k \<and> p_state (k_procs s ! k) = RUNNABLE \<longrightarrow> p_state (k_procs t ! k) = RUNNABLE"
    using scheduler_entry_runs [of s j run] Cons.prems(1,2) run by auto
  obtain vs t' ds where r: "scheduler_pass run js t = Ret vs t'" "sched_good t'" "list_all2 dispatched ds vs"
      "sorted_wrt (<) ds" "set ds \<subseteq> set js"
      "\<forall>k\<in>set js. undisturbed run k \<and> p_state (k_procs t ! k) = RUNNABLE \<longrightarrow> k \<in> set ds"
    using Cons.IH [OF e(2)] Cons.prems by auto
  have p: "scheduler_pass run (j # js) s = Ret (us @ vs) t'" using e(1) r(1) by simp
  have o: "k \<in> set ds" if "k \<in> set js" "undisturbed run k" "p_state (k_procs s ! k) = RUNNABLE" for k
    using that e(4) r(6) Cons.prems(3) by auto
  from e(3) show ?case
  proof
    assume n: "us = [] \<and> p_state (k_procs s ! j) \<noteq> RUNNABLE"
    then show ?thesis using p r(2-5) o by (intro exI [of _ vs] exI [of _ t'] exI [of _ ds]) auto
  next
    assume "\<exists>u. us = [u] \<and> dispatched j u"
    then obtain u where "us = [u]" "dispatched j u" by blast
    then show ?thesis using p r(2-5) o Cons.prems(3)
      by (intro exI [of _ "u # vs"] exI [of _ t'] exI [of _ "j # ds"]) auto
  qed
qed simp

text \<open>
  C15: one round of the scheduler is fair. Whatever the processes do in their turns, as long as
  each turn comes back with the table well formed and its lock held, a round switches to
  processes in table order, each at most once, and each switch is made with that process
  current and RUNNING, in its address space and on its kernel stack. Every process that was
  RUNNABLE at the start and that no other process's turn takes out of that state gets its
  turn. The table lock is free again at the end of the round.
\<close>

theorem scheduler_round_fair:
  assumes "length (k_procs s) = NPROC" "lock_free PtableLk s" "c_ncli (k_cpu s) = 0"
    and "\<forall>i<NPROC. p_state (k_procs s ! i) = RUNNABLE \<longrightarrow> p_pgdir (k_procs s ! i) \<noteq> 0"
    and "\<And>u. sched_good u \<Longrightarrow> sched_good (run u)"
  shows "\<exists>us t ds. scheduler_round run s = Ret us t \<and> list_all2 dispatched ds us
    \<and> sorted_wrt (<) ds \<and> (\<forall>d\<in>set ds. d < NPROC)
    \<and> (\<forall>k<NPROC. p_state (k_procs s ! k) = RUNNABLE \<and> undisturbed run k \<longrightarrow> k \<in> set ds)
    \<and> lock_free PtableLk t \<and> c_ncli (k_cpu t) = 0"
proof -
  let ?s = "entered PtableLk (s\<lparr>k_cpu := (k_cpu s)\<lparr>c_IF := True\<rparr>\<rparr>)"
  have g: "sched_good ?s" using assms(1,3,4) by (simp add: sched_good_def)
  obtain us t ds where r: "scheduler_pass run [0..<NPROC] ?s = Ret us t" "sched_good t" "list_all2 dispatched ds us"
      "sorted_wrt (<) ds" "set ds \<subseteq> set [0..<NPROC]" "\<forall>k\<in>set [0..<NPROC]. undisturbed run k \<and> p_state (k_procs ?s ! k) = RUNNABLE \<longrightarrow> k \<in> set ds"
    using scheduler_pass_runs [OF g, of "[0..<NPROC]" run] assms(5) by auto
  obtain c where c: "release PtableLk t = Ret () (t\<lparr>k_lks := (k_lks t)(PtableLk :=
      (k_lks t PtableLk)\<lparr>l_cpu := None, l_locked := 0\<rparr>), k_cpu := c\<rparr>)" "c_ncli c = 0"
    using release_held [of PtableLk t] r(2) by (auto simp: sched_good_def)
  have "\<forall>d\<in>set ds. d < NPROC" using r(5) by auto
  moreover have "scheduler_round run s = Ret us (t\<lparr>k_lks := (k_lks t)(PtableLk :=
      (k_lks t PtableLk)\<lparr>l_cpu := None, l_locked := 0\<rparr>), k_cpu := c\<rparr>)"
    using r(1) c(1) assms(2) by (simp add: scheduler_round_def sti_def)
  ultimately show ?thesis using r(3,4,6) c(2)
    by (intro exI [of _ us] exI [of _ "t\<lparr>k_lks := (k_lks t)(PtableLk := (k_lks t PtableLk)\<lparr>l_cpu := None, l_locked := 0\<rparr>), k_cpu := c\<rparr>"]
        exI [of _ ds]) (auto simp: lock_free_def)
qed

section \<open>Examples\<close>

text \<open>Two processes, the first running with a page table, the second runnable.\<close>

definition two_procs :: kernel where
  "two_procs = boot\<lparr>k_cpu := (k_cpu boot)\<lparr>c_proc := Some 0\<rparr>,
     k_procs := [proc0\<lparr>p_state := RUNNING, p_pid := 1, p_pgdir := 0x80400000\<rparr>,
       proc0\<lparr>p_state := RUNNABLE, p_pid := 2, p_pgdir := 0x80401000\<rparr>] @ replicate 62 proc0\<rparr>"

lemma two_procs_simps [simp]:
  "lock_avail l two_procs" "c_ncli (k_cpu two_procs) = 0" "c_proc (k_cpu two_procs) = Some 0"
  "length (k_procs two_procs) = 64"
  "p_state (k_procs two_procs ! 0) = RUNNING" "p_state (k_procs two_procs ! Suc 0) = RUNNABLE"
  by (simp_all add: two_procs_def)

text \<open>Process 0 runs on CPU 0, which holds the lock of the clock; the other CPUs hold nothing.\<close>

definition sleep_smp :: smp where
  "sleep_smp = \<lparr>m_shared = entered TicksLk two_procs,
     m_cpus = (\<lambda>j. if j = 0 then k_cpu (entered TicksLk two_procs) else (k_cpu boot)\<lparr>c_id := j\<rparr>), m_pc = (\<lambda>_. 0)\<rparr>"

lemma sleep_smp_start: "sleep_start 0 0 TicksLk sleep_smp"
proof -
  have "c_id (k_cpu two_procs) = 0" "0 \<le> c_ncli (k_cpu boot)" by (simp_all add: two_procs_def boot_def)
  moreover have "lock_free PtableLk two_procs" using two_procs_simps(1) by (rule lock_avail_free)
  ultimately show ?thesis by (simp add: sleep_start_def sleep_smp_def held_by_def entered_lks)
qed

lemma sleeper_finishes:
  assumes "sleep_inv a i c l M" "l \<noteq> PtableLk"
  shows "\<exists>M'. (smp_step (sleep_code a c l) {})\<^sup>*\<^sup>* M M' \<and> sleep_inv a i c l M' \<and> m_pc M' a = 7
    \<and> (\<forall>j. j \<noteq> a \<longrightarrow> m_pc M' j = m_pc M j)"
  using assms(1)
proof (induction "7 - m_pc M a" arbitrary: M rule: less_induct)
  case less
  have len: "length (sleeper_code c l) = 7" using assms(2) by (simp add: sleeper_code_def sleep_stmts_def)
  show ?case
  proof (cases "m_pc M a < 7")
    case True
    then obtain t where "(sleeper_code c l ! m_pc M a) (on_cpu M a) = Ret () t \<or> (sleeper_code c l ! m_pc M a) (on_cpu M a) = Switch t"
        and inv: "sleep_inv a i c l (moved a t M)" using sleeper_runs [OF less.prems assms(2)] len by auto
    then have "smp_step (sleep_code a c l) {} M (moved a t M)"
      using True len smp_step.intros(1,2) [of M a "sleep_code a c l" t "{}"] by (auto simp: sleep_code_def)
    moreover obtain M' where "(smp_step (sleep_code a c l) {})\<^sup>*\<^sup>* (moved a t M) M'" "sleep_inv a i c l M'" "m_pc M' a = 7"
        "\<forall>j. j \<noteq> a \<longrightarrow> m_pc M' j = m_pc M j"
      using less.hyps [OF _ inv] diff_less_mono2 [OF lessI True] True by auto
    ultimately show ?thesis by (meson converse_rtranclp_into_rtranclp)
  next
    case False
    then have "m_pc M a = 7" using sleep_invD(15) [OF less.prems] by simp
    then show ?thesis using less.prems by blast
  qed
qed

lemma waker_finishes:
  assumes "sleep_inv a i c l M" "l \<noteq> PtableLk" "m_pc M a = 7" "j \<noteq> a" "m_pc M j \<in> {1..5}"
  shows "\<exists>M'. (smp_step (sleep_code a c l) {})\<^sup>*\<^sup>* M M' \<and> m_pc M' j = 5"
  using assms(1,3,5)
proof (induction "5 - m_pc M j" arbitrary: M rule: less_induct)
  case less
  show ?case
  proof (cases "m_pc M j = 5")
    case False
    then have q: "m_pc M j \<in> {1..4}" using less.prems(3) by auto
    then obtain t where t: "(waker_code c l ! m_pc M j) (on_cpu M j) = Ret () t"
      using waker_can_move [OF less.prems(1) assms(2) less.prems(2) assms(4)] by blast
    have len: "m_pc M j < length (waker_code c l)" using q by (simp add: waker_code_def wakeup_stmts_def)
    have inv: "sleep_inv a i c l (moved j t M)" using waker_moves [OF less.prems(1) assms(2,4) len] t by blast
    have "smp_step (sleep_code a c l) {} M (moved j t M)"
      using smp_step.run [of M j "sleep_code a c l" t "{}"] t len assms(4) by (simp add: sleep_code_def)
    moreover obtain M' where "(smp_step (sleep_code a c l) {})\<^sup>*\<^sup>* (moved j t M) M'" "m_pc M' j = 5"
      using less.hyps [OF _ inv] less.prems(2) diff_less_mono2 [OF lessI, of "m_pc M j" 5] q assms(4) by auto
    ultimately show ?thesis by (meson converse_rtranclp_into_rtranclp)
  qed blast
qed

theorem sleep_no_lost_wakeup_witness:
  "\<exists>M. sleep_start 0 0 TicksLk sleep_smp \<and> (smp_step (sleep_code 0 ChTicks TicksLk) {})\<^sup>*\<^sup>* sleep_smp M
     \<and> m_pc M 1 = length (waker_code ChTicks TicksLk) \<and> p_state (k_procs (m_shared M) ! 0) = RUNNABLE"
proof -
  let ?c = "sleep_code 0 ChTicks TicksLk"
  have len: "length (waker_code ChTicks TicksLk) = 5" by (simp add: waker_code_def wakeup_stmts_def)
  have "sleep_inv 0 0 ChTicks TicksLk sleep_smp" by (rule sleep_inv_reachable [OF rtranclp.rtrancl_refl sleep_smp_start])
  then obtain M1 where M1: "(smp_step ?c {})\<^sup>*\<^sup>* sleep_smp M1" "sleep_inv 0 0 ChTicks TicksLk M1" "m_pc M1 0 = 7"
      "\<forall>j. j \<noteq> 0 \<longrightarrow> m_pc M1 j = 0"
    using sleeper_finishes [of 0 0 ChTicks TicksLk sleep_smp] by (auto simp: sleep_smp_def)
  then have "lock_free TicksLk (on_cpu M1 1)"
    using sleep_invD(14) [OF M1(2)] by (simp add: lock_free_def)
  then have a: "acquire TicksLk (on_cpu M1 1) = Ret () (entered TicksLk (on_cpu M1 1))" by simp
  define M2 where "M2 = moved 1 (entered TicksLk (on_cpu M1 1)) M1"
  have M2: "smp_step ?c {} M1 M2" "sleep_inv 0 0 ChTicks TicksLk M2" "m_pc M2 0 = 7" "m_pc M2 1 = 1"
    using smp_step.run [of M1 1 ?c _ "{}"] waker_takes_lk [OF M1(2) _ _ _ a] a M1(3,4)
    by (simp_all add: M2_def sleep_code_def waker_code_def)
  then obtain M where M: "(smp_step ?c {})\<^sup>*\<^sup>* M2 M" "m_pc M 1 = 5" using waker_finishes [OF M2(2) _ M2(3), of 1] by auto
  then have "(smp_step ?c {})\<^sup>*\<^sup>* sleep_smp M" using M1(1) M2(1) by (meson rtranclp.rtrancl_into_rtrancl rtranclp_trans)
  moreover have "\<exists>j. j \<noteq> 0 \<and> m_pc M j = length (waker_code ChTicks TicksLk)" using M(2) len by (intro exI [of _ 1]) simp
  ultimately have "p_state (k_procs (m_shared M) ! 0) = RUNNABLE"
    using sleep_no_lost_wakeup [OF sleep_smp_start, of ChTicks M] by blast
  then show ?thesis using \<open>(smp_step ?c {})\<^sup>*\<^sup>* sleep_smp M\<close> M(2) sleep_smp_start len by auto
qed

theorem wakeup_exact_witness:
  "\<exists>t. wakeup ChTicks two_procs = Ret () t \<and> k_procs t ! 0 = k_procs two_procs ! 0"
  using wakeup_exact [of two_procs 0 ChTicks] by auto

theorem kill_zero_poisons_slot_witness:
  "\<exists>s0 s1 s2. kfree 0x80400000 boot = Ret () s0 \<and> kill 0 s0 = Ret 0 s1
     \<and> allocproc s1 = Ret (Some 0) s2 \<and> p_killed (k_procs s2 ! 0)"
proof -
  have pk: "page_ok boot 0x80400000"
    by (simp add: page_ok_def boot_def v2p_def layout_defs)
  define s0 where "s0 = boot\<lparr>k_numfreepages := k_numfreepages boot + 1,
    k_mem := st32 (fill (k_mem boot) 0x80400000 1 4096) 0x80400000 (km_freelist (k_kmem boot)),
    k_kmem := (k_kmem boot)\<lparr>km_freelist := 0x80400000\<rparr>\<rparr>"
  have s0: "kfree 0x80400000 boot = Ret () s0" "pool s0 [0x80400000]"
    using pool_kfree [OF pool_boot pk] by (simp_all add: s0_def)
  moreover have "k_procs s0 = replicate NPROC proc0" "lock_avail PtableLk s0"
    by (simp_all add: s0_def) (simp add: boot_def)
  ultimately show ?thesis
    using kill_zero_poisons_slot [of s0 "0x80400000" "[]" 0] by (auto simp: proc0_def NPROC_def)
qed

theorem scheduler_round_fair_witness:
  "\<exists>us t ds. scheduler_round (\<lambda>u. u) two_procs = Ret us t \<and> list_all2 dispatched ds us \<and> 1 \<in> set ds"
proof -
  have "\<forall>i<NPROC. p_state (k_procs two_procs ! i) = RUNNABLE \<longrightarrow> p_pgdir (k_procs two_procs ! i) \<noteq> 0"
    by (auto simp: two_procs_def nth_append nth_Cons proc0_def NPROC_def split: nat.splits)
  moreover have "length (k_procs two_procs) = NPROC" "lock_free PtableLk two_procs"
    using lock_avail_free(1) [OF two_procs_simps(1)] by (simp_all add: NPROC_def)
  ultimately obtain us t ds where "scheduler_round (\<lambda>u. u) two_procs = Ret us t" "list_all2 dispatched ds us"
      "\<forall>k<NPROC. p_state (k_procs two_procs ! k) = RUNNABLE \<and> undisturbed (\<lambda>u. u) k \<longrightarrow> k \<in> set ds"
    using scheduler_round_fair [of two_procs "\<lambda>u. u"] by auto
  moreover have "undisturbed (\<lambda>u. u) 1" by (simp add: undisturbed_def)
  ultimately show ?thesis by (auto simp: NPROC_def)
qed

end
