(* ===== verification/Devices.thy ===== *)
theory Devices
  imports Spinlock
begin

text \<open>
  Interrupt controllers, timers, the serial port and the real-time clock (\<^verbatim>\<open>picirq.c\<close>,
  \<^verbatim>\<open>ioapic.c\<close>, \<^verbatim>\<open>timer.c\<close>, \<^verbatim>\<open>uart.c\<close>, \<^verbatim>\<open>lapic.c\<close>). A write to a port or a device
  register is appended to the trace of that device; what a device answers is a parameter.
\<close>

unbundle bit_operations_syntax

definition outb :: "ushort \<Rightarrow> uchar \<Rightarrow> unit kern" where
  "outb port v = modify (\<lambda>s. s\<lparr>k_ports := k_ports s @ [(port, v)]\<rparr>)"

text \<open>Trap and interrupt numbers (\<^verbatim>\<open>traps.h\<close>).\<close>

definition T_SYSCALL :: uint where "T_SYSCALL = 64"
definition T_IRQ0 :: uint where "T_IRQ0 = 32"
definition IRQ_TIMER :: uint where "IRQ_TIMER = 0"
definition IRQ_KBD :: uint where "IRQ_KBD = 1"
definition IRQ_COM1 :: uint where "IRQ_COM1 = 4"
definition IRQ_IDE :: uint where "IRQ_IDE = 14"
definition IRQ_ERROR :: uint where "IRQ_ERROR = 19"
definition IRQ_SPURIOUS :: uint where "IRQ_SPURIOUS = 31"

lemmas trap_defs = T_SYSCALL_def T_IRQ0_def IRQ_TIMER_def IRQ_KBD_def IRQ_COM1_def IRQ_IDE_def
  IRQ_ERROR_def IRQ_SPURIOUS_def

section \<open>The 8259A (picirq.c)\<close>

definition picsetmask :: "ushort \<Rightarrow> unit kern" where
  "picsetmask m = andthen (modify (\<lambda>s. s\<lparr>k_irqmask := m\<rparr>))
     (andthen (outb 0x21 (ucast m)) (outb 0xA1 (ucast (drop_bit 8 m))))"

definition picenable :: "uint \<Rightarrow> unit kern" where
  "picenable irq = bnd (gets k_irqmask) (\<lambda>m. picsetmask (m AND NOT (push_bit (unat irq) 1)))"

definition picinit :: "unit kern" where
  "picinit = andthen (for_each [(0x21, 0xFF), (0xA1, 0xFF), (0x20, 0x11), (0x21, 32), (0x21, 4), (0x21, 3),
       (0xA0, 0x11), (0xA1, 40), (0xA1, 2), (0xA1, 3), (0x20, 0x68), (0x20, 0x0A), (0xA0, 0x68), (0xA0, 0x0A)]
       (\<lambda>(p, v). outb p v))
     (bnd (gets k_irqmask) (\<lambda>m. if m \<noteq> 0xFFFF then picsetmask m else ret ()))"

section \<open>The I/O APIC (ioapic.c)\<close>

definition ioapicwrite :: "uint \<Rightarrow> uint \<Rightarrow> unit kern" where
  "ioapicwrite reg v = modify (\<lambda>s. s\<lparr>k_ioapicw := k_ioapicw s @ [(reg, v)]\<rparr>)"

text \<open>
  \<open>ver\<close> is what the version register reads. A mismatch of the controller's id is reported
  on the console and changes nothing else.
\<close>

definition ioapicinit :: "uint \<Rightarrow> unit kern" where
  "ioapicinit ver = bnd (gets k_ismp) (\<lambda>ismp. if \<not> ismp then ret ()
     else for_each [0..<Suc (unat (drop_bit 16 ver AND 0xFF))] (\<lambda>i.
       andthen (ioapicwrite (0x10 + 2 * of_nat i) (0x10000 OR (T_IRQ0 + of_nat i)))
         (ioapicwrite (0x10 + 2 * of_nat i + 1) 0)))"

definition ioapicenable :: "uint \<Rightarrow> uint \<Rightarrow> unit kern" where
  "ioapicenable irq cpunum = bnd (gets k_ismp) (\<lambda>ismp. if \<not> ismp then ret ()
     else andthen (ioapicwrite (0x10 + 2 * irq) (T_IRQ0 + irq))
       (ioapicwrite (0x10 + 2 * irq + 1) (push_bit 24 cpunum)))"

section \<open>The timer chip (timer.c)\<close>

definition TIMER_DIV :: "nat \<Rightarrow> nat" where
  "TIMER_DIV x = (1193182 + x div 2) div x"

definition timerinit :: "unit kern" where
  "timerinit = andthen (outb 0x43 (0x00 OR 0x04 OR 0x30))
     (andthen (outb 0x40 (of_nat (TIMER_DIV 100 mod 256)))
     (andthen (outb 0x40 (of_nat (TIMER_DIV 100 div 256))) (picenable IRQ_TIMER)))"

section \<open>The serial port (uart.c)\<close>

text \<open>\<open>lsr\<close> is what the line status register reads.\<close>

definition uartinit :: "uchar \<Rightarrow> unit kern" where
  "uartinit lsr = andthen (for_each [(0x3FA, 0), (0x3FB, 0x80), (0x3F8, 12), (0x3F9, 0), (0x3FB, 3),
       (0x3FC, 0), (0x3F9, 1)] (\<lambda>(p, v). outb p v))
     (if lsr = 0xFF then ret ()
      else andthen (modify (\<lambda>s. s\<lparr>k_uart := True\<rparr>)) (andthen (picenable IRQ_COM1) (ioapicenable IRQ_COM1 0)))"

definition uartputc :: "int \<Rightarrow> unit kern" where
  "uartputc c = bnd (gets k_uart) (\<lambda>u. if \<not> u then ret ()
     else modify (\<lambda>s. s\<lparr>k_out := k_out s @ [c mod 256]\<rparr>))"

definition uartgetc :: "uchar \<Rightarrow> uchar \<Rightarrow> int kern" where
  "uartgetc lsr d = bnd (gets k_uart) (\<lambda>u. if \<not> u then ret (-1)
     else if lsr AND 1 = 0 then ret (-1) else ret (uint d))"

section \<open>The local APIC and the real-time clock (lapic.c)\<close>

definition lapicw :: "uint \<Rightarrow> uint \<Rightarrow> unit kern" where
  "lapicw index v = modify (\<lambda>s. s\<lparr>k_lapicw := k_lapicw s @ [(index, v)]\<rparr>)"

text \<open>
  \<open>ver\<close> is what the version register reads, \<open>icr\<close> the successive values of the command
  register while the code waits for the delivery bit to clear.
\<close>

fun delivered :: "uint list \<Rightarrow> unit kern" where
  "delivered [] = (\<lambda>s. Spin)"
| "delivered (v # vs) = (if v AND 0x1000 \<noteq> 0 then delivered vs else ret ())"

definition lapicinit :: "uint \<Rightarrow> uint list \<Rightarrow> unit kern" where
  "lapicinit ver icr = bnd (gets k_lapic) (\<lambda>l. if l = 0 then ret ()
     else andthen (for_each [(0xF0 div 4, 0x100 OR (T_IRQ0 + IRQ_SPURIOUS)), (0x3E0 div 4, 0xB),
         (0x320 div 4, 0x20000 OR (T_IRQ0 + IRQ_TIMER)), (0x380 div 4, 10000000),
         (0x350 div 4, 0x10000), (0x360 div 4, 0x10000)] (\<lambda>(i, v). lapicw i v))
       (andthen (if drop_bit 16 ver AND 0xFF \<ge> 4 then lapicw (0x340 div 4) 0x10000 else ret ())
       (andthen (for_each [(0x370 div 4, T_IRQ0 + IRQ_ERROR), (0x280 div 4, 0), (0x280 div 4, 0), (0xB0 div 4, 0),
         (0x310 div 4, 0), (0x300 div 4, 0x80000 OR 0x500 OR 0x8000)] (\<lambda>(i, v). lapicw i v))
       (andthen (delivered icr) (lapicw (0x80 div 4) 0)))))"

text \<open>\<open>idr\<close> is what the id register reads; the warning about enabled interrupts is console output.\<close>

definition cpunum :: "uint \<Rightarrow> uint kern" where
  "cpunum idr = bnd (gets k_lapic) (\<lambda>l. ret (if l \<noteq> 0 then drop_bit 24 idr else 0))"

definition lapiceoi :: "unit kern" where
  "lapiceoi = bnd (gets k_lapic) (\<lambda>l. if l \<noteq> 0 then lapicw (0xB0 div 4) 0 else ret ())"

definition lapicstartap :: "uchar \<Rightarrow> uint \<Rightarrow> unit kern" where
  "lapicstartap apicid addr = andthen (outb 0x70 0xF) (andthen (outb 0x71 0x0A)
     (andthen (modify (\<lambda>s. s\<lparr>k_mem := (k_mem s)(p2v 0x467 := 0, p2v 0x468 := 0,
        p2v 0x469 := ucast (drop_bit 4 addr), p2v 0x46A := ucast (drop_bit 12 addr))\<rparr>))
     (for_each [(0x310 div 4, push_bit 24 (ucast apicid)), (0x300 div 4, 0x500 OR 0x8000 OR 0x4000),
        (0x300 div 4, 0x500 OR 0x8000),
        (0x310 div 4, push_bit 24 (ucast apicid)), (0x300 div 4, 0x600 OR drop_bit 12 addr),
        (0x310 div 4, push_bit 24 (ucast apicid)), (0x300 div 4, 0x600 OR drop_bit 12 addr)]
        (\<lambda>(i, v). lapicw i v))))"

record rtcdate =
  rtc_second :: uint
  rtc_minute :: uint
  rtc_hour :: uint
  rtc_day :: uint
  rtc_month :: uint
  rtc_year :: uint

text \<open>\<open>cmos\<close> answers a read of a register: the clock's six registers, or a status register.\<close>

definition fill_rtcdate :: "(uint \<Rightarrow> uchar) \<Rightarrow> rtcdate" where
  "fill_rtcdate cmos = \<lparr>rtc_second = ucast (cmos 0), rtc_minute = ucast (cmos 2), rtc_hour = ucast (cmos 4),
     rtc_day = ucast (cmos 7), rtc_month = ucast (cmos 8), rtc_year = ucast (cmos 9)\<rparr>"

definition CONV :: "uint \<Rightarrow> uint" where
  "CONV x = drop_bit 4 x * 10 + (x AND 0xF)"

text \<open>
  The attempts of the loop: each has the clock at its first reading, status register A, and
  the clock at the second reading; \<open>None\<close> when no attempt gets two equal readings.
\<close>

fun cmos_stable :: "((uint \<Rightarrow> uchar) \<times> uchar \<times> (uint \<Rightarrow> uchar)) list \<Rightarrow> rtcdate option" where
  "cmos_stable [] = None"
| "cmos_stable ((c1, sta, c2) # as) = (if sta AND 0x80 \<noteq> 0 then cmos_stable as
     else if fill_rtcdate c1 = fill_rtcdate c2 then Some (fill_rtcdate c1) else cmos_stable as)"

definition cmostime :: "uchar \<Rightarrow> ((uint \<Rightarrow> uchar) \<times> uchar \<times> (uint \<Rightarrow> uchar)) list \<Rightarrow> rtcdate option" where
  "cmostime statb as = map_option (\<lambda>t.
     let t = (if statb AND 4 = 0 then \<lparr>rtc_second = CONV (rtc_second t), rtc_minute = CONV (rtc_minute t),
         rtc_hour = CONV (rtc_hour t), rtc_day = CONV (rtc_day t), rtc_month = CONV (rtc_month t),
         rtc_year = CONV (rtc_year t)\<rparr> else t)
     in t\<lparr>rtc_year := rtc_year t + 2000\<rparr>) (cmos_stable as)"

end
