(* ===== verification/Ide.thy ===== *)
theory Ide
  imports Ptable Devices
begin

text \<open>
  The two disk drivers. \<^verbatim>\<open>memide.c\<close> keeps the disk in memory and serves a request at
  once. \<^verbatim>\<open>ide.c\<close> queues requests through the \<^verbatim>\<open>qnext\<close> pointers of the buffers, starts the
  controller on the head of the queue, and finishes a request in the interrupt handler;
  what the controller reports and delivers is a parameter.
\<close>

section \<open>memide.c\<close>

abbreviation upd_buf :: "nat \<Rightarrow> (buf \<Rightarrow> buf) \<Rightarrow> unit kern" where
  "upd_buf i f \<equiv> modify (\<lambda>s. s\<lparr>k_bcache := upd_at i f (k_bcache s)\<rparr>)"

abbreviation get_buf :: "nat \<Rightarrow> buf kern" where
  "get_buf i \<equiv> gets (\<lambda>s. k_bcache s ! i)"

definition memide_ideinit :: "uint \<Rightarrow> unit kern" where
  "memide_ideinit img_size = modify (\<lambda>s. s\<lparr>k_disksize := img_size div of_nat BSIZE\<rparr>)"

text \<open>A block write to the disk, recorded in order.\<close>

definition disk_write :: "uint \<Rightarrow> block \<Rightarrow> kernel \<Rightarrow> kernel" where
  "disk_write n d s = s\<lparr>k_disk := (k_disk s)(n := d), k_writes := k_writes s @ [(n, d)]\<rparr>"

definition memide_iderw :: "nat \<Rightarrow> unit kern" where
  "memide_iderw i = bnd (get_buf i) (\<lambda>b.
     if \<not> b_busy b then panic ''iderw: buf not busy''
     else if b_valid b \<and> \<not> b_dirty b then panic ''iderw: nothing to do''
     else if b_dev b \<noteq> 1 then panic ''iderw: request not for disk 1''
     else bnd (gets k_disksize) (\<lambda>disksize.
       if b_blockno b \<ge> disksize then panic ''iderw: block out of range''
       else andthen
         (if b_dirty b then
            andthen (upd_buf i (\<lambda>b. b\<lparr>b_dirty := False\<rparr>))
              (modify (disk_write (b_blockno b) (b_data b)))
          else modify (\<lambda>s. s\<lparr>k_bcache := upd_at i (\<lambda>b. b\<lparr>b_data := k_disk s (b_blockno b)\<rparr>) (k_bcache s)\<rparr>))
         (upd_buf i (\<lambda>b. b\<lparr>b_valid := True\<rparr>))))"

section \<open>ide.c\<close>

definition IDE_BSY :: uchar where "IDE_BSY = 0x80"
definition IDE_DRDY :: uchar where "IDE_DRDY = 0x40"
definition IDE_DF :: uchar where "IDE_DF = 0x20"
definition IDE_ERR :: uchar where "IDE_ERR = 0x01"

text \<open>
  \<open>idewait\<close> on the values the status port delivers one after another; None while the
  disk has not become ready.
\<close>

fun idewait :: "bool \<Rightarrow> uchar list \<Rightarrow> int option" where
  "idewait checkerr [] = None"
| "idewait checkerr (r # rs) =
     (if r AND (IDE_BSY OR IDE_DRDY) \<noteq> IDE_DRDY then idewait checkerr rs
      else if checkerr \<and> r AND (IDE_DF OR IDE_ERR) \<noteq> 0 then Some (-1) else Some 0)"

text \<open>
  \<open>ready\<close> and \<open>status\<close> are the values the status port delivers while the code waits for the
  disk and then in the thousand reads after it has selected disk 1.
\<close>

definition ideinit :: "uchar list \<Rightarrow> uchar list \<Rightarrow> unit kern" where
  "ideinit ready status = andthen (initlock IdeLk ''ide'') (andthen (picenable IRQ_IDE)
     (bnd (gets k_ncpu) (\<lambda>n. andthen (ioapicenable IRQ_IDE (of_nat n - 1))
     (case idewait False ready of None \<Rightarrow> (\<lambda>s. Spin) | Some _ \<Rightarrow>
       andthen (outb 0x1F6 (0xE0 OR 0x10))
       (andthen (if \<exists>r\<in>set (take 1000 status). r \<noteq> 0 then modify (\<lambda>s. s\<lparr>k_havedisk1 := True\<rparr>) else ret ())
         (outb 0x1F6 0xE0))))))"

text \<open>
  The sector goes to the controller as four port bytes, the last with four bits of it. The command
  that \<^verbatim>\<open>idestart\<close> gives through the ports, after waiting for the controller, is one record: disk,
  sector, and the data of a write.
\<close>

definition sector_ports :: "uint \<Rightarrow> uint" where
  "sector_ports sector = (sector AND 0xFF) OR push_bit 8 (drop_bit 8 sector AND 0xFF)
     OR push_bit 16 (drop_bit 16 sector AND 0xFF) OR push_bit 24 (drop_bit 24 sector AND 0x0F)"

definition idestart :: "nat option \<Rightarrow> unit kern" where
  "idestart p = (case p of None \<Rightarrow> panic ''idestart'' | Some i \<Rightarrow>
     bnd (get_buf i) (\<lambda>b.
       if b_blockno b \<ge> of_nat FSSIZE then panic ''incorrect blockno''
       else modify (\<lambda>s. s\<lparr>k_idecmd := Some \<lparr>ic_disk = b_dev b AND 1,
         ic_sector = sector_ports (b_blockno b),
         ic_write = (if b_dirty b then Some (b_data b) else None)\<rparr>\<rparr>)))"

text \<open>
  \<open>ideintr ok d\<close>: the controller has finished; \<open>ok\<close> is what \<^verbatim>\<open>idewait(1)\<close> reports and \<open>d\<close>
  the data \<^verbatim>\<open>insl\<close> reads.
\<close>

definition ideintr :: "bool \<Rightarrow> block \<Rightarrow> unit kern" where
  "ideintr ok d = andthen (acquire IdeLk) (bnd (gets k_idequeue) (\<lambda>q.
     case q of None \<Rightarrow> release IdeLk
     | Some i \<Rightarrow>
         andthen (modify (\<lambda>s. s\<lparr>k_idequeue := b_qnext (k_bcache s ! i)\<rparr>))
        (andthen (upd_buf i (\<lambda>b. if \<not> b_dirty b \<and> ok then b\<lparr>b_data := d\<rparr> else b))
        (andthen (upd_buf i (\<lambda>b. b\<lparr>b_valid := True, b_dirty := False\<rparr>))
        (andthen (wakeup (ChBuf i))
        (andthen (bnd (gets k_idequeue) (\<lambda>q'. if q' \<noteq> None then idestart q' else ret ()))
         (release IdeLk)))))))"

text \<open>The loop that finds the last pointer of the queue, and the store through it.\<close>

definition idequeue_append :: "nat \<Rightarrow> unit kern" where
  "idequeue_append i = andthen (upd_buf i (\<lambda>b. b\<lparr>b_qnext := None\<rparr>))
     (bnd (gets k_idequeue) (\<lambda>q. case q of
        None \<Rightarrow> modify (\<lambda>s. s\<lparr>k_idequeue := Some i\<rparr>)
      | Some h \<Rightarrow> loop (Suc NBUF) (\<lambda>j. bnd (get_buf j) (\<lambda>b. case b_qnext b of
            None \<Rightarrow> andthen (upd_buf j (\<lambda>b. b\<lparr>b_qnext := Some i\<rparr>)) (ret (Inr ()))
          | Some k \<Rightarrow> ret (Inl k))) h))"

text \<open>The wait at the end of \<^verbatim>\<open>iderw\<close>, run again each time the process is woken.\<close>

definition iderw_wait :: "nat \<Rightarrow> unit kern" where
  "iderw_wait i = bnd (get_buf i) (\<lambda>b.
     if b_valid b \<and> \<not> b_dirty b then release IdeLk else block_on (ChBuf i) IdeLk)"

definition iderw :: "nat \<Rightarrow> unit kern" where
  "iderw i = bnd (get_buf i) (\<lambda>b.
     if \<not> b_busy b then panic ''iderw: buf not busy''
     else if b_valid b \<and> \<not> b_dirty b then panic ''iderw: nothing to do''
     else bnd (gets k_havedisk1) (\<lambda>have1.
       if b_dev b \<noteq> 0 \<and> \<not> have1 then panic ''iderw: ide disk 1 not present''
       else andthen (acquire IdeLk) (andthen (idequeue_append i)
         (andthen (bnd (gets k_idequeue) (\<lambda>q. if q = Some i then idestart (Some i) else ret ()))
         (iderw_wait i)))))"

section \<open>The queue\<close>

text \<open>\<open>ide_queue bs h js\<close>: following \<^verbatim>\<open>qnext\<close> from \<open>h\<close> gives the buffers \<open>js\<close>.\<close>

primrec ide_queue :: "buf list \<Rightarrow> nat option \<Rightarrow> nat list \<Rightarrow> bool" where
  "ide_queue bs h [] \<longleftrightarrow> h = None"
| "ide_queue bs h (j # js) \<longleftrightarrow> h = Some j \<and> j < length bs \<and> ide_queue bs (b_qnext (bs ! j)) js"

lemma ide_queue_cong:
  "length bs' = length bs \<Longrightarrow> (\<And>j. j \<in> set js \<Longrightarrow> b_qnext (bs' ! j) = b_qnext (bs ! j)) \<Longrightarrow>
   ide_queue bs' h js = ide_queue bs h js"
  by (induction js arbitrary: h) auto

lemma ide_queue_upd [simp]:
  assumes "\<And>b. b_qnext (f b) = b_qnext b"
  shows "ide_queue (upd_at i f bs) h js = ide_queue bs h js"
  using assms by (intro ide_queue_cong) (auto simp: upd_at_def nth_list_update)

lemma append_loop:
  assumes "ide_queue (k_bcache s) (Some j) ks" "length ks \<le> n"
  shows "loop n (\<lambda>j. bnd (get_buf j) (\<lambda>b. case b_qnext b of
       None \<Rightarrow> andthen (upd_buf j (\<lambda>b. b\<lparr>b_qnext := Some i\<rparr>)) (ret (Inr ()))
     | Some k \<Rightarrow> ret (Inl k))) j s
   = Ret () (s\<lparr>k_bcache := upd_at (last ks) (\<lambda>b. b\<lparr>b_qnext := Some i\<rparr>) (k_bcache s)\<rparr>)"
  using assms
proof (induction ks arbitrary: j n)
  case Nil
  then show ?case by simp
next
  case (Cons k ks)
  have kj: "k = j" and rest: "ide_queue (k_bcache s) (b_qnext (k_bcache s ! j)) ks"
    using Cons.prems(1) by auto
  obtain n' where n: "n = Suc n'" "length ks \<le> n'" using Cons.prems(2) by (cases n) auto
  show ?case
  proof (cases "b_qnext (k_bcache s ! j)")
    case None
    then have "ks = []" using rest by (cases ks) auto
    then show ?thesis using None by (simp add: n kj)
  next
    case (Some k')
    then have "ks \<noteq> []" using rest by (cases ks) auto
    then show ?thesis using Cons.IH [of k' n'] rest Some n(2) by (simp add: n(1))
  qed
qed

lemma ide_queue_snoc:
  assumes "ide_queue bs h js" "distinct js" "i \<notin> set js" "i < length bs" "b_qnext (bs ! i) = None"
    and "js \<noteq> []"
  shows "ide_queue (upd_at (last js) (\<lambda>b. b\<lparr>b_qnext := Some i\<rparr>) bs) h (js @ [i])"
  using assms
proof (induction js arbitrary: h)
  case (Cons j js)
  show ?case
  proof (cases js)
    case Nil
    then show ?thesis using Cons.prems by (auto simp: nth_upd_at)
  next
    case (Cons k ks)
    have "last js \<in> set js" using Cons by simp
    then have "j \<noteq> last js" using Cons.prems(2) by auto
    then show ?thesis using Cons.IH [of "b_qnext (bs ! j)"] Cons.prems Cons by (auto simp: nth_upd_at)
  qed
qed simp

lemma idequeue_append_ok:
  assumes "ide_queue (k_bcache s) (k_idequeue s) js" "distinct js" "i \<notin> set js"
    and "i < length (k_bcache s)" "length js \<le> NBUF"
  shows "\<exists>bs h. idequeue_append i s = Ret () (s\<lparr>k_bcache := bs, k_idequeue := h\<rparr>)
    \<and> ide_queue bs h (js @ [i]) \<and> length bs = length (k_bcache s)
    \<and> (\<forall>j. (bs ! j)\<lparr>b_qnext := None\<rparr> = (k_bcache s ! j)\<lparr>b_qnext := None\<rparr>)"
proof -
  let ?bs = "upd_at i (\<lambda>b. b\<lparr>b_qnext := None\<rparr>) (k_bcache s)"
  have q: "ide_queue ?bs (k_idequeue s) js"
    using assms(1,3) ide_queue_cong [of ?bs "k_bcache s" js] by (metis length_upd_at nth_upd_at_neq)
  have n: "b_qnext (?bs ! i) = None" "i < length ?bs" using assms(4) by simp_all
  have eq: "(?bs ! j)\<lparr>b_qnext := None\<rparr> = (k_bcache s ! j)\<lparr>b_qnext := None\<rparr>" for j
    by (cases "j = i") (simp_all add: assms(4))
  show ?thesis
  proof (cases js)
    case Nil
    then have "idequeue_append i s = Ret () (s\<lparr>k_bcache := ?bs, k_idequeue := Some i\<rparr>)"
      using assms(1) by (simp add: idequeue_append_def)
    moreover have "ide_queue ?bs (Some i) (js @ [i])" using Nil n by simp
    ultimately show ?thesis using eq by (metis length_upd_at)
  next
    case (Cons h ks)
    then have h: "k_idequeue s = Some h" using assms(1) by simp
    let ?bs' = "upd_at (last js) (\<lambda>b. b\<lparr>b_qnext := Some i\<rparr>) ?bs"
    have "idequeue_append i s = Ret () (s\<lparr>k_bcache := ?bs', k_idequeue := Some h\<rparr>)"
      using append_loop [of "s\<lparr>k_bcache := ?bs\<rparr>" h js "Suc NBUF" i] q h assms(5)
      by (simp add: idequeue_append_def del: loop.simps)
    moreover have "ide_queue ?bs' (Some h) (js @ [i])"
      using ide_queue_snoc [OF q assms(2,3) n(2,1)] Cons h by simp
    moreover have "(?bs' ! j)\<lparr>b_qnext := None\<rparr> = (k_bcache s ! j)\<lparr>b_qnext := None\<rparr>" for j
      using eq [of j] by (cases "j < length ?bs \<and> j = last js") (auto simp: upd_at_def)
    ultimately show ?thesis by (metis length_upd_at)
  qed
qed

text \<open>The controller command for a buffer, and the buffer when the request is done.\<close>

definition ide_cmd :: "buf \<Rightarrow> idecmd" where
  "ide_cmd b = \<lparr>ic_disk = b_dev b AND 1, ic_sector = sector_ports (b_blockno b),
     ic_write = (if b_dirty b then Some (b_data b) else None)\<rparr>"

definition ide_done :: "block \<Rightarrow> buf \<Rightarrow> buf" where
  "ide_done d b = b\<lparr>b_data := (if b_dirty b then b_data b else d), b_valid := True, b_dirty := False\<rparr>"

text \<open>
  \<open>ide_inv s js\<close>: \<open>js\<close> are the queued buffers, each of them a cache entry for a block of the
  disk, and the controller works on the first.
\<close>

definition ide_inv :: "kernel \<Rightarrow> nat list \<Rightarrow> bool" where
  "ide_inv s js \<longleftrightarrow> quiet s \<and> length (k_bcache s) = Suc NBUF
     \<and> ide_queue (k_bcache s) (k_idequeue s) js \<and> distinct js \<and> set js \<subseteq> {..<NBUF}
     \<and> (\<forall>j\<in>set js. b_blockno (k_bcache s ! j) < of_nat FSSIZE)
     \<and> (js \<noteq> [] \<longrightarrow> k_idecmd s = Some (ide_cmd (k_bcache s ! hd js)))"

lemma idestart_Some:
  "b_blockno (k_bcache s ! i) < of_nat FSSIZE \<Longrightarrow>
   idestart (Some i) s = Ret () (s\<lparr>k_idecmd := Some (ide_cmd (k_bcache s ! i))\<rparr>)"
  by (simp add: idestart_def ide_cmd_def not_le [symmetric])

lemma block_on_switch:
  assumes "lock_avail l s" "lock_avail PtableLk s" "c_ncli (k_cpu s) = 0"
    and "c_proc (k_cpu s) = Some p" "p < length (k_procs s)"
  shows "block_on c l (entered l s) = Switch (entered PtableLk
     (update_procs (upd_at p (\<lambda>q. q\<lparr>p_chan := c, p_state := SLEEPING\<rparr>)) s))"
  using sleep_switch [OF assms] by (simp add: block_on_def)

lemma qnext_fields:
  assumes "(b :: buf)\<lparr>b_qnext := None\<rparr> = c\<lparr>b_qnext := None\<rparr>"
  shows "b_busy b = b_busy c" "b_valid b = b_valid c" "b_dirty b = b_dirty c" "b_dev b = b_dev c"
    "b_blockno b = b_blockno c" "b_data b = b_data c"
  using assms by (cases b; cases c; simp)+

text \<open>
  C9: a request joins the disk queue at its end. The caller of \<^verbatim>\<open>iderw\<close> is left sleeping on
  its buffer with the driver's lock released, the queue is the old one followed by the
  buffer, and the controller works on the head of the queue, whether it was idle or busy before.
\<close>

theorem iderw_enqueues:
  assumes "ide_inv s js" "i < NBUF" "i \<notin> set js"
    and "b_busy (k_bcache s ! i)" "\<not> (b_valid (k_bcache s ! i) \<and> \<not> b_dirty (k_bcache s ! i))"
    and "b_blockno (k_bcache s ! i) < of_nat FSSIZE" "b_dev (k_bcache s ! i) = 0 \<or> k_havedisk1 s"
    and "c_ncli (k_cpu s) = 0" "c_proc (k_cpu s) = Some p" "p < length (k_procs s)"
  shows "\<exists>t. iderw i s = Switch (entered PtableLk t) \<and> ide_inv t (js @ [i])
    \<and> p_state (k_procs t ! p) = SLEEPING \<and> p_chan (k_procs t ! p) = ChBuf i
    \<and> (\<forall>j. b_data (k_bcache t ! j) = b_data (k_bcache s ! j))"
proof -
  have inv: "quiet s" "length (k_bcache s) = Suc NBUF" "distinct js" "set js \<subseteq> {..<NBUF}"
    "ide_queue (k_bcache s) (k_idequeue s) js" "\<forall>j\<in>set js. b_blockno (k_bcache s ! j) < of_nat FSSIZE"
    "js \<noteq> [] \<longrightarrow> k_idecmd s = Some (ide_cmd (k_bcache s ! hd js))"
    using assms(1) unfolding ide_inv_def by blast+
  have len: "length js \<le> NBUF"
    using card_mono [OF _ inv(4)] inv(3) by (simp add: distinct_card)
  obtain bs h where ap: "idequeue_append i (entered IdeLk s) = Ret () (entered IdeLk (s\<lparr>k_bcache := bs, k_idequeue := h\<rparr>))"
    and q: "ide_queue bs h (js @ [i])" and l: "length bs = length (k_bcache s)"
    and eq: "\<And>j. (bs ! j)\<lparr>b_qnext := None\<rparr> = (k_bcache s ! j)\<lparr>b_qnext := None\<rparr>"
    using idequeue_append_ok [of "entered IdeLk s" js i] inv(2,3,5) len assms(2,3) by auto
  note f = qnext_fields [OF eq]
  have cmd: "ide_cmd (bs ! j) = ide_cmd (k_bcache s ! j)" for j by (simp add: ide_cmd_def f)
  have h: "h = Some (hd (js @ [i]))" using q by (cases js) auto
  define s1 where "s1 = s\<lparr>k_bcache := bs, k_idequeue := h,
    k_idecmd := Some (ide_cmd (bs ! hd (js @ [i])))\<rparr>"
  have st: "bnd (gets k_idequeue) (\<lambda>q. if q = Some i then idestart (Some i) else ret ())
      (entered IdeLk (s\<lparr>k_bcache := bs, k_idequeue := h\<rparr>)) = Ret () (entered IdeLk s1)"
  proof (cases js)
    case Nil
    then show ?thesis using h assms(6) by (simp add: s1_def idestart_Some f)
  next
    case (Cons j ks)
    then have "h \<noteq> Some i" using h assms(3) by auto
    moreover have "s1 = s\<lparr>k_bcache := bs, k_idequeue := h\<rparr>"
      using inv(7) Cons by (cases s) (simp add: s1_def cmd)
    ultimately show ?thesis by simp
  qed
  define t where "t = update_procs (upd_at p (\<lambda>q. q\<lparr>p_chan := ChBuf i, p_state := SLEEPING\<rparr>)) s1"
  have "quiet s1" using inv(1) by (simp add: s1_def)
  then have "iderw_wait i (entered IdeLk s1) = Switch (entered PtableLk t)"
    using block_on_switch [of IdeLk s1 p "ChBuf i"] assms(5,8-10)
    by (auto simp: iderw_wait_def s1_def t_def f)
  then have "iderw i s = Switch (entered PtableLk t)"
    using assms(4,5,7) ap st inv(1) by (auto simp: iderw_def)
  moreover have "ide_inv t (js @ [i])"
    using inv q l assms(2,3,6) by (auto simp: ide_inv_def t_def s1_def f)
  ultimately show ?thesis
    using assms(10) by (intro exI [of _ t]) (simp add: t_def s1_def f)
qed

text \<open>
  C10: the disk queue is first in, first out. When the controller finishes, \<^verbatim>\<open>ideintr\<close> completes
  the first request (a read gets the controller's data, a write is clean), wakes everyone waiting
  for that buffer and starts the controller on the next request; no other buffer changes.
\<close>

theorem ideintr_serves_head:
  assumes "ide_inv s (i # js)"
  shows "\<exists>t. ideintr True d s = Ret () t \<and> ide_inv t js
    \<and> k_bcache t ! i = ide_done d (k_bcache s ! i) \<and> (\<forall>j. j \<noteq> i \<longrightarrow> k_bcache t ! j = k_bcache s ! j)
    \<and> k_procs t = wakeup1_procs (ChBuf i) (k_procs s)"
proof -
  have inv: "quiet s" "length (k_bcache s) = Suc NBUF" "distinct (i # js)" "set (i # js) \<subseteq> {..<NBUF}"
    "ide_queue (k_bcache s) (k_idequeue s) (i # js)"
    "\<forall>j\<in>set (i # js). b_blockno (k_bcache s ! j) < of_nat FSSIZE"
    using assms unfolding ide_inv_def by blast+
  have q: "k_idequeue s = Some i" "ide_queue (k_bcache s) (b_qnext (k_bcache s ! i)) js"
    using inv(5) by simp_all
  let ?bs = "upd_at i (ide_done d) (k_bcache s)"
  define t where "t = s\<lparr>k_bcache := ?bs, k_idequeue := b_qnext (k_bcache s ! i),
    k_procs := wakeup1_procs (ChBuf i) (k_procs s),
    k_idecmd := (if js = [] then k_idecmd s else Some (ide_cmd (k_bcache s ! hd js)))\<rparr>"
  have nx: "b_qnext (k_bcache s ! i) = (if js = [] then None else Some (hd js))"
    using q(2) by (cases js) auto
  have d: "(\<lambda>x. (if \<not> b_dirty x then x\<lparr>b_data := d\<rparr> else x)\<lparr>b_valid := True, b_dirty := False\<rparr>) = ide_done d"
    by (auto simp: fun_eq_iff ide_done_def)
  have "ideintr True d s = Ret () t"
  proof (cases "js = []")
    case True
    then show ?thesis
      using inv(1) q nx by (simp add: ideintr_def wakeup_eq d t_def)
  next
    case False
    then have "hd js \<noteq> i" "b_blockno (k_bcache s ! hd js) < of_nat FSSIZE"
      using inv(3,6) by (auto simp: hd_in_set)
    then show ?thesis
      using False inv(1) q nx by (simp add: ideintr_def wakeup_eq d t_def idestart_Some)
  qed
  moreover have "ide_inv t js"
    using inv q(2) by (cases js) (auto simp: ide_inv_def t_def nth_upd_at ide_done_def)
  ultimately show ?thesis using inv(2,4) by (intro exI [of _ t]) (auto simp: t_def)
qed

lemma memide_iderw_eq:
  assumes "b_busy (k_bcache s ! i)" "\<not> (b_valid (k_bcache s ! i) \<and> \<not> b_dirty (k_bcache s ! i))"
    and "b_dev (k_bcache s ! i) = 1" "b_blockno (k_bcache s ! i) < k_disksize s" "i < length (k_bcache s)"
  shows "memide_iderw i s = Ret () ((if b_dirty (k_bcache s ! i)
      then disk_write (b_blockno (k_bcache s ! i)) (b_data (k_bcache s ! i)) s else s)
    \<lparr>k_bcache := upd_at i (ide_done (k_disk s (b_blockno (k_bcache s ! i)))) (k_bcache s)\<rparr>)"
proof -
  let ?b = "k_bcache s ! i" and ?d = "k_disk s (b_blockno (k_bcache s ! i))"
  have w: "upd_at i (\<lambda>b. b\<lparr>b_dirty := False, b_valid := True\<rparr>) (k_bcache s)
      = upd_at i (ide_done ?d) (k_bcache s)" if "b_dirty ?b"
    using that by (intro upd_at_eqI) (simp add: ide_done_def)
  have r: "upd_at i (\<lambda>b. b\<lparr>b_data := k_disk s (b_blockno b), b_valid := True\<rparr>) (k_bcache s)
      = upd_at i (ide_done ?d) (k_bcache s)" if "\<not> b_dirty ?b"
    using that by (intro upd_at_eqI) (simp add: ide_done_def)
  have sz: "\<not> k_disksize s \<le> b_blockno ?b" using assms(4) by simp
  show ?thesis
  proof (cases "b_dirty ?b")
    case True
    have "memide_iderw i s = Ret () ((disk_write (b_blockno ?b) (b_data ?b) s)
        \<lparr>k_bcache := upd_at i (\<lambda>b. b\<lparr>b_dirty := False, b_valid := True\<rparr>) (k_bcache s)\<rparr>)"
      using assms(1,3,5) sz True by (simp add: memide_iderw_def) (simp add: disk_write_def)
    then show ?thesis using True w by simp
  next
    case False
    then show ?thesis
      using assms(1-3,5) sz r by (simp add: memide_iderw_def)
  qed
qed

section \<open>Examples\<close>

text \<open>A machine with a file-system disk, before the buffer cache is set up.\<close>

definition disk_start :: kernel where
  "disk_start = boot\<lparr>k_disksize := of_nat FSSIZE, k_havedisk1 := True,
     k_cpu := (k_cpu boot)\<lparr>c_proc := Some 0\<rparr>\<rparr>"

lemma disk_start_simps [simp]:
  "quiet disk_start" "length (k_bcache disk_start) = Suc NBUF" "k_disksize disk_start = 1000"
  "k_bcache disk_start = replicate (Suc NBUF) buf0" "k_disk disk_start = (\<lambda>_. replicate BSIZE 0)"
  "c_proc (k_cpu disk_start) = Some 0" "c_ncli (k_cpu disk_start) = 0"
  "length (k_procs disk_start) = NPROC" "k_log disk_start = k_log boot" "k_sb disk_start = k_sb boot"
  by (simp_all add: disk_start_def boot_def FSSIZE_def quiet_def lock_avail_def lock_free_def cpu_ok_def)

definition one_buf :: buf where
  "one_buf = buf0\<lparr>b_busy := True, b_dev := 1, b_blockno := 5\<rparr>"

theorem iderw_enqueues_witness:
  "\<exists>t. iderw 2 (disk_start\<lparr>k_bcache := (k_bcache disk_start)[2 := one_buf]\<rparr>) = Switch (entered PtableLk t)
     \<and> ide_inv t [2] \<and> p_state (k_procs t ! 0) = SLEEPING"
proof -
  let ?s = "disk_start\<lparr>k_bcache := (k_bcache disk_start)[2 := one_buf]\<rparr>"
  have "k_idequeue ?s = None" "k_havedisk1 ?s" by (simp_all add: disk_start_def boot_def)
  then show ?thesis
    using iderw_enqueues [of ?s "[]" 2 0]
    by (auto simp: ide_inv_def one_buf_def buf0_def size_defs)
qed

theorem ideintr_serves_head_witness:
  "\<exists>t. ideintr True (replicate BSIZE 9) (disk_start\<lparr>k_bcache := (k_bcache disk_start)[2 := one_buf],
      k_idequeue := Some 2, k_idecmd := Some (ide_cmd one_buf)\<rparr>) = Ret () t
     \<and> b_data (k_bcache t ! 2) = replicate BSIZE 9 \<and> ide_inv t []"
proof -
  let ?s = "disk_start\<lparr>k_bcache := (k_bcache disk_start)[2 := one_buf],
      k_idequeue := Some 2, k_idecmd := Some (ide_cmd one_buf)\<rparr>"
  have "ide_inv ?s [2]" by (simp add: ide_inv_def one_buf_def buf0_def size_defs)
  from ideintr_serves_head [OF this, of "replicate BSIZE 9"] show ?thesis
    by (auto simp: ide_done_def one_buf_def buf0_def size_defs)
qed

end
