(* ===== verification/Bio.thy ===== *)
theory Bio
  imports Ide
begin

text \<open>
  The buffer cache (\<^verbatim>\<open>bio.c\<close>): a table of buffers on a circular doubly linked list in order
  of last use. The links are refined to a list of table indices; the contents to a map
  from block numbers to blocks. The disk below is the one of \<^verbatim>\<open>memide.c\<close>.
\<close>

section \<open>Operations\<close>

definition unlink :: "nat \<Rightarrow> buf list \<Rightarrow> buf list" where
  "unlink i bs =
     (let bs1 = upd_at (b_next (bs ! i)) (\<lambda>b. b\<lparr>b_prev := b_prev (bs ! i)\<rparr>) bs
      in upd_at (b_prev (bs1 ! i)) (\<lambda>b. b\<lparr>b_next := b_next (bs1 ! i)\<rparr>) bs1)"

definition insert_head :: "nat \<Rightarrow> buf list \<Rightarrow> buf list" where
  "insert_head i bs =
     (let bs1 = upd_at i (\<lambda>b. b\<lparr>b_next := b_next (bs ! NBUF), b_prev := NBUF\<rparr>) bs;
          bs2 = upd_at (b_next (bs1 ! NBUF)) (\<lambda>b. b\<lparr>b_prev := i\<rparr>) bs1
      in upd_at NBUF (\<lambda>b. b\<lparr>b_next := i\<rparr>) bs2)"

definition binit :: "unit kern" where
  "binit = andthen (initlock BcacheLk ''bcache'')
     (andthen (upd_buf NBUF (\<lambda>b. b\<lparr>b_prev := NBUF, b_next := NBUF\<rparr>))
     (for_each [0..<NBUF] (\<lambda>i. modify (\<lambda>s. s\<lparr>k_bcache :=
        insert_head i (upd_at i (\<lambda>b. b\<lparr>b_dev := - 1\<rparr>) (k_bcache s))\<rparr>))))"

text \<open>A walk along the list from the head, through \<open>nxt\<close>, to the first buffer with \<open>P\<close>.\<close>

definition bfind :: "(buf \<Rightarrow> nat) \<Rightarrow> (buf \<Rightarrow> bool) \<Rightarrow> nat option kern" where
  "bfind nxt P = bnd (gets k_bcache) (\<lambda>bs.
     loop (Suc (Suc NBUF)) (\<lambda>i. if i = NBUF then ret (Inr None)
       else if P (bs ! i) then ret (Inr (Some i)) else ret (Inl (nxt (bs ! i)))) (nxt (bs ! NBUF)))"

text \<open>\<^verbatim>\<open>bget\<close> from the label \<^verbatim>\<open>loop\<close> on, with the lock held.\<close>

definition bget_loop :: "uint \<Rightarrow> uint \<Rightarrow> nat kern" where
  "bget_loop dev blockno =
     bnd (bfind b_next (\<lambda>b. b_dev b = dev \<and> b_blockno b = blockno)) (\<lambda>r. case r of
       Some i \<Rightarrow> bnd (get_buf i) (\<lambda>b.
         if \<not> b_busy b then
           andthen (upd_buf i (\<lambda>b. b\<lparr>b_busy := True\<rparr>)) (andthen (release BcacheLk) (ret i))
         else block_on (ChBuf i) BcacheLk)
     | None \<Rightarrow>
         bnd (bfind b_prev (\<lambda>b. \<not> b_busy b \<and> \<not> b_dirty b)) (\<lambda>r. case r of
           Some i \<Rightarrow> andthen (upd_buf i (\<lambda>b. b\<lparr>b_dev := dev, b_blockno := blockno,
               b_busy := True, b_valid := False, b_dirty := False\<rparr>))
             (andthen (release BcacheLk) (ret i))
         | None \<Rightarrow> panic ''bget: no buffers''))"

definition bget :: "uint \<Rightarrow> uint \<Rightarrow> nat kern" where
  "bget dev blockno = andthen (acquire BcacheLk) (bget_loop dev blockno)"

definition bread :: "uint \<Rightarrow> uint \<Rightarrow> nat kern" where
  "bread dev blockno = bnd (bget dev blockno) (\<lambda>i. bnd (get_buf i) (\<lambda>b.
     andthen (if \<not> b_valid b then memide_iderw i else ret ()) (ret i)))"

definition bwrite :: "nat \<Rightarrow> unit kern" where
  "bwrite i = bnd (get_buf i) (\<lambda>b.
     if \<not> b_busy b then panic ''bwrite''
     else andthen (upd_buf i (\<lambda>b. b\<lparr>b_dirty := True\<rparr>)) (memide_iderw i))"

definition brelse :: "nat \<Rightarrow> unit kern" where
  "brelse i = bnd (get_buf i) (\<lambda>b.
     if \<not> b_busy b then panic ''brelse''
     else andthen (acquire BcacheLk)
       (andthen (modify (\<lambda>s. s\<lparr>k_bcache := insert_head i (unlink i (k_bcache s))\<rparr>))
       (andthen (upd_buf i (\<lambda>b. b\<lparr>b_busy := False\<rparr>))
       (andthen (wakeup (ChBuf i)) (release BcacheLk)))))"

section \<open>The list of buffers\<close>

definition links :: "buf list \<Rightarrow> nat \<Rightarrow> nat \<Rightarrow> bool" where
  "links bs x y \<longleftrightarrow> b_next (bs ! x) = y \<and> b_prev (bs ! y) = x"

primrec dpath :: "buf list \<Rightarrow> nat \<Rightarrow> nat list \<Rightarrow> nat \<Rightarrow> bool" where
  "dpath bs x [] y \<longleftrightarrow> links bs x y"
| "dpath bs x (z # zs) y \<longleftrightarrow> links bs x z \<and> dpath bs z zs y"

text \<open>\<open>dll bs xs\<close>: the list from the head through \<^verbatim>\<open>next\<close> and back through \<^verbatim>\<open>prev\<close> is \<open>xs\<close>.\<close>

definition dll :: "buf list \<Rightarrow> nat list \<Rightarrow> bool" where
  "dll bs xs \<longleftrightarrow> length bs = Suc NBUF \<and> dpath bs NBUF xs NBUF \<and> distinct xs \<and> set xs \<subseteq> {..<NBUF}"

lemma dpath_append: "dpath bs x (as @ i # cs) y \<longleftrightarrow> dpath bs x as i \<and> dpath bs i cs y"
  by (induction as arbitrary: x) auto

lemma dpath_cong:
  "(\<And>u. u \<in> set (x # as) \<Longrightarrow> b_next (bs' ! u) = b_next (bs ! u)) \<Longrightarrow>
   (\<And>v. v \<in> set (as @ [y]) \<Longrightarrow> b_prev (bs' ! v) = b_prev (bs ! v)) \<Longrightarrow>
   dpath bs' x as y = dpath bs x as y"
  by (induction as arbitrary: x) (auto simp: links_def)

lemma dpath_next: "dpath bs x as y \<Longrightarrow> b_next (bs ! x) = hd (as @ [y])"
  by (cases as) (auto simp: links_def)

lemma dpath_prev: "dpath bs x as y \<Longrightarrow> b_prev (bs ! y) = last (x # as)"
  by (induction as arbitrary: x) (auto simp: links_def)

lemma dpath_join:
  assumes "dpath bs x as i" "dpath bs i cs y" "distinct (x # as @ i # cs)" "y \<notin> set (as @ i # cs)"
    and n: "\<And>u. b_next (bs' ! u) = (if u = last (x # as) then hd (cs @ [y]) else b_next (bs ! u))"
    and p: "\<And>v. b_prev (bs' ! v) = (if v = hd (cs @ [y]) then last (x # as) else b_prev (bs ! v))"
  shows "dpath bs' x (as @ cs) y"
  using assms
proof (induction as arbitrary: x)
  case Nil
  show ?case
  proof (cases cs)
    case Nil
    then show ?thesis using Nil.prems by (simp add: links_def)
  next
    case (Cons c cs')
    have "dpath bs' c cs' y = dpath bs c cs' y"
      using Nil.prems Cons by (intro dpath_cong) auto
    then show ?thesis using Nil.prems Cons by (simp add: links_def)
  qed
next
  case (Cons a as)
  have "last (a # as) \<in> set (a # as)" by simp
  then have "last (a # as) \<noteq> x" using Cons.prems(3) by auto
  moreover have "hd (cs @ [y]) \<noteq> a" using Cons.prems(3,4) by (cases cs) auto
  ultimately have "links bs' x a" using Cons.prems by (simp add: links_def)
  moreover have "dpath bs' a (as @ cs) y" using Cons.prems by (intro Cons.IH) (simp_all add: n p)
  ultimately show ?case by simp
qed

lemma insert_head_fields:
  assumes "length bs = Suc NBUF" "i < NBUF" "b_next (bs ! NBUF) \<le> NBUF" "b_next (bs ! NBUF) \<noteq> i"
  shows "b_next (insert_head i bs ! u) =
      (if u = NBUF then i else if u = i then b_next (bs ! NBUF) else b_next (bs ! u))"
    and "b_prev (insert_head i bs ! v) =
      (if v = b_next (bs ! NBUF) then i else if v = i then NBUF else b_prev (bs ! v))"
  using assms by (auto simp: insert_head_def Let_def upd_at_def nth_list_update)

lemma dpath_insert_head:
  assumes "length bs = Suc NBUF" "dpath bs NBUF zs NBUF" "distinct zs" "set zs \<subseteq> {..<NBUF}"
    and "i < NBUF" "i \<notin> set zs"
  shows "dpath (insert_head i bs) NBUF (i # zs) NBUF"
proof -
  have h: "b_next (bs ! NBUF) = hd (zs @ [NBUF])" using dpath_next [OF assms(2)] .
  have hi: "hd (zs @ [NBUF]) \<le> NBUF" "hd (zs @ [NBUF]) \<noteq> i" using assms(4-6) by (cases zs; auto)+
  note f = insert_head_fields [OF assms(1,5), unfolded h, OF hi]
  have "links (insert_head i bs) NBUF i" using assms(5) hi by (simp add: links_def f)
  moreover have "dpath (insert_head i bs) i zs NBUF"
  proof (cases zs)
    case Nil
    then show ?thesis using assms(5) by (simp add: links_def f)
  next
    case (Cons z zs')
    have "dpath (insert_head i bs) z zs' NBUF = dpath bs z zs' NBUF"
      using assms(3-6) Cons by (intro dpath_cong) (auto simp: f)
    then show ?thesis using assms(2,4-6) Cons by (auto simp: links_def f)
  qed
  ultimately show ?thesis by simp
qed

lemma unlink_fields:
  assumes "length bs = Suc NBUF" "i < NBUF" "b_next (bs ! i) \<le> NBUF" "b_prev (bs ! i) \<le> NBUF"
    and "b_next (bs ! i) \<noteq> i" "b_prev (bs ! i) \<noteq> i"
  shows "b_next (unlink i bs ! u) = (if u = b_prev (bs ! i) then b_next (bs ! i) else b_next (bs ! u))"
    and "b_prev (unlink i bs ! v) = (if v = b_next (bs ! i) then b_prev (bs ! i) else b_prev (bs ! v))"
  using assms by (auto simp: unlink_def Let_def upd_at_def nth_list_update)

lemma length_list_ops [simp]:
  "length (unlink i bs) = length bs" "length (insert_head i bs) = length bs"
  by (simp_all add: unlink_def insert_head_def Let_def)

lemma dll_unlink:
  assumes "dll bs (as @ i # cs)"
  shows "dpath (unlink i bs) NBUF (as @ cs) NBUF"
proof -
  have l: "length bs = Suc NBUF" and ai: "dpath bs NBUF as i" and ic: "dpath bs i cs NBUF"
    and d: "distinct (as @ i # cs)" and b: "set (as @ i # cs) \<subseteq> {..<NBUF}"
    using assms by (auto simp: dll_def dpath_append)
  have n: "b_next (bs ! i) = hd (cs @ [NBUF])" and p: "b_prev (bs ! i) = last (NBUF # as)"
    using dpath_next [OF ic] dpath_prev [OF ai] .
  have n': "hd (cs @ [NBUF]) \<le> NBUF" "hd (cs @ [NBUF]) \<noteq> i" using b d by (cases cs; auto)+
  have "last (NBUF # as) \<in> set (NBUF # as)" by (rule last_in_set) simp
  then have p': "last (NBUF # as) \<le> NBUF" "last (NBUF # as) \<noteq> i" using b d by auto
  have "i < NBUF" using b by simp
  note f = unlink_fields [OF l this, unfolded n p, OF n'(1) p'(1) n'(2) p'(2)]
  show ?thesis by (rule dpath_join [OF ai ic _ _ f]) (use b d in auto)
qed

text \<open>Releasing a buffer moves it to the front of the list.\<close>

lemma dll_move_front:
  assumes "dll bs (as @ i # cs)"
  shows "dll (insert_head i (unlink i bs)) (i # as @ cs)"
proof -
  have "dpath (insert_head i (unlink i bs)) NBUF (i # (as @ cs)) NBUF"
    by (rule dpath_insert_head [OF _ dll_unlink [OF assms]]) (use assms in \<open>auto simp: dll_def\<close>)
  then show ?thesis using assms by (auto simp: dll_def)
qed

lemma dll_upd:
  assumes "\<And>b. b_next (f b) = b_next b" "\<And>b. b_prev (f b) = b_prev b"
  shows "dll (upd_at i f bs) xs = dll bs xs"
proof -
  have "dpath (upd_at i f bs) NBUF xs NBUF = dpath bs NBUF xs NBUF"
    using assms by (intro dpath_cong) (auto simp: upd_at_def nth_list_update)
  then show ?thesis by (simp add: dll_def)
qed

section \<open>Searching the list\<close>

primrec walk :: "(buf \<Rightarrow> nat) \<Rightarrow> buf list \<Rightarrow> nat \<Rightarrow> nat list \<Rightarrow> bool" where
  "walk nxt bs x [] \<longleftrightarrow> nxt (bs ! x) = NBUF"
| "walk nxt bs x (z # zs) \<longleftrightarrow> nxt (bs ! x) = z \<and> walk nxt bs z zs"

lemma walk_next: "dpath bs x as NBUF \<Longrightarrow> walk b_next bs x as"
  by (induction as arbitrary: x) (auto simp: links_def)

lemma walk_prev: "dpath bs NBUF as y \<Longrightarrow> walk b_prev bs y (rev as)"
proof (induction as arbitrary: y rule: rev_induct)
  case Nil
  then show ?case by (simp add: links_def)
next
  case (snoc a as)
  then have "dpath bs NBUF as a" "links bs a y" by (simp_all add: dpath_append)
  then show ?case using snoc.IH by (simp add: links_def)
qed

lemma walk_loop:
  assumes "walk nxt bs x zs" "NBUF \<notin> set zs" "length zs < n"
  shows "loop n (\<lambda>i. if i = NBUF then ret (Inr None)
       else if P (bs ! i) then ret (Inr (Some i)) else ret (Inl (nxt (bs ! i)))) (nxt (bs ! x)) s
    = Ret (List.find (\<lambda>i. P (bs ! i)) zs) s"
  using assms
proof (induction zs arbitrary: x n)
  case Nil
  then obtain n' where "n = Suc n'" by (cases n) auto
  then show ?case using Nil by simp
next
  case (Cons z zs)
  then obtain n' where n: "n = Suc n'" by (cases n) auto
  show ?case using Cons.prems Cons.IH [of z n'] by (auto simp: n)
qed

lemma dll_length: "dll bs xs \<Longrightarrow> length xs \<le> NBUF"
  unfolding dll_def by (metis card_lessThan card_mono distinct_card finite_lessThan)

lemma bfind_next:
  assumes "dll (k_bcache s) xs"
  shows "bfind b_next P s = Ret (List.find (\<lambda>i. P (k_bcache s ! i)) xs) s"
proof -
  have "walk b_next (k_bcache s) NBUF xs" using assms by (auto simp: dll_def intro: walk_next)
  then show ?thesis
    using walk_loop [of b_next "k_bcache s" NBUF xs "Suc (Suc NBUF)" P s] dll_length [OF assms] assms
    by (auto simp: bfind_def dll_def simp del: loop.simps)
qed

lemma bfind_prev:
  assumes "dll (k_bcache s) xs"
  shows "bfind b_prev P s = Ret (List.find (\<lambda>i. P (k_bcache s ! i)) (rev xs)) s"
proof -
  have "walk b_prev (k_bcache s) NBUF (rev xs)" using assms by (auto simp: dll_def intro: walk_prev)
  then show ?thesis
    using walk_loop [of b_prev "k_bcache s" NBUF "rev xs" "Suc (Suc NBUF)" P s] dll_length [OF assms] assms
    by (auto simp: bfind_def dll_def simp del: loop.simps)
qed

section \<open>The contents of the cache\<close>

text \<open>
  The invariant of the cache: every buffer is on the list, no block of the disk is in two
  buffers, and a buffer that is valid and neither locked nor waiting to be logged has the
  contents of its block.
\<close>

definition bc_ok :: "kernel \<Rightarrow> bool" where
  "bc_ok s \<longleftrightarrow> (\<exists>xs. dll (k_bcache s) xs \<and> set xs = {..<NBUF})
     \<and> (\<forall>i<NBUF. \<forall>j<NBUF. b_dev (k_bcache s ! i) = 1 \<and> b_dev (k_bcache s ! j) = 1
          \<and> b_blockno (k_bcache s ! i) = b_blockno (k_bcache s ! j) \<longrightarrow> i = j)
     \<and> (\<forall>i<NBUF. b_valid (k_bcache s ! i) \<longrightarrow> length (b_data (k_bcache s ! i)) = BSIZE)
     \<and> (\<forall>n. length (k_disk s n) = BSIZE)
     \<and> (\<forall>i<NBUF. b_dev (k_bcache s ! i) = 1 \<and> b_valid (k_bcache s ! i) \<and> \<not> b_dirty (k_bcache s ! i)
          \<and> \<not> b_busy (k_bcache s ! i) \<longrightarrow> b_data (k_bcache s ! i) = k_disk s (b_blockno (k_bcache s ! i)))
     \<and> (\<forall>i<NBUF. b_dirty (k_bcache s ! i) \<longrightarrow> b_valid (k_bcache s ! i) \<and> b_dev (k_bcache s ! i) = 1)
     \<and> (\<forall>i<NBUF. b_busy (k_bcache s ! i) \<longrightarrow> b_dev (k_bcache s ! i) = 1)"

text \<open>What a reader of block \<open>n\<close> gets: the cached contents, or else the disk's.\<close>

definition holds_blk :: "kernel \<Rightarrow> uint \<Rightarrow> nat \<Rightarrow> bool" where
  "holds_blk s n i \<longleftrightarrow> b_dev (k_bcache s ! i) = 1 \<and> b_blockno (k_bcache s ! i) = n \<and> b_valid (k_bcache s ! i)"

definition blk :: "kernel \<Rightarrow> uint \<Rightarrow> block" where
  "blk s n = (case List.find (holds_blk s n) [0..<NBUF] of
     Some i \<Rightarrow> b_data (k_bcache s ! i) | None \<Rightarrow> k_disk s n)"

lemma bc_okD:
  assumes "bc_ok s"
  shows "length (k_bcache s) = Suc NBUF"
    and "i < NBUF \<Longrightarrow> j < NBUF \<Longrightarrow> b_dev (k_bcache s ! i) = 1 \<Longrightarrow> b_dev (k_bcache s ! j) = 1 \<Longrightarrow>
      b_blockno (k_bcache s ! i) = b_blockno (k_bcache s ! j) \<Longrightarrow> i = j"
    and "i < NBUF \<Longrightarrow> b_valid (k_bcache s ! i) \<Longrightarrow> length (b_data (k_bcache s ! i)) = BSIZE"
    and "length (k_disk s n) = BSIZE"
    and "i < NBUF \<Longrightarrow> b_dev (k_bcache s ! i) = 1 \<Longrightarrow> b_valid (k_bcache s ! i) \<Longrightarrow>
      \<not> b_dirty (k_bcache s ! i) \<Longrightarrow> \<not> b_busy (k_bcache s ! i) \<Longrightarrow>
      b_data (k_bcache s ! i) = k_disk s (b_blockno (k_bcache s ! i))"
    and "i < NBUF \<Longrightarrow> b_dirty (k_bcache s ! i) \<Longrightarrow> b_valid (k_bcache s ! i) \<and> b_dev (k_bcache s ! i) = 1"
    and "i < NBUF \<Longrightarrow> b_busy (k_bcache s ! i) \<Longrightarrow> b_dev (k_bcache s ! i) = 1"
proof -
  show "length (k_bcache s) = Suc NBUF" using assms by (auto simp: bc_ok_def dll_def)
qed (use assms in \<open>simp_all add: bc_ok_def\<close>)

lemma find_SomeI: "y \<in> set xs \<Longrightarrow> P y \<Longrightarrow> \<exists>x. List.find P xs = Some x \<and> P x \<and> x \<in> set xs"
  by (induction xs) auto

lemma blk_hit:
  assumes "bc_ok s" "i < NBUF" "holds_blk s n i"
  shows "blk s n = b_data (k_bcache s ! i)"
proof -
  obtain j where j: "List.find (holds_blk s n) [0..<NBUF] = Some j" "holds_blk s n j" "j < NBUF"
    using find_SomeI [of i "[0..<NBUF]" "holds_blk s n"] assms(2,3) by auto
  then have "j = i" using bc_okD(2) [OF assms(1), of j i] assms(2,3) by (simp add: holds_blk_def)
  then show ?thesis using j(1) by (simp add: blk_def)
qed

lemma blk_miss: "\<forall>i<NBUF. \<not> holds_blk s n i \<Longrightarrow> blk s n = k_disk s n"
proof -
  assume "\<forall>i<NBUF. \<not> holds_blk s n i"
  then have "List.find (holds_blk s n) [0..<NBUF] = None" by (simp add: find_None_iff)
  then show ?thesis by (simp add: blk_def)
qed

lemma length_blk: "bc_ok s \<Longrightarrow> length (blk s n) = BSIZE"
  by (cases "\<exists>i<NBUF. holds_blk s n i") (auto simp: blk_hit blk_miss bc_okD holds_blk_def)

text \<open>Two states whose caches differ in the links only have the same contents.\<close>

definition same_buf :: "buf \<Rightarrow> buf \<Rightarrow> bool" where
  "same_buf b c \<longleftrightarrow> b_busy b = b_busy c \<and> b_valid b = b_valid c \<and> b_dirty b = b_dirty c
     \<and> b_dev b = b_dev c \<and> b_blockno b = b_blockno c \<and> b_data b = b_data c"

lemma blk_eqI:
  assumes "\<And>i. i < NBUF \<Longrightarrow> holds_blk s' n i = holds_blk s n i"
    and "\<And>i. i < NBUF \<Longrightarrow> holds_blk s n i \<Longrightarrow> b_data (k_bcache s' ! i) = b_data (k_bcache s ! i)"
    and "k_disk s' n = k_disk s n"
  shows "blk s' n = blk s n"
proof -
  have "List.find (holds_blk s' n) [0..<NBUF] = List.find (holds_blk s n) [0..<NBUF]"
    using assms(1) by (intro find_cong) auto
  moreover have "j < NBUF \<and> holds_blk s n j" if "List.find (holds_blk s n) [0..<NBUF] = Some j" for j
    using that by (auto simp: find_Some_iff)
  ultimately show ?thesis using assms(2,3) unfolding blk_def by (auto split: option.splits)
qed

section \<open>Reading a block\<close>

text \<open>
  \<open>can_get s n\<close>: no one holds block \<open>n\<close>, and it is cached or some buffer can be recycled.
\<close>

definition can_get :: "kernel \<Rightarrow> uint \<Rightarrow> bool" where
  "can_get s n \<longleftrightarrow> n < k_disksize s
     \<and> (\<forall>i<NBUF. b_dev (k_bcache s ! i) = 1 \<and> b_blockno (k_bcache s ! i) = n \<longrightarrow> \<not> b_busy (k_bcache s ! i))
     \<and> (\<exists>i<NBUF. \<not> b_busy (k_bcache s ! i) \<and>
          (\<not> b_dirty (k_bcache s ! i) \<or> b_dev (k_bcache s ! i) = 1 \<and> b_blockno (k_bcache s ! i) = n))"

lemma find_conv:
  "set xs = {..<NBUF} \<Longrightarrow> (\<exists>i. List.find P xs = Some i \<and> i < NBUF \<and> P i)
     \<or> List.find P xs = None \<and> (\<forall>i<NBUF. \<not> P i)"
  using find_SomeI [of _ xs P] by (cases "\<exists>i<NBUF. P i") (auto simp: find_None_iff)

text \<open>The buffer \<^verbatim>\<open>bget\<close> picks: the one of the block, or a recycled one.\<close>

lemma bget_ok:
  assumes "bc_ok s" "quiet s" "can_get s n"
  shows "\<exists>i b. i < NBUF \<and> bget 1 n s = Ret i (s\<lparr>k_bcache := upd_at i (\<lambda>_. b) (k_bcache s)\<rparr>)
    \<and> \<not> b_busy (k_bcache s ! i)
    \<and> (b_dev (k_bcache s ! i) = 1 \<and> b_blockno (k_bcache s ! i) = n
         \<and> b = (k_bcache s ! i)\<lparr>b_busy := True\<rparr>
       \<or> (\<forall>j<NBUF. \<not> (b_dev (k_bcache s ! j) = 1 \<and> b_blockno (k_bcache s ! j) = n))
         \<and> \<not> b_dirty (k_bcache s ! i)
         \<and> b = (k_bcache s ! i)\<lparr>b_dev := 1, b_blockno := n, b_busy := True, b_valid := False, b_dirty := False\<rparr>)"
proof -
  obtain xs where xs: "dll (k_bcache s) xs" "set xs = {..<NBUF}" using assms(1) by (auto simp: bc_ok_def)
  have dl: "dll (k_bcache (entered BcacheLk s)) xs" using xs(1) by simp
  let ?P = "\<lambda>i. b_dev (k_bcache s ! i) = 1 \<and> b_blockno (k_bcache s ! i) = n"
  let ?Q = "\<lambda>i. \<not> b_busy (k_bcache s ! i) \<and> \<not> b_dirty (k_bcache s ! i)"
  from find_conv [OF xs(2), of ?P] show ?thesis
  proof (elim disjE exE conjE)
    fix i
    assume i: "List.find ?P xs = Some i" "i < NBUF" "b_dev (k_bcache s ! i) = 1" "b_blockno (k_bcache s ! i) = n"
    then have nb: "\<not> b_busy (k_bcache s ! i)" using assms(3) by (auto simp: can_get_def)
    have "bget 1 n s = Ret i (s\<lparr>k_bcache := upd_at i (\<lambda>b. b\<lparr>b_busy := True\<rparr>) (k_bcache s)\<rparr>)"
      using i nb assms(2) by (simp add: bget_def bget_loop_def bfind_next [OF dl])
    also have "upd_at i (\<lambda>b. b\<lparr>b_busy := True\<rparr>) (k_bcache s)
        = upd_at i (\<lambda>_. (k_bcache s ! i)\<lparr>b_busy := True\<rparr>) (k_bcache s)" by (rule upd_at_eqI) simp
    finally show ?thesis using i nb by blast
  next
    assume none: "List.find ?P xs = None" "\<forall>i<NBUF. \<not> ?P i"
    then have "\<exists>i<NBUF. ?Q i" using assms(3) by (auto simp: can_get_def)
    then obtain i where i: "List.find ?Q (rev xs) = Some i" "i < NBUF" "?Q i"
      using find_conv [of "rev xs" ?Q] xs(2) by auto
    have "bget 1 n s = Ret i (s\<lparr>k_bcache := upd_at i (\<lambda>b. b\<lparr>b_dev := 1, b_blockno := n,
        b_busy := True, b_valid := False, b_dirty := False\<rparr>) (k_bcache s)\<rparr>)"
      using i none(1) assms(2) by (simp add: bget_def bget_loop_def bfind_next [OF dl] bfind_prev [OF dl])
    also have "upd_at i (\<lambda>b. b\<lparr>b_dev := 1, b_blockno := n,
        b_busy := True, b_valid := False, b_dirty := False\<rparr>) (k_bcache s)
        = upd_at i (\<lambda>_. (k_bcache s ! i)\<lparr>b_dev := 1, b_blockno := n,
        b_busy := True, b_valid := False, b_dirty := False\<rparr>) (k_bcache s)" by (rule upd_at_eqI) simp
    finally show ?thesis using i none(2) by blast
  qed
qed

lemma bc_ok_upd:
  assumes ok: "bc_ok s" and i: "i < NBUF"
    and lk: "b_next b = b_next (k_bcache s ! i)" "b_prev b = b_prev (k_bcache s ! i)"
    and uniq: "\<And>j. j < NBUF \<Longrightarrow> j \<noteq> i \<Longrightarrow> b_dev b = 1 \<Longrightarrow> b_dev (k_bcache s ! j) = 1 \<Longrightarrow>
      b_blockno (k_bcache s ! j) \<noteq> b_blockno b"
    and len: "b_valid b \<Longrightarrow> length (b_data b) = BSIZE"
    and coh: "b_dev b = 1 \<Longrightarrow> b_valid b \<Longrightarrow> \<not> b_dirty b \<Longrightarrow> \<not> b_busy b \<Longrightarrow> b_data b = k_disk s (b_blockno b)"
    and dirt: "b_dirty b \<Longrightarrow> b_valid b \<and> b_dev b = 1" and bsy: "b_busy b \<Longrightarrow> b_dev b = 1"
  shows "bc_ok (s\<lparr>k_bcache := upd_at i (\<lambda>_. b) (k_bcache s)\<rparr>)"
proof -
  let ?bs = "upd_at i (\<lambda>_. b) (k_bcache s)"
  have l: "length (k_bcache s) = Suc NBUF" by (rule bc_okD(1) [OF ok])
  have e: "?bs ! j = (if j = i then b else k_bcache s ! j)" if "j \<le> NBUF" for j
    using that i l by (simp add: upd_at_def nth_list_update)
  have "dpath ?bs NBUF xs NBUF = dpath (k_bcache s) NBUF xs NBUF" for xs
    using lk l by (intro dpath_cong) (auto simp: upd_at_def nth_list_update)
  then have "\<exists>xs. dll ?bs xs \<and> set xs = {..<NBUF}"
    using ok by (auto simp: bc_ok_def dll_def)
  moreover have "\<forall>j<NBUF. \<forall>k<NBUF. b_dev (?bs ! j) = 1 \<and> b_dev (?bs ! k) = 1
      \<and> b_blockno (?bs ! j) = b_blockno (?bs ! k) \<longrightarrow> j = k"
  proof (intro allI impI)
    fix j k
    assume jk: "j < NBUF" "k < NBUF" "b_dev (?bs ! j) = 1 \<and> b_dev (?bs ! k) = 1
      \<and> b_blockno (?bs ! j) = b_blockno (?bs ! k)"
    then show "j = k"
      using bc_okD(2) [OF ok, of j k] uniq [of j] uniq [of k] i by (auto simp: e split: if_splits)
  qed
  moreover have "b_valid (?bs ! j) \<longrightarrow> length (b_data (?bs ! j)) = BSIZE" if "j < NBUF" for j
    using that len bc_okD(3) [OF ok that] by (simp add: e)
  moreover have "b_dev (?bs ! j) = 1 \<and> b_valid (?bs ! j) \<and> \<not> b_dirty (?bs ! j) \<and> \<not> b_busy (?bs ! j)
      \<longrightarrow> b_data (?bs ! j) = k_disk s (b_blockno (?bs ! j))" if "j < NBUF" for j
    using that coh bc_okD(5) [OF ok that] by (simp add: e)
  moreover have "b_dirty (?bs ! j) \<longrightarrow> b_valid (?bs ! j) \<and> b_dev (?bs ! j) = 1" if "j < NBUF" for j
    using that dirt bc_okD(6) [OF ok that] by (simp add: e)
  moreover have "b_busy (?bs ! j) \<longrightarrow> b_dev (?bs ! j) = 1" if "j < NBUF" for j
    using that bsy bc_okD(7) [OF ok that] by (simp add: e)
  ultimately show ?thesis using bc_okD(4) [OF ok] by (simp add: bc_ok_def)
qed

text \<open>
  \<^verbatim>\<open>bread\<close> returns a locked buffer with the contents of the block; no block's contents and no
  buffer that was locked change.
\<close>

lemma bread_ok:
  assumes "bc_ok s" "quiet s" "can_get s n"
  shows "\<exists>i b. i < NBUF \<and> \<not> b_busy (k_bcache s ! i)
    \<and> bread 1 n s = Ret i (s\<lparr>k_bcache := upd_at i (\<lambda>_. b) (k_bcache s)\<rparr>)
    \<and> b_busy b \<and> b_valid b \<and> b_dev b = 1 \<and> b_blockno b = n \<and> b_data b = blk s n
    \<and> (b_dirty b \<longrightarrow> b_dirty (k_bcache s ! i) \<and> b_dev (k_bcache s ! i) = 1 \<and> b_blockno (k_bcache s ! i) = n)
    \<and> (\<not> b_dirty b \<longrightarrow> \<not> b_dirty (k_bcache s ! i) \<and> blk s n = k_disk s n)
    \<and> bc_ok (s\<lparr>k_bcache := upd_at i (\<lambda>_. b) (k_bcache s)\<rparr>)
    \<and> blk (s\<lparr>k_bcache := upd_at i (\<lambda>_. b) (k_bcache s)\<rparr>) = blk s"
proof -
  obtain i b where i: "i < NBUF" and g: "bget 1 n s = Ret i (s\<lparr>k_bcache := upd_at i (\<lambda>_. b) (k_bcache s)\<rparr>)"
    and nb: "\<not> b_busy (k_bcache s ! i)"
    and c: "b_dev (k_bcache s ! i) = 1 \<and> b_blockno (k_bcache s ! i) = n \<and> b = (k_bcache s ! i)\<lparr>b_busy := True\<rparr>
       \<or> (\<forall>j<NBUF. \<not> (b_dev (k_bcache s ! j) = 1 \<and> b_blockno (k_bcache s ! j) = n))
         \<and> \<not> b_dirty (k_bcache s ! i)
         \<and> b = (k_bcache s ! i)\<lparr>b_dev := 1, b_blockno := n, b_busy := True, b_valid := False, b_dirty := False\<rparr>"
    using bget_ok [OF assms] by blast
  let ?bs = "k_bcache s"
  have l: "i < length ?bs" using i bc_okD(1) [OF assms(1)] by simp
  define b' where "b' = (if b_valid b then b else ide_done (k_disk s n) b)"
  have bf: "b_busy b" "b_dev b = 1" "b_blockno b = n" "\<not> b_valid b \<Longrightarrow> \<not> b_dirty b"
    "b_next b = b_next (?bs ! i)" "b_prev b = b_prev (?bs ! i)"
    using c bc_okD(6) [OF assms(1) i] by auto
  have sz: "n < k_disksize s" using assms(3) by (simp add: can_get_def)
  have r: "bread 1 n s = Ret i (s\<lparr>k_bcache := upd_at i (\<lambda>_. b') ?bs\<rparr>)"
  proof (cases "b_valid b")
    case True
    then show ?thesis using g l by (simp add: bread_def b'_def)
  next
    case False
    let ?s1 = "s\<lparr>k_bcache := upd_at i (\<lambda>_. b) ?bs\<rparr>"
    have "memide_iderw i ?s1 = Ret () (s\<lparr>k_bcache := upd_at i (\<lambda>_. ide_done (k_disk s n) b) ?bs\<rparr>)"
      using memide_iderw_eq [of ?s1 i] False bf l sz by simp
    then show ?thesis using g l False by (simp add: bread_def b'_def)
  qed
  have old: "b_dev (?bs ! i) = 1 \<Longrightarrow> b_valid (?bs ! i) \<Longrightarrow> \<not> b_dirty (?bs ! i) \<Longrightarrow>
      b_data (?bs ! i) = k_disk s (b_blockno (?bs ! i))"
    using bc_okD(5) [OF assms(1) i] nb by simp
  have c': "b_dev (?bs ! i) = 1 \<and> b_blockno (?bs ! i) = n \<and> b_valid b = b_valid (?bs ! i)
        \<and> b_dirty b = b_dirty (?bs ! i) \<and> b_data b = b_data (?bs ! i)
      \<or> (\<forall>j<NBUF. \<not> (b_dev (?bs ! j) = 1 \<and> b_blockno (?bs ! j) = n)) \<and> \<not> b_dirty (?bs ! i)
        \<and> \<not> b_valid b \<and> \<not> b_dirty b"
    using c by (elim disjE conjE) simp_all
  have same: "j = i" if "j < NBUF" "b_dev (?bs ! j) = 1" "b_blockno (?bs ! j) = b_blockno (?bs ! i)"
      "b_dev (?bs ! i) = 1" for j
    using bc_okD(2) [OF assms(1) that(1) i that(2,4,3)] .
  have un: "b_blockno (?bs ! j) \<noteq> n" if "j < NBUF" "j \<noteq> i" "b_dev (?bs ! j) = 1" for j
    using c' same [of j] that by metis
  have no: "\<not> holds_blk s n j" if "j < NBUF" "\<not> b_valid b" for j
    using c' same [of j] that unfolding holds_blk_def by metis
  have d: "b_data b' = blk s n" "\<not> b_dirty b' \<longrightarrow> \<not> b_dirty (?bs ! i) \<and> blk s n = k_disk s n"
    "b_dirty b' \<longrightarrow> b_dirty (?bs ! i) \<and> b_dev (?bs ! i) = 1 \<and> b_blockno (?bs ! i) = n"
  proof (atomize (full), cases "b_valid b")
    case True
    then have h: "b_dev (?bs ! i) = 1" "b_blockno (?bs ! i) = n" "b_data b = b_data (?bs ! i)"
      "b_valid (?bs ! i)" "b_dirty b = b_dirty (?bs ! i)"
      using c' by auto
    then have "blk s n = b_data (?bs ! i)" using True blk_hit [OF assms(1) i] by (simp add: holds_blk_def)
    then show "b_data b' = blk s n \<and> (\<not> b_dirty b' \<longrightarrow> \<not> b_dirty (?bs ! i) \<and> blk s n = k_disk s n)
        \<and> (b_dirty b' \<longrightarrow> b_dirty (?bs ! i) \<and> b_dev (?bs ! i) = 1 \<and> b_blockno (?bs ! i) = n)"
      using True h old by (simp add: b'_def)
  next
    case False
    then show "b_data b' = blk s n \<and> (\<not> b_dirty b' \<longrightarrow> \<not> b_dirty (?bs ! i) \<and> blk s n = k_disk s n)
        \<and> (b_dirty b' \<longrightarrow> b_dirty (?bs ! i) \<and> b_dev (?bs ! i) = 1 \<and> b_blockno (?bs ! i) = n)"
      using no blk_miss [of s n] bf(4) c' by (auto simp: b'_def ide_done_def)
  qed
  have b': "b_busy b'" "b_valid b'" "b_dev b' = 1" "b_blockno b' = n" "b_next b' = b_next (?bs ! i)"
    "b_prev b' = b_prev (?bs ! i)"
    using bf by (simp_all add: b'_def ide_done_def)
  have ok: "bc_ok (s\<lparr>k_bcache := upd_at i (\<lambda>_. b') ?bs\<rparr>)"
    by (rule bc_ok_upd [OF assms(1) i]) (use b' d un length_blk [OF assms(1)] in auto)
  have e: "upd_at i (\<lambda>_. b') ?bs ! j = (if j = i then b' else ?bs ! j)" for j
    using l by (simp add: upd_at_def nth_list_update)
  have "blk (s\<lparr>k_bcache := upd_at i (\<lambda>_. b') ?bs\<rparr>) m = blk s m" for m
  proof (cases "m = n")
    case True
    then show ?thesis using blk_hit [OF ok i, of n] b' d(1) e by (simp add: holds_blk_def)
  next
    case False
    show ?thesis
    proof (cases "holds_blk s m i")
      case True
      then have hm: "\<not> b_dirty (?bs ! i)" "b_dev (?bs ! i) = 1" "b_blockno (?bs ! i) = m" "b_valid (?bs ! i)"
        using c' False by (auto simp: holds_blk_def)
      then have "blk s m = k_disk s m" using blk_hit [OF assms(1) i True] old by simp
      moreover have "\<not> holds_blk (s\<lparr>k_bcache := upd_at i (\<lambda>_. b') ?bs\<rparr>) m j" if "j < NBUF" for j
        using b' False hm same [OF that] unfolding holds_blk_def by (cases "j = i") (simp_all add: e, metis)
      ultimately show ?thesis using blk_miss by simp
    next
      case no: False
      then show ?thesis using False b' by (intro blk_eqI) (auto simp: holds_blk_def e)
    qed
  qed
  then show ?thesis using i nb r b' d ok by (intro exI [of _ i] exI [of _ b']) (auto simp: fun_eq_iff)
qed

section \<open>Writing and releasing\<close>

lemma bwrite_ok:
  assumes "bc_ok s" "i < NBUF" "b_busy (k_bcache s ! i)" "b_valid (k_bcache s ! i)"
    and "b_dev (k_bcache s ! i) = 1" "b_blockno (k_bcache s ! i) < k_disksize s"
  defines "s' \<equiv> (disk_write (b_blockno (k_bcache s ! i)) (b_data (k_bcache s ! i)) s)
    \<lparr>k_bcache := upd_at i (\<lambda>b. b\<lparr>b_dirty := False\<rparr>) (k_bcache s)\<rparr>"
  shows "bwrite i s = Ret () s'" "bc_ok s'" "blk s' = blk s"
proof -
  let ?bs = "k_bcache s" and ?n = "b_blockno (k_bcache s ! i)" and ?d = "b_data (k_bcache s ! i)"
  have l: "i < length ?bs" using assms(2) bc_okD(1) [OF assms(1)] by simp
  let ?s1 = "s\<lparr>k_bcache := upd_at i (\<lambda>b. b\<lparr>b_dirty := True\<rparr>) ?bs\<rparr>"
  have "upd_at i (\<lambda>x. ide_done (k_disk s ?n) (x\<lparr>b_dirty := True\<rparr>)) ?bs
      = upd_at i (\<lambda>b. b\<lparr>b_dirty := False\<rparr>) ?bs"
    using assms(4) by (intro upd_at_eqI) (simp add: ide_done_def)
  then have "memide_iderw i ?s1 = Ret () s'"
    using memide_iderw_eq [of ?s1 i] assms(3-6) l by (simp add: s'_def disk_write_def)
  then show "bwrite i s = Ret () s'" using assms(3) by (simp add: bwrite_def)
  have e: "k_bcache s' ! j = (if j = i then (?bs ! i)\<lparr>b_dirty := False\<rparr> else ?bs ! j)" for j
    using l by (simp add: s'_def upd_at_def nth_list_update)
  have dk: "k_disk s' = (k_disk s)(?n := ?d)" by (simp add: s'_def disk_write_def)
  have len: "length ?d = BSIZE" using bc_okD(3) [OF assms(1,2,4)] .
  have ne: "b_blockno (?bs ! j) \<noteq> ?n" if "j < NBUF" "j \<noteq> i" "b_dev (?bs ! j) = 1" for j
    using bc_okD(2) [OF assms(1) that(1) assms(2) that(3) assms(5)] that(2) by blast
  have "\<exists>xs. dll (k_bcache s') xs \<and> set xs = {..<NBUF}"
    using assms(1) by (simp add: s'_def bc_ok_def dll_upd)
  moreover have "b_dev (k_bcache s' ! j) = b_dev (?bs ! j)" "b_blockno (k_bcache s' ! j) = b_blockno (?bs ! j)"
    "b_valid (k_bcache s' ! j) = b_valid (?bs ! j)" "b_data (k_bcache s' ! j) = b_data (?bs ! j)"
    "b_busy (k_bcache s' ! j) = b_busy (?bs ! j)" for j by (simp_all add: e)
  moreover have "b_data (?bs ! j) = k_disk s' (b_blockno (?bs ! j))"
    if "j < NBUF" "b_dev (?bs ! j) = 1" "b_valid (?bs ! j)" "\<not> b_dirty (k_bcache s' ! j)" "\<not> b_busy (?bs ! j)" for j
    using that bc_okD(5) [OF assms(1), of j] ne [of j] assms(3) by (cases "j = i") (simp_all add: dk e)
  moreover have "b_dirty (k_bcache s' ! j) \<longrightarrow> b_dirty (?bs ! j)" for j by (simp add: e)
  ultimately show ok: "bc_ok s'"
    using assms(1) len by (auto simp: bc_ok_def dk)
  show "blk s' = blk s"
  proof
    fix m
    have h: "holds_blk s' m j = holds_blk s m j" for j by (simp add: holds_blk_def e)
    show "blk s' m = blk s m"
    proof (cases "m = ?n")
      case True
      then show ?thesis
        using blk_hit [OF ok assms(2), of m] blk_hit [OF assms(1,2), of m] h [of i] assms(4,5)
        by (simp add: holds_blk_def e)
    next
      case False
      then show ?thesis using h by (intro blk_eqI) (simp_all add: e dk)
    qed
  qed
qed

lemma list_ops_content [simp]:
  "b_busy (insert_head i bs ! j) = b_busy (bs ! j)" "b_busy (unlink i bs ! j) = b_busy (bs ! j)"
  "b_valid (insert_head i bs ! j) = b_valid (bs ! j)" "b_valid (unlink i bs ! j) = b_valid (bs ! j)"
  "b_dirty (insert_head i bs ! j) = b_dirty (bs ! j)" "b_dirty (unlink i bs ! j) = b_dirty (bs ! j)"
  "b_dev (insert_head i bs ! j) = b_dev (bs ! j)" "b_dev (unlink i bs ! j) = b_dev (bs ! j)"
  "b_blockno (insert_head i bs ! j) = b_blockno (bs ! j)" "b_blockno (unlink i bs ! j) = b_blockno (bs ! j)"
  "b_data (insert_head i bs ! j) = b_data (bs ! j)" "b_data (unlink i bs ! j) = b_data (bs ! j)"
  by (simp_all add: insert_head_def unlink_def Let_def upd_at_def nth_list_update)

definition released :: "nat \<Rightarrow> buf list \<Rightarrow> buf list" where
  "released i bs = upd_at i (\<lambda>b. b\<lparr>b_busy := False\<rparr>) (insert_head i (unlink i bs))"

lemma released_fields:
  assumes "i < length bs"
  shows "b_busy (released i bs ! j) = (j \<noteq> i \<and> b_busy (bs ! j))"
    "b_valid (released i bs ! j) = b_valid (bs ! j)" "b_dirty (released i bs ! j) = b_dirty (bs ! j)"
    "b_dev (released i bs ! j) = b_dev (bs ! j)" "b_blockno (released i bs ! j) = b_blockno (bs ! j)"
    "b_data (released i bs ! j) = b_data (bs ! j)" "length (released i bs) = length bs"
  using assms by (cases "j = i"; simp add: released_def)+

lemma brelse_ok:
  assumes "bc_ok s" "quiet s" "i < NBUF" "b_busy (k_bcache s ! i)"
    and "\<not> b_dirty (k_bcache s ! i) \<Longrightarrow> b_data (k_bcache s ! i) = k_disk s (b_blockno (k_bcache s ! i))"
  defines "s' \<equiv> s\<lparr>k_bcache := released i (k_bcache s), k_procs := wakeup1_procs (ChBuf i) (k_procs s)\<rparr>"
  shows "brelse i s = Ret () s'" "bc_ok s'" "blk s' = blk s"
proof -
  let ?bs = "k_bcache s"
  have l: "i < length ?bs" using assms(3) bc_okD(1) [OF assms(1)] by simp
  show "brelse i s = Ret () s'"
    using assms(2,4) by (simp add: brelse_def wakeup_eq s'_def released_def)
  obtain xs where xs: "dll ?bs xs" "set xs = {..<NBUF}" using assms(1) by (auto simp: bc_ok_def)
  obtain as cs where "xs = as @ i # cs" using assms(3) xs(2) split_list [of i xs] by auto
  then have "dll (released i ?bs) (i # as @ cs)" "set (i # as @ cs) = {..<NBUF}"
    using dll_move_front xs by (auto simp: released_def dll_upd)
  then have "\<exists>xs. dll (k_bcache s') xs \<and> set xs = {..<NBUF}" by (auto simp: s'_def)
  moreover have "b_data (?bs ! j) = k_disk s (b_blockno (?bs ! j))"
    if "j < NBUF" "b_dev (?bs ! j) = 1" "b_valid (?bs ! j)" "\<not> b_dirty (?bs ! j)" "j = i \<or> \<not> b_busy (?bs ! j)" for j
    using that assms(5) bc_okD(5) [OF assms(1), of j] by auto
  ultimately show "bc_ok s'"
    using assms(1) unfolding bc_ok_def by (simp add: s'_def released_fields [OF l])
  show "blk s' = blk s"
    by (intro ext blk_eqI) (simp_all add: s'_def holds_blk_def released_fields [OF l])
qed

section \<open>The cache as a store of blocks\<close>

text \<open>
  \<open>dirtyb s\<close>: the blocks that wait to be logged; \<open>busyb s\<close>: the blocks in locked buffers;
  \<open>hold s i n\<close>: buffer \<open>i\<close> is locked and has the contents of block \<open>n\<close>.
\<close>

definition dirtyb :: "kernel \<Rightarrow> uint set" where
  "dirtyb s = {b_blockno (k_bcache s ! i) |i. i < NBUF \<and> b_dirty (k_bcache s ! i)}"

definition busyb :: "kernel \<Rightarrow> uint set" where
  "busyb s = {b_blockno (k_bcache s ! i) |i. i < NBUF \<and> b_busy (k_bcache s ! i)}"

definition hold :: "kernel \<Rightarrow> nat \<Rightarrow> uint \<Rightarrow> bool" where
  "hold s i n \<longleftrightarrow> i < NBUF \<and> b_busy (k_bcache s ! i) \<and> b_valid (k_bcache s ! i)
     \<and> b_dev (k_bcache s ! i) = 1 \<and> b_blockno (k_bcache s ! i) = n"

lemma hold_blk: "bc_ok s \<Longrightarrow> hold s i n \<Longrightarrow> blk s n = b_data (k_bcache s ! i)"
  using blk_hit [of s i n] by (simp add: hold_def holds_blk_def)

lemma hold_unique: "bc_ok s \<Longrightarrow> hold s i n \<Longrightarrow> j < NBUF \<Longrightarrow> b_dev (k_bcache s ! j) = 1 \<Longrightarrow>
    b_blockno (k_bcache s ! j) = n \<Longrightarrow> j = i"
  using bc_okD(2) [of s j i] by (simp add: hold_def)

lemma dirtyb_iff:
  assumes "bc_ok s" "hold s i n"
  shows "n \<in> dirtyb s \<longleftrightarrow> b_dirty (k_bcache s ! i)"
proof
  assume "n \<in> dirtyb s"
  then obtain j where j: "j < NBUF" "b_dirty (k_bcache s ! j)" "b_blockno (k_bcache s ! j) = n"
    by (auto simp: dirtyb_def)
  then have "j = i" using hold_unique [OF assms j(1) _ j(3)] bc_okD(6) [OF assms(1) j(1,2)] by simp
  then show "b_dirty (k_bcache s ! i)" using j by simp
qed (use assms in \<open>auto simp: dirtyb_def hold_def\<close>)

lemma in_dirtyb: "m \<in> dirtyb s \<longleftrightarrow> (\<exists>j<NBUF. b_dirty (k_bcache s ! j) \<and> b_blockno (k_bcache s ! j) = m)"
  by (auto simp: dirtyb_def)

lemma in_busyb: "m \<in> busyb s \<longleftrightarrow> (\<exists>j<NBUF. b_busy (k_bcache s ! j) \<and> b_blockno (k_bcache s ! j) = m)"
  by (auto simp: busyb_def)

lemma dirtyb_eqI:
  assumes "\<And>j. j < NBUF \<Longrightarrow> b_dirty (k_bcache s' ! j) = b_dirty (k_bcache s ! j)"
    and "\<And>j. j < NBUF \<Longrightarrow> b_dirty (k_bcache s ! j) \<Longrightarrow> b_blockno (k_bcache s' ! j) = b_blockno (k_bcache s ! j)"
  shows "dirtyb s' = dirtyb s"
  unfolding dirtyb_def using assms by (intro Collect_cong) (metis (no_types, lifting))

lemma finite_blocks [simp]: "finite (dirtyb s)" "finite (busyb s)"
  by (auto simp: dirtyb_def busyb_def)

lemma can_getI:
  assumes "bc_ok s" "n < k_disksize s" "n \<notin> busyb s" "n \<in> dirtyb s \<or> card (dirtyb s \<union> busyb s) < NBUF"
  shows "can_get s n"
proof -
  let ?I = "{i. i < NBUF \<and> (b_busy (k_bcache s ! i) \<or> b_dirty (k_bcache s ! i))}"
  have nb: "\<not> b_busy (k_bcache s ! j)" if "j < NBUF" "b_blockno (k_bcache s ! j) = n" for j
    using that assms(3) by (auto simp: busyb_def)
  from assms(4) show ?thesis
  proof
    assume "n \<in> dirtyb s"
    then show ?thesis
      using nb assms(2) bc_okD(6) [OF assms(1)] by (auto simp: can_get_def in_dirtyb)
  next
    assume c: "card (dirtyb s \<union> busyb s) < NBUF"
    have "inj_on (\<lambda>i. b_blockno (k_bcache s ! i)) ?I"
      using bc_okD(2,6,7) [OF assms(1)] by (fastforce simp: inj_on_def)
    then have "card ?I \<le> card (dirtyb s \<union> busyb s)"
      by (intro card_inj_on_le) (auto simp: dirtyb_def busyb_def)
    then have "?I \<noteq> {..<NBUF}" using c by (metis card_lessThan not_le)
    then obtain i where "i < NBUF" "\<not> b_busy (k_bcache s ! i)" "\<not> b_dirty (k_bcache s ! i)" by auto
    then show ?thesis using nb assms(2) by (auto simp: can_get_def)
  qed
qed

lemma bread_store:
  assumes "bc_ok s" "quiet s" "n < k_disksize s" "n \<notin> busyb s"
    and "n \<in> dirtyb s \<or> card (dirtyb s \<union> busyb s) < NBUF"
  shows "\<exists>i bs. bread 1 n s = Ret i (s\<lparr>k_bcache := bs\<rparr>) \<and> bc_ok (s\<lparr>k_bcache := bs\<rparr>)
    \<and> hold (s\<lparr>k_bcache := bs\<rparr>) i n \<and> (\<forall>j m. hold s j m \<longrightarrow> hold (s\<lparr>k_bcache := bs\<rparr>) j m)
    \<and> blk (s\<lparr>k_bcache := bs\<rparr>) = blk s \<and> dirtyb (s\<lparr>k_bcache := bs\<rparr>) = dirtyb s
    \<and> busyb (s\<lparr>k_bcache := bs\<rparr>) = insert n (busyb s) \<and> (n \<notin> dirtyb s \<longrightarrow> blk s n = k_disk s n)"
proof -
  obtain i b where i: "i < NBUF" "\<not> b_busy (k_bcache s ! i)"
    and r: "bread 1 n s = Ret i (s\<lparr>k_bcache := upd_at i (\<lambda>_. b) (k_bcache s)\<rparr>)"
    and b: "b_busy b" "b_valid b" "b_dev b = 1" "b_blockno b = n" "b_data b = blk s n"
    and d: "b_dirty b \<longrightarrow> b_dirty (k_bcache s ! i) \<and> b_dev (k_bcache s ! i) = 1 \<and> b_blockno (k_bcache s ! i) = n"
      "\<not> b_dirty b \<longrightarrow> \<not> b_dirty (k_bcache s ! i) \<and> blk s n = k_disk s n"
    and ok: "bc_ok (s\<lparr>k_bcache := upd_at i (\<lambda>_. b) (k_bcache s)\<rparr>)"
      "blk (s\<lparr>k_bcache := upd_at i (\<lambda>_. b) (k_bcache s)\<rparr>) = blk s"
    using bread_ok [OF assms(1,2) can_getI [OF assms(1,3,4,5)]] by blast
  let ?s = "s\<lparr>k_bcache := upd_at i (\<lambda>_. b) (k_bcache s)\<rparr>"
  have l: "i < length (k_bcache s)" using i bc_okD(1) [OF assms(1)] by simp
  have e: "upd_at i (\<lambda>_. b) (k_bcache s) ! j = (if j = i then b else k_bcache s ! j)" for j
    using l by (simp add: upd_at_def nth_list_update)
  have "hold ?s i n" using i b e by (simp add: hold_def)
  moreover have "hold ?s j m" if "hold s j m" for j m
    using that i e by (auto simp: hold_def)
  moreover have "dirtyb ?s = dirtyb s"
    using d b(4) by (intro dirtyb_eqI) (auto simp: e split: if_splits)
  moreover have "busyb ?s = insert n (busyb s)"
  proof -
    have "(\<exists>j<NBUF. b_busy (k_bcache ?s ! j) \<and> b_blockno (k_bcache ?s ! j) = m)
        = (m = n \<or> (\<exists>j<NBUF. b_busy (k_bcache s ! j) \<and> b_blockno (k_bcache s ! j) = m))" for m
      using b(1,4) i by (auto simp: e split: if_splits)
    then show ?thesis by (intro set_eqI) (simp add: in_busyb)
  qed
  moreover have "blk s n = k_disk s n" if "n \<notin> dirtyb s"
  proof -
    have "\<not> b_dirty b" using d(1) i(1) that by (auto simp: dirtyb_def)
    then show ?thesis using d(2) by simp
  qed
  ultimately show ?thesis using r ok by blast
qed

lemma set_data_store:
  assumes "bc_ok s" "hold s i n" "length d = BSIZE"
  defines "s' \<equiv> s\<lparr>k_bcache := upd_at i (\<lambda>b. b\<lparr>b_data := d\<rparr>) (k_bcache s)\<rparr>"
  shows "bc_ok s'" "\<And>j m. hold s' j m = hold s j m" "blk s' = (blk s)(n := d)"
    "dirtyb s' = dirtyb s" "busyb s' = busyb s"
proof -
  let ?b = "(k_bcache s ! i)\<lparr>b_data := d\<rparr>"
  have i: "i < NBUF" "b_busy (k_bcache s ! i)" "b_valid (k_bcache s ! i)" "b_dev (k_bcache s ! i) = 1"
    "b_blockno (k_bcache s ! i) = n" using assms(2) by (auto simp: hold_def)
  have l: "i < length (k_bcache s)" using i bc_okD(1) [OF assms(1)] by simp
  have s': "s' = s\<lparr>k_bcache := upd_at i (\<lambda>_. ?b) (k_bcache s)\<rparr>"
    unfolding s'_def by (rule arg_cong [where f = "\<lambda>x. s\<lparr>k_bcache := x\<rparr>"], rule upd_at_eqI) simp
  have ne: "b_blockno (k_bcache s ! j) \<noteq> n" if "j < NBUF" "j \<noteq> i" "b_dev (k_bcache s ! j) = 1" for j
    using hold_unique [OF assms(1,2) that(1,3)] that(2) by blast
  show ok: "bc_ok s'" unfolding s'
    by (rule bc_ok_upd [OF assms(1) i(1)]) (simp_all add: i assms(3) ne)
  have e: "k_bcache s' ! j = (if j = i then ?b else k_bcache s ! j)" for j
    using l by (simp add: s'_def upd_at_def nth_list_update)
  show h: "hold s' j m = hold s j m" for j m by (simp add: hold_def e)
  have "b_dirty (k_bcache s' ! j) = b_dirty (k_bcache s ! j)" "b_busy (k_bcache s' ! j) = b_busy (k_bcache s ! j)"
    "b_blockno (k_bcache s' ! j) = b_blockno (k_bcache s ! j)" for j by (simp_all add: e)
  then show "dirtyb s' = dirtyb s" "busyb s' = busyb s" by (simp_all add: dirtyb_def busyb_def)
  show "blk s' = (blk s)(n := d)"
  proof
    fix m
    show "blk s' m = ((blk s)(n := d)) m"
    proof (cases "m = n")
      case True
      then show ?thesis using hold_blk [OF ok, of i n] h assms(2) e by simp
    next
      case False
      have "blk s' m = blk s m"
      proof (rule blk_eqI)
        show "holds_blk s' m j = holds_blk s m j" for j by (simp add: holds_blk_def e)
        show "b_data (k_bcache s' ! j) = b_data (k_bcache s ! j)" if "holds_blk s m j" for j
          using that False i(5) by (auto simp: holds_blk_def e)
        show "k_disk s' m = k_disk s m" by (simp add: s'_def)
      qed
      then show ?thesis using False by simp
    qed
  qed
qed

lemma bwrite_store:
  assumes "bc_ok s" "hold s i n" "n < k_disksize s"
  shows "\<exists>bs. bwrite i s = Ret () ((disk_write n (blk s n) s)\<lparr>k_bcache := bs\<rparr>)
    \<and> (let s' = (disk_write n (blk s n) s)\<lparr>k_bcache := bs\<rparr> in bc_ok s' \<and> (\<forall>j m. hold s' j m = hold s j m)
       \<and> blk s' = blk s \<and> dirtyb s' = dirtyb s - {n} \<and> busyb s' = busyb s)"
proof -
  have i: "i < NBUF" "b_busy (k_bcache s ! i)" "b_valid (k_bcache s ! i)" "b_dev (k_bcache s ! i) = 1"
    "b_blockno (k_bcache s ! i) = n" using assms(2) by (auto simp: hold_def)
  have l: "i < length (k_bcache s)" using i bc_okD(1) [OF assms(1)] by simp
  let ?bs = "upd_at i (\<lambda>b. b\<lparr>b_dirty := False\<rparr>) (k_bcache s)"
  let ?s = "(disk_write n (blk s n) s)\<lparr>k_bcache := ?bs\<rparr>"
  have d: "b_data (k_bcache s ! i) = blk s n" using hold_blk [OF assms(1,2)] by simp
  have w: "bwrite i s = Ret () ?s" "bc_ok ?s" "blk ?s = blk s"
    using bwrite_ok [OF assms(1) i(1-4)] i(5) assms(3) d by simp_all
  have e: "?bs ! j = (if j = i then (k_bcache s ! i)\<lparr>b_dirty := False\<rparr> else k_bcache s ! j)" for j
    using l by (simp add: upd_at_def nth_list_update)
  have "hold ?s j m = hold s j m" for j m by (simp add: hold_def e)
  moreover have "dirtyb ?s = dirtyb s - {n}"
  proof -
    have "b_blockno (k_bcache s ! j) \<noteq> n" if "j < NBUF" "b_dirty (k_bcache s ! j)" "j \<noteq> i" for j
      using hold_unique [OF assms(1,2) that(1)] bc_okD(6) [OF assms(1) that(1,2)] that(3) by blast
    moreover have "b_dirty (k_bcache ?s ! j) = (j \<noteq> i \<and> b_dirty (k_bcache s ! j))"
      "b_blockno (k_bcache ?s ! j) = b_blockno (k_bcache s ! j)" for j by (simp_all add: e)
    ultimately show ?thesis using i(5) by (intro set_eqI) (simp add: in_dirtyb, metis)
  qed
  moreover have "b_busy (k_bcache ?s ! j) = b_busy (k_bcache s ! j)"
    "b_blockno (k_bcache ?s ! j) = b_blockno (k_bcache s ! j)" for j by (simp_all add: e)
  then have "busyb ?s = busyb s" by (simp add: busyb_def)
  ultimately show ?thesis using w by (auto simp: Let_def)
qed

lemma brelse_store:
  assumes "bc_ok s" "quiet s" "hold s i n" "n \<in> dirtyb s \<or> blk s n = k_disk s n"
  shows "\<exists>bs ps. brelse i s = Ret () (s\<lparr>k_bcache := bs, k_procs := ps\<rparr>)
    \<and> (let s' = s\<lparr>k_bcache := bs, k_procs := ps\<rparr> in bc_ok s' \<and> (\<forall>j m. m \<noteq> n \<longrightarrow> hold s' j m = hold s j m)
       \<and> blk s' = blk s \<and> dirtyb s' = dirtyb s \<and> busyb s' = busyb s - {n})"
proof -
  have i: "i < NBUF" "b_busy (k_bcache s ! i)" "b_valid (k_bcache s ! i)" "b_dev (k_bcache s ! i) = 1"
    "b_blockno (k_bcache s ! i) = n" using assms(3) by (auto simp: hold_def)
  have l: "i < length (k_bcache s)" using i bc_okD(1) [OF assms(1)] by simp
  let ?bs = "released i (k_bcache s)" and ?ps = "wakeup1_procs (ChBuf i) (k_procs s)"
  let ?s = "s\<lparr>k_bcache := ?bs, k_procs := ?ps\<rparr>"
  have r: "brelse i s = Ret () ?s" "bc_ok ?s" "blk ?s = blk s"
    using brelse_ok [OF assms(1,2) i(1,2)] assms(4) i(5) dirtyb_iff [OF assms(1,3)]
      hold_blk [OF assms(1,3)] by auto
  note f = released_fields [OF l]
  have "hold ?s j m = hold s j m" if "m \<noteq> n" for j m
    using that i(5) by (auto simp: hold_def f)
  moreover have "dirtyb ?s = dirtyb s" unfolding dirtyb_def by (simp add: f)
  moreover have "busyb ?s = busyb s - {n}"
  proof -
    have "b_blockno (k_bcache s ! j) \<noteq> n" if "j < NBUF" "b_busy (k_bcache s ! j)" "j \<noteq> i" for j
      using hold_unique [OF assms(1,3) that(1)] bc_okD(7) [OF assms(1) that(1,2)] that(3) by blast
    then show ?thesis using i(5) by (intro set_eqI) (simp add: in_busyb f, metis)
  qed
  ultimately show ?thesis using r by (auto simp: Let_def)
qed

section \<open>The cache from boot to use\<close>

text \<open>\<^verbatim>\<open>binit\<close> links all buffers, the last one first.\<close>

definition binit_inv :: "nat \<Rightarrow> buf list \<Rightarrow> bool" where
  "binit_inv k bs \<longleftrightarrow> length bs = Suc NBUF \<and> dpath bs NBUF (rev [0..<k]) NBUF
     \<and> (\<forall>j<k. b_dev (bs ! j) = - 1)
     \<and> (\<forall>j<NBUF. \<not> b_busy (bs ! j) \<and> \<not> b_valid (bs ! j) \<and> \<not> b_dirty (bs ! j))"

lemma binit_step:
  assumes "binit_inv k bs" "k < NBUF"
  shows "binit_inv (Suc k) (insert_head k (upd_at k (\<lambda>b. b\<lparr>b_dev := - 1\<rparr>) bs))"
proof -
  let ?bs = "upd_at k (\<lambda>b. b\<lparr>b_dev := - 1\<rparr>) bs"
  have "dpath ?bs NBUF (rev [0..<k]) NBUF = dpath bs NBUF (rev [0..<k]) NBUF"
    by (rule dpath_cong) (auto simp: upd_at_def nth_list_update)
  then have "dpath (insert_head k ?bs) NBUF (k # rev [0..<k]) NBUF"
    using assms by (intro dpath_insert_head) (auto simp: binit_inv_def)
  then show ?thesis
    using assms by (auto simp: binit_inv_def upd_at_def nth_list_update less_Suc_eq)
qed

lemma binit_loop:
  assumes "binit_inv k (k_bcache s)" "k \<le> n" "n \<le> NBUF"
  shows "\<exists>bs. for_each [k..<n] (\<lambda>i. modify (\<lambda>s. s\<lparr>k_bcache :=
        insert_head i (upd_at i (\<lambda>b. b\<lparr>b_dev := - 1\<rparr>) (k_bcache s))\<rparr>)) s
     = Ret () (s\<lparr>k_bcache := bs\<rparr>) \<and> binit_inv n bs"
  using assms
proof (induction "n - k" arbitrary: k s)
  case 0
  then have "n = k" by simp
  then show ?case using "0.prems"(1) by (intro exI [of _ "k_bcache s"]) simp
next
  case (Suc m)
  then have kn: "k < n" by simp
  then have up: "[k..<n] = k # [Suc k..<n]" by (rule upt_conv_Cons)
  let ?s = "s\<lparr>k_bcache := insert_head k (upd_at k (\<lambda>b. b\<lparr>b_dev := - 1\<rparr>) (k_bcache s))\<rparr>"
  have "binit_inv (Suc k) (k_bcache ?s)" using binit_step Suc.prems kn by simp
  then show ?case
    using Suc.hyps(1) [of "Suc k" ?s] Suc.hyps(2) Suc.prems(3) kn unfolding up by simp
qed

lemma binit_ok:
  assumes "length (k_bcache s) = Suc NBUF" "\<forall>n. length (k_disk s n) = BSIZE"
    and "\<forall>b\<in>set (k_bcache s). \<not> b_busy b \<and> \<not> b_valid b \<and> \<not> b_dirty b"
  shows "\<exists>t. binit s = Ret () t \<and> bc_ok t \<and> blk t = k_disk s \<and> dirtyb t = {} \<and> busyb t = {}
    \<and> dll (k_bcache t) (rev [0..<NBUF]) \<and> (quiet s \<longrightarrow> quiet t)
    \<and> t = s\<lparr>k_lks := k_lks t, k_bcache := k_bcache t\<rparr>"
proof -
  let ?l = "(k_lks s)(BcacheLk := (k_lks s BcacheLk)\<lparr>l_name := ''bcache'', l_locked := 0, l_cpu := None\<rparr>)"
  let ?s = "s\<lparr>k_lks := ?l, k_bcache := upd_at NBUF (\<lambda>b. b\<lparr>b_prev := NBUF, b_next := NBUF\<rparr>) (k_bcache s)\<rparr>"
  have "binit_inv 0 (k_bcache ?s)"
    using assms(1,3) by (auto simp: binit_inv_def links_def upd_at_def nth_list_update)
  then obtain bs where l: "for_each [0..<NBUF] (\<lambda>i. modify (\<lambda>s. s\<lparr>k_bcache :=
        insert_head i (upd_at i (\<lambda>b. b\<lparr>b_dev := - 1\<rparr>) (k_bcache s))\<rparr>)) ?s
     = Ret () (?s\<lparr>k_bcache := bs\<rparr>)" and i: "binit_inv NBUF bs"
    using binit_loop [of 0 ?s NBUF] by auto
  let ?t = "?s\<lparr>k_bcache := bs\<rparr>"
  have "binit s = Ret () ?t" using l by (simp add: binit_def initlock_def)
  moreover have d: "dll bs (rev [0..<NBUF])" using i by (auto simp: binit_inv_def dll_def)
  moreover have "bc_ok ?t"
    using d i assms(2) by (auto simp: bc_ok_def binit_inv_def intro!: exI [of _ "rev [0..<NBUF]"])
  moreover have "blk ?t = k_disk s"
    using i by (intro ext, subst blk_miss) (auto simp: holds_blk_def binit_inv_def)
  moreover have "dirtyb ?t = {}" "busyb ?t = {}" using i by (auto simp: dirtyb_def busyb_def binit_inv_def)
  moreover have "quiet ?t" if "quiet s"
    using that by (auto simp: quiet_def lock_avail_def lock_free_def)
  ultimately show ?thesis by (intro exI [of _ ?t]) simp
qed

text \<open>
  \<^verbatim>\<open>binit\<close> establishes the invariant of the buffer cache: after it every buffer is on the
  list, unlocked and empty, so every reader sees the disk.
\<close>

theorem binit_establishes:
  assumes "length (k_bcache s) = Suc NBUF" "\<forall>n. length (k_disk s n) = BSIZE"
    and "\<forall>b\<in>set (k_bcache s). \<not> b_busy b \<and> \<not> b_valid b \<and> \<not> b_dirty b"
  shows "\<exists>t. binit s = Ret () t \<and> bc_ok t \<and> blk t = k_disk s \<and> dirtyb t = {} \<and> busyb t = {}
    \<and> dll (k_bcache t) (rev [0..<NBUF])"
  using binit_ok [OF assms] by blast

text \<open>
  C6: \<^verbatim>\<open>bread\<close> returns a locked buffer with the current contents of the block, whether the
  block was cached or a buffer had to be recycled and filled from the disk. No block's contents
  change, every buffer held before stays held, and the invariant of the cache is kept.
\<close>

theorem bread_returns_block:
  assumes "bc_ok s" "quiet s" "n < k_disksize s" "n \<notin> busyb s" "card (dirtyb s \<union> busyb s) < NBUF"
  shows "\<exists>i t. bread 1 n s = Ret i t \<and> bc_ok t \<and> hold t i n \<and> b_data (k_bcache t ! i) = blk s n
    \<and> blk t = blk s \<and> k_disk t = k_disk s \<and> dirtyb t = dirtyb s \<and> busyb t = insert n (busyb s)
    \<and> (\<forall>j m. hold s j m \<longrightarrow> hold t j m)"
proof -
  obtain i bs where "bread 1 n s = Ret i (s\<lparr>k_bcache := bs\<rparr>)" "bc_ok (s\<lparr>k_bcache := bs\<rparr>)"
    "hold (s\<lparr>k_bcache := bs\<rparr>) i n" "\<forall>j m. hold s j m \<longrightarrow> hold (s\<lparr>k_bcache := bs\<rparr>) j m"
    "blk (s\<lparr>k_bcache := bs\<rparr>) = blk s" "dirtyb (s\<lparr>k_bcache := bs\<rparr>) = dirtyb s"
    "busyb (s\<lparr>k_bcache := bs\<rparr>) = insert n (busyb s)"
    using bread_store [OF assms(1-4) disjI2 [OF assms(5)]] by blast
  then show ?thesis using hold_blk by (intro exI [of _ i] exI [of _ "s\<lparr>k_bcache := bs\<rparr>"]) fastforce
qed

text \<open>
  C7: the buffer list refines a list in order of last use. Releasing a buffer with the
  pointer updates of \<^verbatim>\<open>brelse\<close> moves it to the front of the list and keeps the order of the
  others, forwards through \<^verbatim>\<open>next\<close> and backwards through \<^verbatim>\<open>prev\<close>.
\<close>

theorem brelse_moves_to_front:
  assumes "quiet s" "dll (k_bcache s) (as @ i # cs)" "b_busy (k_bcache s ! i)"
  shows "\<exists>t. brelse i s = Ret () t \<and> dll (k_bcache t) (i # as @ cs) \<and> \<not> b_busy (k_bcache t ! i)
    \<and> (\<forall>p<length (k_procs s). p_chan (k_procs s ! p) = ChBuf i \<longrightarrow> p_state (k_procs t ! p) \<noteq> SLEEPING)"
proof -
  let ?t = "s\<lparr>k_bcache := released i (k_bcache s), k_procs := wakeup1_procs (ChBuf i) (k_procs s)\<rparr>"
  have "i < length (k_bcache s)" using assms(2) by (auto simp: dll_def)
  then have "\<not> b_busy (k_bcache ?t ! i)" by (simp add: released_fields)
  moreover have "brelse i s = Ret () ?t"
    using assms(1,3) by (simp add: brelse_def wakeup_eq released_def)
  moreover have "dll (k_bcache ?t) (i # as @ cs)"
    using dll_move_front [OF assms(2)] by (simp add: released_def dll_upd)
  ultimately show ?thesis by (auto simp: nth_wakeup1_procs intro!: exI [of _ ?t])
qed

text \<open>
  C12: a block written through the cache is read back. Getting a block, changing its
  data, writing and releasing it updates exactly that block, in the cache and on the disk, and
  the next \<^verbatim>\<open>bread\<close> of it returns the new data.
\<close>

theorem block_write_read:
  assumes "bc_ok s" "quiet s" "n < k_disksize s" "n \<notin> busyb s" "card (dirtyb s \<union> busyb s) < NBUF"
    and "length d = BSIZE"
  shows "wp (bnd (bread 1 n) (\<lambda>i. andthen (upd_buf i (\<lambda>b. b\<lparr>b_data := d\<rparr>)) (andthen (bwrite i) (brelse i))))
    (\<lambda>_ t. bc_ok t \<and> blk t = (blk s)(n := d) \<and> k_disk t = (k_disk s)(n := d)
       \<and> wp (bread 1 n) (\<lambda>i u. b_data (k_bcache u ! i) = d) t) s"
proof -
  obtain i bs where r: "bread 1 n s = Ret i (s\<lparr>k_bcache := bs\<rparr>)" and ok: "bc_ok (s\<lparr>k_bcache := bs\<rparr>)"
    and h: "hold (s\<lparr>k_bcache := bs\<rparr>) i n" and e: "blk (s\<lparr>k_bcache := bs\<rparr>) = blk s"
      "dirtyb (s\<lparr>k_bcache := bs\<rparr>) = dirtyb s" "busyb (s\<lparr>k_bcache := bs\<rparr>) = insert n (busyb s)"
    using bread_store [OF assms(1-4) disjI2 [OF assms(5)]] by blast
  define s1 where "s1 = s\<lparr>k_bcache := upd_at i (\<lambda>b. b\<lparr>b_data := d\<rparr>) bs\<rparr>"
  have s1: "bc_ok s1" "hold s1 i n" "blk s1 = (blk s)(n := d)" "dirtyb s1 = dirtyb s" "busyb s1 = insert n (busyb s)"
    using set_data_store [OF ok h assms(6)] h e by (simp_all add: s1_def)
  have "n < k_disksize s1" using assms(3) by (simp add: s1_def)
  from bwrite_store [OF s1(1,2) this] obtain bs2 s2 where
    w: "bwrite i s1 = Ret () s2" and s2: "s2 = (disk_write n d s1)\<lparr>k_bcache := bs2\<rparr>"
      "bc_ok s2" "hold s2 i n" "blk s2 = blk s1" "dirtyb s2 = dirtyb s - {n}" "busyb s2 = busyb s1"
    using s1 by (auto simp: Let_def)
  have q: "quiet s2" using assms(2) by (simp add: s2(1) s1_def disk_write_def)
  have "blk s2 n = k_disk s2 n" using s1(3) s2(4) by (simp add: s2(1) disk_write_def)
  then obtain bs3 ps s3 where b: "brelse i s2 = Ret () s3" and s3: "s3 = s2\<lparr>k_bcache := bs3, k_procs := ps\<rparr>"
      "bc_ok s3" "blk s3 = blk s2" "dirtyb s3 = dirtyb s - {n}" "busyb s3 = busyb s2 - {n}"
    using brelse_store [OF s2(2) q s2(3)] s2(5) by (auto simp: Let_def)
  have "card (dirtyb s3 \<union> busyb s3) \<le> card (dirtyb s \<union> busyb s)"
    using s3(4,5) s2(6) s1(5) by (intro card_mono) auto
  then have c: "card (dirtyb s3 \<union> busyb s3) < NBUF" using assms(5) by simp
  have "quiet s3" "n < k_disksize s3" "n \<notin> busyb s3"
    using q assms(3) s3(5) by (simp_all add: s3(1) s2(1) s1_def disk_write_def)
  then obtain j bs4 where r4: "bread 1 n s3 = Ret j (s3\<lparr>k_bcache := bs4\<rparr>)" "bc_ok (s3\<lparr>k_bcache := bs4\<rparr>)"
    "hold (s3\<lparr>k_bcache := bs4\<rparr>) j n" "blk (s3\<lparr>k_bcache := bs4\<rparr>) = blk s3"
    using bread_store [OF s3(2) _ _ _ disjI2 [OF c]] by blast
  have "b_data (bs4 ! j) = d" using hold_blk [OF r4(2,3)] r4(4) s3(3) s2(4) s1(3) by simp
  then have "wp (bread 1 n) (\<lambda>i u. b_data (k_bcache u ! i) = d) s3" using r4(1) by (intro wpI) auto
  moreover have "k_disk s3 = (k_disk s)(n := d)" by (simp add: s3(1) s2(1) s1_def disk_write_def)
  moreover have "blk s3 = (blk s)(n := d)" using s3(3) s2(4) s1(3) by simp
  ultimately show ?thesis
    using r w b s3(2) by (intro wpI [where s' = s3]) (auto simp: s1_def)
qed

section \<open>Examples\<close>

text \<open>The cache just after \<^verbatim>\<open>binit\<close>.\<close>

definition cache_start :: kernel where
  "cache_start = (case binit disk_start of Ret _ t \<Rightarrow> t | _ \<Rightarrow> disk_start)"

lemma cache_start_ok:
  "binit disk_start = Ret () cache_start" "bc_ok cache_start" "quiet cache_start"
  "blk cache_start = (\<lambda>_. replicate BSIZE 0)" "dirtyb cache_start = {}" "busyb cache_start = {}"
  "dll (k_bcache cache_start) (rev [0..<NBUF])" "k_disksize cache_start = 1000"
  "k_disk cache_start = (\<lambda>_. replicate BSIZE 0)" "k_log cache_start = k_log boot"
proof -
  have d: "\<forall>b\<in>set (k_bcache disk_start). \<not> b_busy b \<and> \<not> b_valid b \<and> \<not> b_dirty b"
    by (simp add: buf0_def)
  obtain t where t: "binit disk_start = Ret () t" "bc_ok t" "blk t = k_disk disk_start" "dirtyb t = {}"
    "busyb t = {}" "dll (k_bcache t) (rev [0..<NBUF])" "quiet t"
    "t = disk_start\<lparr>k_lks := k_lks t, k_bcache := k_bcache t\<rparr>"
    using binit_ok [OF disk_start_simps(2) _ d] by auto
  have c: "cache_start = t" by (simp add: cache_start_def t(1))
  have f: "k_disksize t = k_disksize disk_start" "k_disk t = k_disk disk_start" "k_log t = k_log disk_start"
    by (subst t(8), simp)+
  show "binit disk_start = Ret () cache_start" "bc_ok cache_start" "quiet cache_start"
    "blk cache_start = (\<lambda>_. replicate BSIZE 0)" "dirtyb cache_start = {}" "busyb cache_start = {}"
    "dll (k_bcache cache_start) (rev [0..<NBUF])" "k_disksize cache_start = 1000"
    "k_disk cache_start = (\<lambda>_. replicate BSIZE 0)" "k_log cache_start = k_log boot"
    using t(1-7) f by (simp_all add: c)
qed

theorem binit_establishes_witness:
  "\<exists>t. binit disk_start = Ret () t \<and> bc_ok t \<and> blk t 7 = replicate BSIZE 0"
  using binit_establishes [of disk_start] by (auto simp: buf0_def)

theorem bread_returns_block_witness:
  "\<exists>i t. bread 1 7 cache_start = Ret i t \<and> b_data (k_bcache t ! i) = replicate BSIZE 0"
  using bread_returns_block [of cache_start 7] cache_start_ok by (auto simp: size_defs)

theorem brelse_moves_to_front_witness:
  "\<exists>t. brelse 3 (cache_start\<lparr>k_bcache := upd_at 3 (\<lambda>b. b\<lparr>b_busy := True\<rparr>) (k_bcache cache_start)\<rparr>) = Ret () t
     \<and> dll (k_bcache t) (3 # rev [4..<NBUF] @ [2, 1, 0])"
proof -
  let ?s = "cache_start\<lparr>k_bcache := upd_at 3 (\<lambda>b. b\<lparr>b_busy := True\<rparr>) (k_bcache cache_start)\<rparr>"
  have "rev [0..<NBUF] = rev [4..<NBUF] @ 3 # [2, 1, 0]" by (simp add: size_defs upt_rec)
  then have "dll (k_bcache ?s) (rev [4..<NBUF] @ 3 # [2, 1, 0])"
    using cache_start_ok(7) by (simp add: dll_upd)
  moreover have "b_busy (k_bcache ?s ! 3)"
    using bc_okD(1) [OF cache_start_ok(2)] by (simp add: size_defs)
  ultimately show ?thesis
    using brelse_moves_to_front [of ?s "rev [4..<NBUF]" 3 "[2, 1, 0]"] cache_start_ok(3) by auto
qed

theorem block_write_read_witness:
  "wp (bnd (bread 1 7) (\<lambda>i. andthen (upd_buf i (\<lambda>b. b\<lparr>b_data := replicate BSIZE 42\<rparr>)) (andthen (bwrite i) (brelse i))))
    (\<lambda>_ t. wp (bread 1 7) (\<lambda>i u. b_data (k_bcache u ! i) = replicate BSIZE 42) t) cache_start"
  using block_write_read [of cache_start 7 "replicate BSIZE 42"] cache_start_ok
  by (auto simp: size_defs elim: wp_mono)

end
