(* ===== verification/Bytes.thy ===== *)
theory Bytes
  imports Memory
begin

text \<open>
  Little-endian fields inside a block of bytes: what the C code does when it casts a
  block's data to a structure and reads or assigns its 16- and 32-bit fields.
\<close>

definition get16 :: "uchar list \<Rightarrow> nat \<Rightarrow> ushort" where
  "get16 d off = ucast (d ! off) OR push_bit 8 (ucast (d ! (off + 1)))"

definition put16 :: "uchar list \<Rightarrow> nat \<Rightarrow> ushort \<Rightarrow> uchar list" where
  "put16 d off v = d[off := ucast v, off + 1 := ucast (drop_bit 8 v)]"

definition get32 :: "uchar list \<Rightarrow> nat \<Rightarrow> uint" where
  "get32 d off = ucast (d ! off) OR push_bit 8 (ucast (d ! (off + 1)))
     OR push_bit 16 (ucast (d ! (off + 2))) OR push_bit 24 (ucast (d ! (off + 3)))"

definition put32 :: "uchar list \<Rightarrow> nat \<Rightarrow> uint \<Rightarrow> uchar list" where
  "put32 d off v = d[off := ucast v, off + 1 := ucast (drop_bit 8 v),
     off + 2 := ucast (drop_bit 16 v), off + 3 := ucast (drop_bit 24 v)]"

text \<open>An array of 32-bit fields from offset \<open>off\<close> on.\<close>

definition get32s :: "uchar list \<Rightarrow> nat \<Rightarrow> nat \<Rightarrow> uint list" where
  "get32s d off n = map (\<lambda>i. get32 d (off + 4 * i)) [0..<n]"

fun put32s :: "uchar list \<Rightarrow> nat \<Rightarrow> uint list \<Rightarrow> uchar list" where
  "put32s d off [] = d"
| "put32s d off (v # vs) = put32s (put32 d off v) (off + 4) vs"

lemma length_puts [simp]:
  "length (put16 d off h) = length d" "length (put32 d off v) = length d" "length (put32s d off vs) = length d"
proof -
  show "length (put32s d off vs) = length d"
    by (induction vs arbitrary: d off) (simp_all add: put32_def)
qed (simp_all add: put16_def put32_def)

lemma bytes_of_short:
  fixes v :: ushort
  defines "b \<equiv> \<lambda>k. (ucast (ucast (drop_bit k v) :: uchar) :: ushort)"
  shows "b 0 OR push_bit 8 (b 8) = v"
proof (rule bit_word_eqI)
  fix n
  assume "n < LENGTH(16)"
  then show "bit (b 0 OR push_bit 8 (b 8)) n = bit v n"
    by (cases "n < 8") (auto simp: bit_simps b_def)
qed

lemma get16_put16 [simp]: "off + 1 < length d \<Longrightarrow> get16 (put16 d off v) off = v"
  using bytes_of_short [of v] by (simp add: get16_def put16_def)

lemma get32_put32 [simp]: "off + 3 < length d \<Longrightarrow> get32 (put32 d off v) off = v"
  using bytes_of_word [of v] by (simp add: get32_def put32_def)

text \<open>Fields that do not overlap do not affect each other.\<close>

lemma nth_put32: "k < off \<or> off + 3 < k \<Longrightarrow> put32 d off v ! k = d ! k"
  by (auto simp: put32_def)

lemma nth_put16: "k < off \<or> off + 1 < k \<Longrightarrow> put16 d off v ! k = d ! k"
  by (auto simp: put16_def)

lemma get32_put32_other: "off + 3 < p \<or> p + 3 < off \<Longrightarrow> get32 (put32 d off v) p = get32 d p"
  by (elim disjE) (simp_all add: get32_def nth_put32)

lemma get16_put16_other: "off + 1 < p \<or> p + 1 < off \<Longrightarrow> get16 (put16 d off v) p = get16 d p"
  by (elim disjE) (simp_all add: get16_def nth_put16)

lemma get16_put32_other: "off + 3 < p \<or> p + 1 < off \<Longrightarrow> get16 (put32 d off v) p = get16 d p"
  by (elim disjE) (simp_all add: get16_def nth_put32)

lemma get32_put16_other: "off + 1 < p \<or> p + 3 < off \<Longrightarrow> get32 (put16 d off v) p = get32 d p"
  by (elim disjE) (simp_all add: get32_def nth_put16)

lemma nth_put32s: "k < off \<or> off + 4 * length vs \<le> k \<Longrightarrow> put32s d off vs ! k = d ! k"
  by (induction vs arbitrary: d off) (auto simp: nth_put32)

lemma get32_put32s_other: "p + 3 < off \<or> off + 4 * length vs \<le> p \<Longrightarrow> get32 (put32s d off vs) p = get32 d p"
  by (elim disjE) (simp_all add: get32_def nth_put32s)

lemma get16_put32s_other: "p + 1 < off \<or> off + 4 * length vs \<le> p \<Longrightarrow> get16 (put32s d off vs) p = get16 d p"
  by (elim disjE) (simp_all add: get16_def nth_put32s)

lemma get32_put32s:
  "i < length vs \<Longrightarrow> off + 4 * length vs \<le> length d \<Longrightarrow> get32 (put32s d off vs) (off + 4 * i) = vs ! i"
proof (induction vs arbitrary: d off i)
  case (Cons v vs)
  show ?case
  proof (cases i)
    case 0
    then show ?thesis using Cons.prems by (simp add: get32_put32s_other)
  next
    case (Suc j)
    then show ?thesis using Cons.IH [of j "off + 4" "put32 d off v"] Cons.prems by (simp add: add.assoc)
  qed
qed simp

lemma get32s_put32s: "off + 4 * length vs \<le> length d \<Longrightarrow> get32s (put32s d off vs) off (length vs) = vs"
  by (rule nth_equalityI) (simp_all add: get32s_def get32_put32s)

lemma length_get32s [simp]: "length (get32s d off n) = n"
  by (simp add: get32s_def)

lemma nth_get32s [simp]: "i < n \<Longrightarrow> get32s d off n ! i = get32 d (off + 4 * i)"
  by (simp add: get32s_def)

end
