(* ===== verification/Log.thy ===== *)
theory Log
  imports Bio Bytes
begin

text \<open>
  The write-ahead log (\<^verbatim>\<open>log.c\<close>): a transaction's blocks are pinned in the cache, copied to the
  log at commit, made permanent by the header block, and installed in their home
  locations; \<^verbatim>\<open>recover_from_log\<close> finishes or discards an interrupted commit.
\<close>

section \<open>Operations\<close>

abbreviation set_data :: "nat \<Rightarrow> block \<Rightarrow> unit kern" where
  "set_data i d \<equiv> upd_buf i (\<lambda>b. b\<lparr>b_data := d\<rparr>)"

abbreviation get_data :: "nat \<Rightarrow> block kern" where
  "get_data i \<equiv> gets (\<lambda>s. b_data (k_bcache s ! i))"

abbreviation upd_log :: "(loginfo \<Rightarrow> loginfo) \<Rightarrow> unit kern" where
  "upd_log f \<equiv> modify (\<lambda>s. s\<lparr>k_log := f (k_log s)\<rparr>)"

definition readsb :: "uint \<Rightarrow> superblock kern" where
  "readsb dev = bnd (bread dev 1) (\<lambda>i. bnd (get_data i) (\<lambda>d.
     andthen (brelse i) (ret \<lparr>sb_size = get32 d 0, sb_nblocks = get32 d 4, sb_ninodes = get32 d 8,
       sb_nlog = get32 d 12, sb_logstart = get32 d 16, sb_inodestart = get32 d 20,
       sb_bmapstart = get32 d 24\<rparr>)))"

text \<open>One round of the loops of \<^verbatim>\<open>install_trans\<close> and \<^verbatim>\<open>write_log\<close>.\<close>

definition install_block :: "nat \<Rightarrow> unit kern" where
  "install_block tail = bnd (gets k_log) (\<lambda>lg.
     bnd (bread (lg_dev lg) (lg_start lg + of_nat tail + 1)) (\<lambda>lbuf.
     bnd (bread (lg_dev lg) (lh_block (lg_lh lg) ! tail)) (\<lambda>dbuf.
     bnd (get_data lbuf) (\<lambda>d. andthen (set_data dbuf d)
     (andthen (bwrite dbuf) (andthen (brelse lbuf) (brelse dbuf)))))))"

definition install_trans :: "unit kern" where
  "install_trans = bnd (gets (\<lambda>s. lh_n (lg_lh (k_log s)))) (\<lambda>n. for_each [0..<nat n] install_block)"

definition write_log_block :: "nat \<Rightarrow> unit kern" where
  "write_log_block tail = bnd (gets k_log) (\<lambda>lg.
     bnd (bread (lg_dev lg) (lg_start lg + of_nat tail + 1)) (\<lambda>dst.
     bnd (bread (lg_dev lg) (lh_block (lg_lh lg) ! tail)) (\<lambda>src.
     bnd (get_data src) (\<lambda>d. andthen (set_data dst d)
     (andthen (bwrite dst) (andthen (brelse src) (brelse dst)))))))"

definition write_log :: "unit kern" where
  "write_log = bnd (gets (\<lambda>s. lh_n (lg_lh (k_log s)))) (\<lambda>n. for_each [0..<nat n] write_log_block)"

text \<open>
  The header block: the count, then the block numbers. \<^verbatim>\<open>log.lh.block\<close> is as long as \<open>old\<close>; where the
  count on disk is greater, the C loop runs past the array and the definition stops at its end.
  No header that \<open>enc_head\<close> writes has such a count.
\<close>

definition dec_head :: "block \<Rightarrow> uint list \<Rightarrow> logheader" where
  "dec_head d old = (let n = sint (get32 d 0) in
     \<lparr>lh_n = n, lh_block = get32s d 4 (min (nat n) (length old)) @ drop (nat n) old\<rparr>)"

definition enc_head :: "logheader \<Rightarrow> block \<Rightarrow> block" where
  "enc_head lh d = put32s (put32 d 0 (of_int (lh_n lh))) 4 (take (nat (lh_n lh)) (lh_block lh))"

definition read_head :: "unit kern" where
  "read_head = bnd (gets k_log) (\<lambda>lg. bnd (bread (lg_dev lg) (lg_start lg)) (\<lambda>i.
     bnd (get_data i) (\<lambda>d. andthen (upd_log (\<lambda>l. l\<lparr>lg_lh := dec_head d (lh_block (lg_lh l))\<rparr>))
     (brelse i))))"

definition write_head :: "unit kern" where
  "write_head = bnd (gets k_log) (\<lambda>lg. bnd (bread (lg_dev lg) (lg_start lg)) (\<lambda>i.
     bnd (get_data i) (\<lambda>d. andthen (set_data i (enc_head (lg_lh lg) d))
     (andthen (bwrite i) (brelse i)))))"

abbreviation clear_head :: "unit kern" where
  "clear_head \<equiv> upd_log (\<lambda>l. l\<lparr>lg_lh := (lg_lh l)\<lparr>lh_n := 0\<rparr>\<rparr>)"

definition recover_from_log :: "unit kern" where
  "recover_from_log = andthen read_head (andthen install_trans (andthen clear_head write_head))"

definition initlog :: "uint \<Rightarrow> unit kern" where
  "initlog dev = andthen (initlock LogLk ''log'') (bnd (readsb dev) (\<lambda>sb.
     andthen (upd_log (\<lambda>l. l\<lparr>lg_start := sb_logstart sb, lg_size := sint (sb_nlog sb), lg_dev := dev\<rparr>))
     recover_from_log))"

definition commit :: "unit kern" where
  "commit = bnd (gets (\<lambda>s. lh_n (lg_lh (k_log s)))) (\<lambda>n.
     if n > 0 then andthen write_log (andthen write_head (andthen install_trans
       (andthen clear_head write_head)))
     else ret ())"

text \<open>One attempt of the loop in \<^verbatim>\<open>begin_op\<close>, with the lock held.\<close>

definition begin_op_loop :: "unit kern" where
  "begin_op_loop = bnd (gets k_log) (\<lambda>lg.
     if lg_committing lg then block_on ChLog LogLk
     else if lh_n (lg_lh lg) + (lg_outstanding lg + 1) * int MAXOPBLOCKS > int LOGSIZE
     then block_on ChLog LogLk
     else andthen (upd_log (\<lambda>l. l\<lparr>lg_outstanding := lg_outstanding l + 1\<rparr>)) (release LogLk))"

definition begin_op :: "unit kern" where
  "begin_op = andthen (acquire LogLk) begin_op_loop"

definition end_op :: "unit kern" where
  "end_op = andthen (acquire LogLk)
     (andthen (upd_log (\<lambda>l. l\<lparr>lg_outstanding := lg_outstanding l - 1\<rparr>))
     (bnd (gets k_log) (\<lambda>lg.
      if lg_committing lg then panic ''log.committing''
      else if lg_outstanding lg = 0 then
        andthen (upd_log (\<lambda>l. l\<lparr>lg_committing := True\<rparr>))
        (andthen (release LogLk)
        (andthen commit
        (andthen (acquire LogLk)
        (andthen (upd_log (\<lambda>l. l\<lparr>lg_committing := False\<rparr>))
        (andthen (wakeup ChLog) (release LogLk))))))
      else andthen (wakeup ChLog) (release LogLk))))"

text \<open>The slot of the log a block goes to: the one it already has, or the next free one.\<close>

definition log_slot :: "logheader \<Rightarrow> uint \<Rightarrow> nat" where
  "log_slot lh bn = (case find_idx (\<lambda>x. x = bn) (take (nat (lh_n lh)) (lh_block lh)) of
     Some i \<Rightarrow> i | None \<Rightarrow> nat (lh_n lh))"

definition log_write :: "nat \<Rightarrow> unit kern" where
  "log_write i = bnd (gets k_log) (\<lambda>lg.
     if lh_n (lg_lh lg) \<ge> int LOGSIZE \<or> lh_n (lg_lh lg) \<ge> lg_size lg - 1 then panic ''too big a transaction''
     else if lg_outstanding lg < 1 then panic ''log_write outside of trans''
     else andthen (acquire LogLk)
       (andthen (modify (\<lambda>s. s\<lparr>k_log := (k_log s)\<lparr>lg_lh :=
          (let lh = lg_lh (k_log s); bn = b_blockno (k_bcache s ! i); k = log_slot lh bn in
           \<lparr>lh_n = (if int k = lh_n lh then lh_n lh + 1 else lh_n lh),
            lh_block = (lh_block lh)[k := bn]\<rparr>)\<rparr>\<rparr>))
       (andthen (upd_buf i (\<lambda>b. b\<lparr>b_dirty := True\<rparr>)) (release LogLk))))"

section \<open>The header block\<close>

lemma nth_take_get32s: "get32s d off n = ys \<Longrightarrow> i < n \<Longrightarrow> get32 d (off + 4 * i) = ys ! i"
  by auto

lemma length_enc_head [simp]: "length (enc_head lh d) = length d"
  by (simp add: enc_head_def)

lemma enc_head_fields:
  assumes "length d = BSIZE" "0 \<le> lh_n lh" "nat (lh_n lh) \<le> length (lh_block lh)" "nat (lh_n lh) \<le> LOGSIZE"
  shows "get32 (enc_head lh d) 0 = of_int (lh_n lh)"
    and "i < nat (lh_n lh) \<Longrightarrow> get32 (enc_head lh d) (4 + 4 * i) = lh_block lh ! i"
proof -
  show "get32 (enc_head lh d) 0 = of_int (lh_n lh)"
    using assms by (simp add: enc_head_def get32_put32s_other size_defs)
  show "get32 (enc_head lh d) (4 + 4 * i) = lh_block lh ! i" if "i < nat (lh_n lh)"
    using assms that get32_put32s [of i "take (nat (lh_n lh)) (lh_block lh)" 4 "put32 d 0 (of_int (lh_n lh))"]
    by (simp add: enc_head_def size_defs)
qed

lemma dec_enc_head:
  assumes "length d = BSIZE" "0 \<le> lh_n lh" "lh_n lh \<le> int LOGSIZE"
    and "length (lh_block lh) = LOGSIZE" "length old = LOGSIZE"
  shows "lh_n (dec_head (enc_head lh d) old) = lh_n lh
    \<and> take (nat (lh_n lh)) (lh_block (dec_head (enc_head lh d) old)) = take (nat (lh_n lh)) (lh_block lh)"
proof -
  have n: "nat (lh_n lh) \<le> LOGSIZE" using assms(3) by simp
  have s: "sint (of_int (lh_n lh) :: uint) = lh_n lh"
    using assms(2,3) by (simp add: signed_of_int signed_take_bit_int_eq_self size_defs)
  have "get32s (enc_head lh d) 4 (nat (lh_n lh)) = take (nat (lh_n lh)) (lh_block lh)"
    using enc_head_fields(2) [OF assms(1,2)] n assms(4) by (intro nth_equalityI) auto
  then show ?thesis
    using enc_head_fields(1) [OF assms(1,2)] n s assms(4,5) by (simp add: dec_head_def Let_def min_def)
qed

text \<open>
  The log header survives the disk. Encoding a header with at most LOGSIZE blocks into
  the header block and decoding it again gives back the count and the block numbers.
\<close>

theorem log_header_roundtrip:
  assumes "length d = BSIZE" "0 \<le> lh_n lh" "lh_n lh \<le> int LOGSIZE"
    and "length (lh_block lh) = LOGSIZE" "length old = LOGSIZE"
  shows "lh_n (dec_head (enc_head lh d) old) = lh_n lh
    \<and> take (nat (lh_n lh)) (lh_block (dec_head (enc_head lh d) old)) = take (nat (lh_n lh)) (lh_block lh)"
  using assms by (rule dec_enc_head)

theorem log_header_roundtrip_witness:
  "lh_n (dec_head (enc_head \<lparr>lh_n = 2, lh_block = 7 # 9 # replicate 28 0\<rparr> (replicate BSIZE 5)) (replicate LOGSIZE 1)) = 2
    \<and> take 2 (lh_block (dec_head (enc_head \<lparr>lh_n = 2, lh_block = 7 # 9 # replicate 28 0\<rparr> (replicate BSIZE 5))
        (replicate LOGSIZE 1))) = [7, 9]"
  using log_header_roundtrip [of "replicate BSIZE 5" "\<lparr>lh_n = 2, lh_block = 7 # 9 # replicate 28 0\<rparr>" "replicate LOGSIZE 1"]
  by (simp add: size_defs)

section \<open>Copying one block\<close>

text \<open>\<open>apply_writes W D\<close>: the disk after the block writes \<open>W\<close>, in order.\<close>

definition apply_writes :: "(uint \<times> block) list \<Rightarrow> (uint \<Rightarrow> block) \<Rightarrow> (uint \<Rightarrow> block)" where
  "apply_writes W D = fold (\<lambda>(b, d) D. D(b := d)) W D"

lemma apply_writes_simps [simp]:
  "apply_writes [] D = D" "apply_writes ((b, d) # W) D = apply_writes W (D(b := d))"
  "apply_writes (V @ W) D = apply_writes W (apply_writes V D)"
  by (simp_all add: apply_writes_def)

lemma apply_writes_other: "b \<notin> fst ` set W \<Longrightarrow> apply_writes W D b = D b"
  by (induction W arbitrary: D) auto

text \<open>
  \<open>advanced s t W B\<close>: between \<open>s\<close> and \<open>t\<close> the writes \<open>W\<close> went to the disk and took the
  blocks \<open>B\<close> off the set of blocks waiting to be logged; readers see the writes.
\<close>

definition advanced :: "kernel \<Rightarrow> kernel \<Rightarrow> (uint \<times> block) list \<Rightarrow> uint set \<Rightarrow> bool" where
  "advanced s t W B \<longleftrightarrow> bc_ok t \<and> quiet t \<and> busyb t = {} \<and> dirtyb t = dirtyb s - B
     \<and> blk t = apply_writes W (blk s) \<and> k_disk t = apply_writes W (k_disk s)
     \<and> k_writes t = k_writes s @ W \<and> k_log t = k_log s \<and> k_disksize t = k_disksize s"

lemma advanced_trans:
  "advanced s t V B \<Longrightarrow> advanced t u W C \<Longrightarrow> advanced s u (V @ W) (B \<union> C)"
  by (auto simp: advanced_def)

lemma copy_tail:
  assumes "bc_ok s" "quiet s" "hold s i b" "hold s j a" "a \<noteq> b" "b < k_disksize s"
    and "a \<in> dirtyb s \<or> blk s a = k_disk s a" "busyb s = {a, b}"
  shows "\<exists>t. bnd (get_data j) (\<lambda>d. andthen (set_data i d)
      (andthen (bwrite i) (andthen (brelse j) (brelse i)))) s = Ret () t
    \<and> advanced s t [(b, blk s a)] {b}"
proof -
  have d: "b_data (k_bcache s ! j) = blk s a" using hold_blk [OF assms(1,4)] by simp
  define s1 where "s1 = s\<lparr>k_bcache := upd_at i (\<lambda>c. c\<lparr>b_data := blk s a\<rparr>) (k_bcache s)\<rparr>"
  have s1: "bc_ok s1" "hold s1 i b" "hold s1 j a" "blk s1 = (blk s)(b := blk s a)"
    "dirtyb s1 = dirtyb s" "busyb s1 = {a, b}" "b < k_disksize s1"
    using set_data_store [OF assms(1,3) length_blk [OF assms(1), of a]] assms(3,4,6,8) by (simp_all add: s1_def)
  obtain bs s2 where w: "bwrite i s1 = Ret () s2" and s2: "s2 = (disk_write b (blk s1 b) s1)\<lparr>k_bcache := bs\<rparr>"
      "bc_ok s2" "hold s2 i b" "hold s2 j a" "blk s2 = blk s1" "dirtyb s2 = dirtyb s - {b}" "busyb s2 = {a, b}"
    using bwrite_store [OF s1(1,2,7)] s1 by (auto simp: Let_def)
  have q2: "quiet s2" using assms(2) by (simp add: s2(1) s1_def disk_write_def)
  have c2: "a \<in> dirtyb s2 \<or> blk s2 a = k_disk s2 a"
    using assms(5,7) s2(5,6) s1(4) by (auto simp: s2(1) s1_def disk_write_def)
  obtain bs3 ps3 s3 where r3: "brelse j s2 = Ret () s3" and s3: "s3 = s2\<lparr>k_bcache := bs3, k_procs := ps3\<rparr>"
      "bc_ok s3" "hold s3 i b" "blk s3 = blk s2" "dirtyb s3 = dirtyb s2" "busyb s3 = {b}"
    using brelse_store [OF s2(2) q2 s2(4) c2] s2(3,7) assms(5) by (auto simp: Let_def)
  have "quiet s3" using q2 by (simp add: s3(1))
  moreover have "blk s3 b = k_disk s3 b"
    using s3(4) s2(5) by (simp add: s3(1) s2(1) s1_def disk_write_def)
  ultimately obtain bs4 ps4 t where r4: "brelse i s3 = Ret () t" and t: "t = s3\<lparr>k_bcache := bs4, k_procs := ps4\<rparr>"
      "bc_ok t" "blk t = blk s3" "dirtyb t = dirtyb s3" "busyb t = {}"
    using brelse_store [OF s3(2) _ s3(3)] s3(6) by (auto simp: Let_def)
  have "advanced s t [(b, blk s a)] {b}"
    using t(2-5) s3(4,5) s2(5,6) s1(4) q2
    by (simp add: advanced_def) (simp add: t(1) s3(1) s2(1) s1_def disk_write_def s1(4))
  moreover have "bnd (get_data j) (\<lambda>d. andthen (set_data i d)
      (andthen (bwrite i) (andthen (brelse j) (brelse i)))) s = Ret () t"
    using w r3 r4 by (simp add: d s1_def)
  ultimately show ?thesis by blast
qed

text \<open>Getting both buffers first, in either order.\<close>

lemma bread_two:
  assumes "bc_ok s" "quiet s" "busyb s = {}" "a \<noteq> b" "a < k_disksize s" "b < k_disksize s"
    and "card (dirtyb s) < NBUF" "b \<in> dirtyb s \<or> Suc (card (dirtyb s)) < NBUF"
  shows "\<exists>i j bs. bread 1 a s = Ret i (s\<lparr>k_bcache := fst bs\<rparr>)
    \<and> bread 1 b (s\<lparr>k_bcache := fst bs\<rparr>) = Ret j (s\<lparr>k_bcache := snd bs\<rparr>)
    \<and> (let t = s\<lparr>k_bcache := snd bs\<rparr> in bc_ok t \<and> hold t i a \<and> hold t j b \<and> blk t = blk s
       \<and> dirtyb t = dirtyb s \<and> busyb t = {a, b})
    \<and> (a \<notin> dirtyb s \<longrightarrow> blk s a = k_disk s a) \<and> (b \<notin> dirtyb s \<longrightarrow> blk s b = k_disk s b)"
proof -
  obtain i bs where r: "bread 1 a s = Ret i (s\<lparr>k_bcache := bs\<rparr>)" "bc_ok (s\<lparr>k_bcache := bs\<rparr>)"
    "hold (s\<lparr>k_bcache := bs\<rparr>) i a" "blk (s\<lparr>k_bcache := bs\<rparr>) = blk s" "dirtyb (s\<lparr>k_bcache := bs\<rparr>) = dirtyb s"
    "busyb (s\<lparr>k_bcache := bs\<rparr>) = {a}" "a \<notin> dirtyb s \<longrightarrow> blk s a = k_disk s a"
    using bread_store [OF assms(1,2,5)] assms(3,7) by auto
  have "card (insert a (dirtyb s)) \<le> Suc (card (dirtyb s))" by (rule card_insert_le_m1) auto
  then have room: "b \<in> dirtyb s \<or> card (dirtyb s \<union> {a}) < NBUF" using assms(8) by auto
  have "\<exists>j bs'. bread 1 b (s\<lparr>k_bcache := bs\<rparr>) = Ret j (s\<lparr>k_bcache := bs, k_bcache := bs'\<rparr>)
      \<and> bc_ok (s\<lparr>k_bcache := bs, k_bcache := bs'\<rparr>) \<and> hold (s\<lparr>k_bcache := bs, k_bcache := bs'\<rparr>) j b
      \<and> (\<forall>j m. hold (s\<lparr>k_bcache := bs\<rparr>) j m \<longrightarrow> hold (s\<lparr>k_bcache := bs, k_bcache := bs'\<rparr>) j m)
      \<and> blk (s\<lparr>k_bcache := bs, k_bcache := bs'\<rparr>) = blk (s\<lparr>k_bcache := bs\<rparr>)
      \<and> dirtyb (s\<lparr>k_bcache := bs, k_bcache := bs'\<rparr>) = dirtyb (s\<lparr>k_bcache := bs\<rparr>)
      \<and> busyb (s\<lparr>k_bcache := bs, k_bcache := bs'\<rparr>) = insert b (busyb (s\<lparr>k_bcache := bs\<rparr>))
      \<and> (b \<notin> dirtyb (s\<lparr>k_bcache := bs\<rparr>) \<longrightarrow> blk (s\<lparr>k_bcache := bs\<rparr>) b = k_disk (s\<lparr>k_bcache := bs\<rparr>) b)"
    by (rule bread_store [OF r(2)]) (use assms(2,4,6) r(5,6) room in simp_all)
  then obtain j bs' where r': "bread 1 b (s\<lparr>k_bcache := bs\<rparr>) = Ret j (s\<lparr>k_bcache := bs'\<rparr>)"
    "bc_ok (s\<lparr>k_bcache := bs'\<rparr>)" "hold (s\<lparr>k_bcache := bs'\<rparr>) j b" "hold (s\<lparr>k_bcache := bs'\<rparr>) i a"
    "blk (s\<lparr>k_bcache := bs'\<rparr>) = blk s" "dirtyb (s\<lparr>k_bcache := bs'\<rparr>) = dirtyb s"
    "busyb (s\<lparr>k_bcache := bs'\<rparr>) = {b, a}" "b \<notin> dirtyb s \<longrightarrow> blk s b = k_disk s b"
    using r(3-6) by (simp, blast)
  show ?thesis
    by (rule exI [of _ i], rule exI [of _ j], rule exI [of _ "(bs, bs')"])
       (use r(1,7) r' in \<open>simp add: Let_def insert_commute\<close>)
qed

section \<open>The phases of a commit\<close>

definition lb :: "uint \<Rightarrow> nat \<Rightarrow> uint" where
  "lb st i = st + of_nat i + 1"

text \<open>The log has its place on disk 1 and \<open>n\<close> blocks \<open>bl\<close> are in the transaction.\<close>

definition log_at :: "kernel \<Rightarrow> uint \<Rightarrow> nat \<Rightarrow> uint list \<Rightarrow> bool" where
  "log_at s st n bl \<longleftrightarrow> lg_dev (k_log s) = 1 \<and> lg_start (k_log s) = st \<and> lh_n (lg_lh (k_log s)) = int n
     \<and> lh_block (lg_lh (k_log s)) = bl \<and> length bl = LOGSIZE \<and> n < LOGSIZE"

definition log_fits :: "uint \<Rightarrow> uint \<Rightarrow> nat \<Rightarrow> uint list \<Rightarrow> bool" where
  "log_fits sz st n bl \<longleftrightarrow> st < sz \<and> (\<forall>i<n. lb st i < sz \<and> bl ! i < sz \<and> bl ! i \<noteq> st)
     \<and> (\<forall>i<n. \<forall>j<n. lb st i \<noteq> bl ! j)"

definition idle :: "kernel \<Rightarrow> bool" where
  "idle s \<longleftrightarrow> bc_ok s \<and> quiet s \<and> busyb s = {} \<and> card (dirtyb s) < NBUF"

lemma idle_advanced: "idle s \<Longrightarrow> advanced s t W B \<Longrightarrow> idle t"
  using card_mono [of "dirtyb s" "dirtyb s - B"] by (auto simp: idle_def advanced_def)

lemma log_at_advanced: "log_at s st n bl \<Longrightarrow> advanced s t W B \<Longrightarrow> log_at t st n bl"
  by (simp add: log_at_def advanced_def)

definition log_writes :: "(uint \<Rightarrow> block) \<Rightarrow> uint \<Rightarrow> uint list \<Rightarrow> nat \<Rightarrow> (uint \<times> block) list" where
  "log_writes D st bl n = map (\<lambda>i. (lb st i, D (bl ! i))) [0..<n]"

definition home_writes :: "(uint \<Rightarrow> block) \<Rightarrow> uint \<Rightarrow> uint list \<Rightarrow> nat \<Rightarrow> (uint \<times> block) list" where
  "home_writes D st bl n = map (\<lambda>i. (bl ! i, D (lb st i))) [0..<n]"

lemma writes_Suc:
  "log_writes D st bl (Suc n) = log_writes D st bl n @ [(lb st n, D (bl ! n))]"
  "home_writes D st bl (Suc n) = home_writes D st bl n @ [(bl ! n, D (lb st n))]"
  by (simp_all add: log_writes_def home_writes_def)

lemma writes_dom:
  "fst ` set (log_writes D st bl n) = lb st ` {..<n}"
  "fst ` set (home_writes D st bl n) = (!) bl ` {..<n}"
  by (auto simp: log_writes_def home_writes_def image_image lessThan_atLeast0)

lemma write_log_block_ok:
  assumes "idle s" "log_at s st n bl" "log_fits (k_disksize s) st n bl" "k < n"
    and "bl ! k \<in> dirtyb s" "lb st k \<notin> dirtyb s"
  shows "\<exists>t. write_log_block k s = Ret () t \<and> advanced s t [(lb st k, blk s (bl ! k))] {lb st k}"
proof -
  let ?b = "lb st k" and ?a = "bl ! k"
  have ok: "bc_ok s" "quiet s" "busyb s = {}" "card (dirtyb s) < NBUF" using assms(1) by (auto simp: idle_def)
  have ab: "?b < k_disksize s" "?a < k_disksize s" "?b \<noteq> ?a" using assms(3,4) by (auto simp: log_fits_def)
  obtain i j bs where r: "bread 1 ?b s = Ret i (s\<lparr>k_bcache := fst bs\<rparr>)"
    "bread 1 ?a (s\<lparr>k_bcache := fst bs\<rparr>) = Ret j (s\<lparr>k_bcache := snd bs\<rparr>)"
    and t: "let t = s\<lparr>k_bcache := snd bs\<rparr> in bc_ok t \<and> hold t i ?b \<and> hold t j ?a \<and> blk t = blk s
       \<and> dirtyb t = dirtyb s \<and> busyb t = {?b, ?a}"
    using bread_two [OF ok(1-3) ab(3,1,2) ok(4)] assms(5) by blast
  let ?t = "s\<lparr>k_bcache := snd bs\<rparr>"
  have t: "bc_ok ?t" "hold ?t i ?b" "hold ?t j ?a" "blk ?t = blk s" "dirtyb ?t = dirtyb s" "busyb ?t = {?a, ?b}"
    using t by (auto simp: Let_def)
  have "quiet ?t" "?b < k_disksize ?t" "?a \<in> dirtyb ?t \<or> blk ?t ?a = k_disk ?t ?a"
    using ok(2) ab(1) assms(5) t(5) by simp_all
  then obtain u where u: "bnd (get_data j) (\<lambda>d. andthen (set_data i d)
      (andthen (bwrite i) (andthen (brelse j) (brelse i)))) ?t = Ret () u"
    "advanced ?t u [(?b, blk ?t ?a)] {?b}"
    using copy_tail [OF t(1) _ t(2,3) not_sym [OF ab(3)] _ _ t(6)] by blast
  have "write_log_block k s = Ret () u"
    using r u(1) assms(2) by (simp add: write_log_block_def log_at_def lb_def [symmetric])
  moreover have "advanced s u [(?b, blk s ?a)] {?b}"
    using u(2) t(4,5) by (simp add: advanced_def)
  ultimately show ?thesis by blast
qed

lemma install_block_ok:
  assumes "idle s" "log_at s st n bl" "log_fits (k_disksize s) st n bl" "k < n"
    and "bl ! k \<in> dirtyb s \<or> Suc (card (dirtyb s)) < NBUF" "lb st k \<notin> dirtyb s"
  shows "\<exists>t. install_block k s = Ret () t \<and> advanced s t [(bl ! k, blk s (lb st k))] {bl ! k}"
proof -
  let ?a = "lb st k" and ?b = "bl ! k"
  have ok: "bc_ok s" "quiet s" "busyb s = {}" "card (dirtyb s) < NBUF" using assms(1) by (auto simp: idle_def)
  have ab: "?b < k_disksize s" "?a < k_disksize s" "?a \<noteq> ?b" using assms(3,4) by (auto simp: log_fits_def)
  obtain i j bs where r: "bread 1 ?a s = Ret i (s\<lparr>k_bcache := fst bs\<rparr>)"
    "bread 1 ?b (s\<lparr>k_bcache := fst bs\<rparr>) = Ret j (s\<lparr>k_bcache := snd bs\<rparr>)"
    and t: "let t = s\<lparr>k_bcache := snd bs\<rparr> in bc_ok t \<and> hold t i ?a \<and> hold t j ?b \<and> blk t = blk s
       \<and> dirtyb t = dirtyb s \<and> busyb t = {?a, ?b}"
    and da: "?a \<notin> dirtyb s \<longrightarrow> blk s ?a = k_disk s ?a"
    using bread_two [OF ok(1-3) ab(3,2,1) ok(4) assms(5)] by blast
  let ?t = "s\<lparr>k_bcache := snd bs\<rparr>"
  have t: "bc_ok ?t" "hold ?t i ?a" "hold ?t j ?b" "blk ?t = blk s" "dirtyb ?t = dirtyb s" "busyb ?t = {?a, ?b}"
    using t by (auto simp: Let_def)
  have "quiet ?t" "?b < k_disksize ?t" "?a \<in> dirtyb ?t \<or> blk ?t ?a = k_disk ?t ?a"
    using ok(2) ab(1) assms(6) t(4) da by simp_all
  then obtain u where u: "bnd (get_data i) (\<lambda>d. andthen (set_data j d)
      (andthen (bwrite j) (andthen (brelse i) (brelse j)))) ?t = Ret () u"
    "advanced ?t u [(?b, blk ?t ?a)] {?b}"
    using copy_tail [OF t(1) _ t(3,2) ab(3) _ _ t(6)] by blast
  have "install_block k s = Ret () u"
    using r u(1) assms(2) by (simp add: install_block_def log_at_def lb_def [symmetric])
  moreover have "advanced s u [(?b, blk s ?a)] {?b}"
    using u(2) t(4,5) by (simp add: advanced_def)
  ultimately show ?thesis by blast
qed

lemma advanced_refl: "bc_ok s \<Longrightarrow> quiet s \<Longrightarrow> busyb s = {} \<Longrightarrow> advanced s s [] {}"
  by (simp add: advanced_def)

lemma write_log_ok:
  assumes "idle s" "log_at s st n bl" "log_fits (k_disksize s) st n bl"
    and "\<forall>i<n. bl ! i \<in> dirtyb s \<and> lb st i \<notin> dirtyb s"
  shows "\<exists>t. write_log s = Ret () t \<and> advanced s t (log_writes (blk s) st bl n) (lb st ` {..<n})"
proof -
  let ?I = "\<lambda>k t. advanced s t (log_writes (blk s) st bl k) (lb st ` {..<k})"
  have "\<exists>t. for_each [0..<n] write_log_block s = Ret () t \<and> ?I n t"
  proof (rule for_each_upto)
    show "?I 0 s" using assms(1) by (simp add: idle_def log_writes_def advanced_refl)
  next
    fix k u
    assume k: "k < n" and u: "?I k u"
    have d: "dirtyb u = dirtyb s" using u k assms(4) by (auto simp: advanced_def)
    have "bl ! k \<notin> fst ` set (log_writes (blk s) st bl k)"
      using assms(4) k by (auto simp: writes_dom) (metis less_trans)
    then have b: "blk u (bl ! k) = blk s (bl ! k)" using u by (simp add: advanced_def apply_writes_other)
    have "k_disksize u = k_disksize s" using u by (simp add: advanced_def)
    then obtain t where t: "write_log_block k u = Ret () t" "advanced u t [(lb st k, blk s (bl ! k))] {lb st k}"
      using write_log_block_ok [OF idle_advanced [OF assms(1) u] log_at_advanced [OF assms(2) u] _ k]
        assms(3,4) k d b by auto
    have "?I (Suc k) t"
      using advanced_trans [OF u t(2)] by (simp add: writes_Suc lessThan_Suc)
    then show "\<exists>t. write_log_block k u = Ret () t \<and> ?I (Suc k) t" using t(1) by blast
  qed
  then show ?thesis using assms(2) by (simp add: write_log_def log_at_def)
qed

lemma install_trans_ok:
  assumes "idle s" "log_at s st n bl" "log_fits (k_disksize s) st n bl"
    and "\<forall>i<n. lb st i \<notin> dirtyb s" "distinct (take n bl)"
    and "(\<forall>i<n. bl ! i \<in> dirtyb s) \<or> Suc (card (dirtyb s)) < NBUF"
  shows "\<exists>t. install_trans s = Ret () t \<and> advanced s t (home_writes (blk s) st bl n) ((!) bl ` {..<n})"
proof -
  let ?I = "\<lambda>k t. advanced s t (home_writes (blk s) st bl k) ((!) bl ` {..<k})"
  have "\<exists>t. for_each [0..<n] install_block s = Ret () t \<and> ?I n t"
  proof (rule for_each_upto)
    show "?I 0 s" using assms(1) by (simp add: idle_def home_writes_def advanced_refl)
  next
    fix k u
    assume k: "k < n" and u: "?I k u"
    have d: "dirtyb u = dirtyb s - (!) bl ` {..<k}" using u by (simp add: advanced_def)
    have "lb st k \<notin> fst ` set (home_writes (blk s) st bl k)"
      using assms(3) k by (auto simp: writes_dom log_fits_def)
    then have b: "blk u (lb st k) = blk s (lb st k)" using u by (simp add: advanced_def apply_writes_other)
    have "bl ! k \<notin> (!) bl ` {..<k}"
    proof
      assume "bl ! k \<in> (!) bl ` {..<k}"
      then obtain i where "i < k" "bl ! i = bl ! k" by auto
      then show False
        using nth_eq_iff_index_eq [OF assms(5), of i k] k assms(2) by (simp add: log_at_def)
    qed
    moreover have "card (dirtyb u) \<le> card (dirtyb s)" unfolding d by (intro card_mono) auto
    ultimately have room: "bl ! k \<in> dirtyb u \<or> Suc (card (dirtyb u)) < NBUF"
      using assms(6) k d by auto
    have "k_disksize u = k_disksize s" "lb st k \<notin> dirtyb u" using u assms(4) k d by (auto simp: advanced_def)
    then obtain t where t: "install_block k u = Ret () t" "advanced u t [(bl ! k, blk s (lb st k))] {bl ! k}"
      using install_block_ok [OF idle_advanced [OF assms(1) u] log_at_advanced [OF assms(2) u] _ k room]
        assms(3) b by auto
    have "?I (Suc k) t"
      using advanced_trans [OF u t(2)] by (simp add: writes_Suc lessThan_Suc)
    then show "\<exists>t. install_block k u = Ret () t \<and> ?I (Suc k) t" using t(1) by blast
  qed
  then show ?thesis using assms(2) by (simp add: install_trans_def log_at_def)
qed

section \<open>Header writes and reads\<close>

text \<open>The store is the cache and the disk; the rest of the state does not matter to it.\<close>

lemma store_cong:
  assumes "k_bcache s = k_bcache t" "k_disk s = k_disk t"
  shows "bc_ok s = bc_ok t" "blk s = blk t" "dirtyb s = dirtyb t" "busyb s = busyb t" "hold s = hold t"
proof -
  have "holds_blk s = holds_blk t" using assms by (simp add: holds_blk_def fun_eq_iff)
  then show "blk s = blk t" using assms by (intro ext) (simp add: blk_def split: option.split)
qed (use assms in \<open>auto simp: bc_ok_def dirtyb_def busyb_def hold_def fun_eq_iff\<close>)

lemma store_updates [simp]:
  "bc_ok (s\<lparr>k_log := x0\<rparr>) = bc_ok s" "blk (s\<lparr>k_log := x0\<rparr>) = blk s" "dirtyb (s\<lparr>k_log := x0\<rparr>) = dirtyb s"
  "busyb (s\<lparr>k_log := x0\<rparr>) = busyb s" "hold (s\<lparr>k_log := x0\<rparr>) = hold s"
  "bc_ok (s\<lparr>k_icache := x1\<rparr>) = bc_ok s" "blk (s\<lparr>k_icache := x1\<rparr>) = blk s" "dirtyb (s\<lparr>k_icache := x1\<rparr>) = dirtyb s"
  "busyb (s\<lparr>k_icache := x1\<rparr>) = busyb s" "hold (s\<lparr>k_icache := x1\<rparr>) = hold s"
  "bc_ok (s\<lparr>k_procs := x2\<rparr>) = bc_ok s" "blk (s\<lparr>k_procs := x2\<rparr>) = blk s" "dirtyb (s\<lparr>k_procs := x2\<rparr>) = dirtyb s"
  "busyb (s\<lparr>k_procs := x2\<rparr>) = busyb s" "hold (s\<lparr>k_procs := x2\<rparr>) = hold s"
  "bc_ok (s\<lparr>k_sb := x3\<rparr>) = bc_ok s" "blk (s\<lparr>k_sb := x3\<rparr>) = blk s" "dirtyb (s\<lparr>k_sb := x3\<rparr>) = dirtyb s"
  "busyb (s\<lparr>k_sb := x3\<rparr>) = busyb s" "hold (s\<lparr>k_sb := x3\<rparr>) = hold s"
  "bc_ok (s\<lparr>k_ftable := x4\<rparr>) = bc_ok s" "blk (s\<lparr>k_ftable := x4\<rparr>) = blk s" "dirtyb (s\<lparr>k_ftable := x4\<rparr>) = dirtyb s"
  "busyb (s\<lparr>k_ftable := x4\<rparr>) = busyb s" "hold (s\<lparr>k_ftable := x4\<rparr>) = hold s"
  by (rule store_cong; simp)+

lemma clean_blk:
  assumes "bc_ok s" "busyb s = {}" "b \<notin> dirtyb s"
  shows "blk s b = k_disk s b"
proof (cases "\<exists>i<NBUF. holds_blk s b i")
  case True
  then obtain i where i: "i < NBUF" "holds_blk s b i" by blast
  have "\<not> b_busy (k_bcache s ! i)" "\<not> b_dirty (k_bcache s ! i)"
    using assms(2,3) i in_busyb [of b s] in_dirtyb [of b s] by (auto simp: holds_blk_def)
  then show ?thesis using blk_hit [OF assms(1) i] bc_okD(5) [OF assms(1) i(1)] i(2) by (simp add: holds_blk_def)
qed (simp add: blk_miss)

lemma bread_release:
  assumes "idle s" "b < k_disksize s" "b \<notin> dirtyb s"
  shows "\<exists>i bs. bread 1 b s = Ret i (s\<lparr>k_bcache := bs\<rparr>) \<and> hold (s\<lparr>k_bcache := bs\<rparr>) i b
    \<and> bc_ok (s\<lparr>k_bcache := bs\<rparr>) \<and> blk (s\<lparr>k_bcache := bs\<rparr>) = blk s
    \<and> dirtyb (s\<lparr>k_bcache := bs\<rparr>) = dirtyb s \<and> busyb (s\<lparr>k_bcache := bs\<rparr>) = {b} \<and> blk s b = k_disk s b"
proof -
  have "bc_ok s" "quiet s" "b \<notin> busyb s" "b \<in> dirtyb s \<or> card (dirtyb s \<union> busyb s) < NBUF" "busyb s = {}"
    using assms(1) by (auto simp: idle_def)
  then show ?thesis using bread_store [OF _ _ assms(2)] assms(3) by metis
qed

lemma write_head_ok:
  assumes "idle s" "lg_dev (k_log s) = 1" "lg_start (k_log s) = st" "st < k_disksize s" "st \<notin> dirtyb s"
  shows "\<exists>t. write_head s = Ret () t \<and> advanced s t [(st, enc_head (lg_lh (k_log s)) (blk s st))] {}"
proof -
  obtain i bs where r: "bread 1 st s = Ret i (s\<lparr>k_bcache := bs\<rparr>)" and t: "bc_ok (s\<lparr>k_bcache := bs\<rparr>)"
    "hold (s\<lparr>k_bcache := bs\<rparr>) i st" "blk (s\<lparr>k_bcache := bs\<rparr>) = blk s"
    "dirtyb (s\<lparr>k_bcache := bs\<rparr>) = dirtyb s" "busyb (s\<lparr>k_bcache := bs\<rparr>) = {st}"
    using bread_release [OF assms(1,4,5)] by blast
  define s1 where "s1 = s\<lparr>k_bcache := bs\<rparr>"
  note t = t [folded s1_def]
  let ?h = "enc_head (lg_lh (k_log s)) (blk s st)"
  have d: "b_data (k_bcache s1 ! i) = blk s st" using hold_blk [OF t(1,2)] t(3) by simp
  define s2 where "s2 = s1\<lparr>k_bcache := upd_at i (\<lambda>c. c\<lparr>b_data := ?h\<rparr>) (k_bcache s1)\<rparr>"
  have "length ?h = BSIZE" using length_blk [of s] assms(1) by (simp add: idle_def)
  then have s2: "bc_ok s2" "hold s2 i st" "blk s2 = (blk s)(st := ?h)" "dirtyb s2 = dirtyb s" "busyb s2 = {st}"
      "st < k_disksize s2"
    using set_data_store [OF t(1,2)] t(2-5) assms(4) by (simp_all add: s2_def) (simp_all add: s1_def)
  obtain bs3 s3 where w: "bwrite i s2 = Ret () s3" and s3: "s3 = (disk_write st (blk s2 st) s2)\<lparr>k_bcache := bs3\<rparr>"
      "bc_ok s3" "hold s3 i st" "blk s3 = blk s2" "dirtyb s3 = dirtyb s - {st}" "busyb s3 = {st}"
    using bwrite_store [OF s2(1,2,6)] s2 by (auto simp: Let_def)
  have q: "quiet s3" using assms(1) by (simp add: s3(1) s2_def s1_def disk_write_def idle_def)
  have c: "st \<in> dirtyb s3 \<or> blk s3 st = k_disk s3 st"
    using s3(4) by (simp add: s3(1) disk_write_def)
  obtain bs4 ps4 t where r4: "brelse i s3 = Ret () t" and t4: "t = s3\<lparr>k_bcache := bs4, k_procs := ps4\<rparr>"
      "bc_ok t" "blk t = blk s3" "dirtyb t = dirtyb s3" "busyb t = {}"
    using brelse_store [OF s3(2) q s3(3) c] s3(6) by (auto simp: Let_def)
  have "write_head s = Ret () t"
    using r w r4 assms(2,3) d by (simp add: write_head_def s2_def s1_def)
  moreover have "advanced s t [(st, ?h)] {}"
    using t4(2-5) s3(4,5) s2(3) q assms(5)
    by (simp add: advanced_def) (simp add: t4(1) s3(1) s2_def s1_def disk_write_def s2(3) [unfolded s2_def s1_def])
  ultimately show ?thesis by blast
qed

lemma read_head_ok:
  assumes "idle s" "lg_dev (k_log s) = 1" "lg_start (k_log s) = st" "st < k_disksize s" "st \<notin> dirtyb s"
  shows "\<exists>u. read_head s = Ret () (u\<lparr>k_log := (k_log s)\<lparr>lg_lh := dec_head (blk s st) (lh_block (lg_lh (k_log s)))\<rparr>\<rparr>)
    \<and> advanced s u [] {}"
proof -
  let ?l = "\<lambda>u. u\<lparr>k_log := (k_log s)\<lparr>lg_lh := dec_head (blk s st) (lh_block (lg_lh (k_log s)))\<rparr>\<rparr>"
  obtain i bs where r: "bread 1 st s = Ret i (s\<lparr>k_bcache := bs\<rparr>)" and t: "bc_ok (s\<lparr>k_bcache := bs\<rparr>)"
    "hold (s\<lparr>k_bcache := bs\<rparr>) i st" "blk (s\<lparr>k_bcache := bs\<rparr>) = blk s"
    "dirtyb (s\<lparr>k_bcache := bs\<rparr>) = dirtyb s" "busyb (s\<lparr>k_bcache := bs\<rparr>) = {st}" "blk s st = k_disk s st"
    using bread_release [OF assms(1,4,5)] by blast
  define s1 where "s1 = s\<lparr>k_bcache := bs\<rparr>"
  note t = t [folded s1_def]
  have d: "b_data (k_bcache s1 ! i) = blk s st" using hold_blk [OF t(1,2)] t(3) by simp
  define s2 where "s2 = ?l s1"
  have s2: "bc_ok s2" "hold s2 i st" "blk s2 = blk s" "dirtyb s2 = dirtyb s" "busyb s2 = {st}" "quiet s2"
    using t(1-5) assms(1) by (simp_all add: s2_def) (simp add: s1_def idle_def)
  have "st \<in> dirtyb s2 \<or> blk s2 st = k_disk s2 st" using s2(3) t(6) by (simp add: s2_def s1_def)
  then obtain bs4 ps4 where r4: "brelse i s2 = Ret () (s2\<lparr>k_bcache := bs4, k_procs := ps4\<rparr>)"
    and t4: "let t = s2\<lparr>k_bcache := bs4, k_procs := ps4\<rparr> in bc_ok t \<and> blk t = blk s \<and> dirtyb t = dirtyb s \<and> busyb t = {}"
    using brelse_store [OF s2(1,6,2)] s2(3-5) by (auto simp: Let_def)
  define u where "u = s1\<lparr>k_bcache := bs4, k_procs := ps4\<rparr>"
  have e: "s2\<lparr>k_bcache := bs4, k_procs := ps4\<rparr> = ?l u" by (simp add: s2_def u_def)
  have "bc_ok u" "blk u = blk s" "dirtyb u = dirtyb s" "busyb u = {}"
    using t4 by (simp_all add: e Let_def)
  then have "advanced s u [] {}" using s2(6) by (simp add: advanced_def) (simp add: u_def s2_def s1_def)
  moreover have "read_head s = Ret () (?l u)"
    using r r4 assms(2,3) d by (simp add: read_head_def e [symmetric]) (simp add: s2_def s1_def)
  ultimately show ?thesis by blast
qed

section \<open>Commit and recovery\<close>

text \<open>A transaction ready to commit: its blocks are exactly those that wait in the cache.\<close>

definition txn_ready :: "kernel \<Rightarrow> uint \<Rightarrow> nat \<Rightarrow> uint list \<Rightarrow> bool" where
  "txn_ready s st n bl \<longleftrightarrow> idle s \<and> log_at s st n bl \<and> log_fits (k_disksize s) st n bl
     \<and> distinct (take n bl) \<and> dirtyb s = set (take n bl)"

definition commit_writes :: "kernel \<Rightarrow> uint \<Rightarrow> nat \<Rightarrow> uint list \<Rightarrow> (uint \<times> block) list" where
  "commit_writes s st n bl = (let lh = lg_lh (k_log s); h = enc_head lh (blk s st) in
     log_writes (blk s) st bl n @ (st, h) # map (\<lambda>i. (bl ! i, blk s (bl ! i))) [0..<n]
     @ [(st, enc_head (lh\<lparr>lh_n := 0\<rparr>) h)])"

lemma take_image: "n \<le> length xs \<Longrightarrow> set (take n xs) = (!) xs ` {..<n}"
  using nth_image [of n xs] by (simp add: lessThan_atLeast0)

lemma lb_inj: "i < LOGSIZE \<Longrightarrow> j < LOGSIZE \<Longrightarrow> lb st i = lb st j \<longleftrightarrow> i = j"
  by (simp add: lb_def word_of_nat_eq_iff take_bit_nat_eq_self size_defs)

lemma lb_start: "i < LOGSIZE \<Longrightarrow> lb st i \<noteq> st"
proof
  assume "i < LOGSIZE" "lb st i = st"
  then have "(of_nat (Suc i) :: uint) = of_nat 0" by (simp add: lb_def algebra_simps)
  then show False using \<open>i < LOGSIZE\<close>
    by (subst (asm) word_of_nat_eq_iff) (simp add: take_bit_nat_eq_self size_defs)
qed

lemma log_writes_at:
  assumes "i < n" "n \<le> LOGSIZE"
  shows "apply_writes (log_writes D st bl n) E (lb st i) = D (bl ! i)"
  using assms
proof (induction n)
  case (Suc n)
  then show ?case using lb_inj [of i n st] by (auto simp: writes_Suc less_Suc_eq)
qed simp

lemma home_writes_at:
  assumes "i < n" "n \<le> length bl" "distinct (take n bl)"
  shows "apply_writes (home_writes D st bl n) E (bl ! i) = D (lb st i)"
  using assms
proof (induction n)
  case (Suc n)
  have "distinct (take n bl)" using Suc.prems(2,3) by (simp add: take_Suc_conv_app_nth)
  moreover have "bl ! i \<noteq> bl ! n" if "i < n"
    using nth_eq_iff_index_eq [OF Suc.prems(3), of i n] Suc.prems(2) that by simp
  ultimately show ?case using Suc by (auto simp: writes_Suc less_Suc_eq)
qed simp

lemma home_writes_cong:
  "(\<And>i. i < n \<Longrightarrow> bl ! i = bl' ! i) \<Longrightarrow> (\<And>i. i < n \<Longrightarrow> D (lb st i) = E i) \<Longrightarrow>
   home_writes D st bl n = map (\<lambda>i. (bl' ! i, E i)) [0..<n]"
  by (simp add: home_writes_def)

lemma commit_ok:
  assumes "txn_ready s st n bl" "0 < n"
  shows "\<exists>u t. commit s = Ret () t \<and> advanced s u (commit_writes s st n bl) (dirtyb s)
    \<and> t = u\<lparr>k_log := (k_log s)\<lparr>lg_lh := (lg_lh (k_log s))\<lparr>lh_n := 0\<rparr>\<rparr>\<rparr>"
proof -
  have r: "idle s" "log_at s st n bl" "log_fits (k_disksize s) st n bl" "distinct (take n bl)"
    "dirtyb s = (!) bl ` {..<n}"
    using assms(1) take_image [of n bl] by (auto simp: txn_ready_def log_at_def)
  have n: "n \<le> LOGSIZE" "n \<le> length bl" "lg_dev (k_log s) = 1" "lg_start (k_log s) = st" "st < k_disksize s"
    using r(2,3) by (auto simp: log_at_def log_fits_def)
  have nd: "\<forall>i<n. bl ! i \<in> dirtyb s \<and> lb st i \<notin> dirtyb s" "st \<notin> dirtyb s"
    using r(3,5) by (auto simp: log_fits_def)
  have st: "st \<notin> lb st ` {..<n}" using lb_start n(1) by (metis image_iff lessThan_iff less_le_trans)
  obtain s1 where w1: "write_log s = Ret () s1" and
    a1: "advanced s s1 (log_writes (blk s) st bl n) (lb st ` {..<n})"
    using write_log_ok [OF r(1-3) nd(1)] by blast
  let ?lh = "lg_lh (k_log s)" and ?h = "enc_head (lg_lh (k_log s)) (blk s st)"
  have d1: "dirtyb s1 = dirtyb s" "k_log s1 = k_log s" "k_disksize s1 = k_disksize s" using a1 nd by (auto simp: advanced_def)
  have b1: "blk s1 st = blk s st" using a1 st by (simp add: advanced_def apply_writes_other writes_dom)
  obtain s2 where w2: "write_head s1 = Ret () s2" and a2: "advanced s1 s2 [(st, ?h)] {}"
    using write_head_ok [OF idle_advanced [OF r(1) a1], of st] n nd d1 b1 by auto
  note a12 = advanced_trans [OF a1 a2]
  have d2: "dirtyb s2 = dirtyb s" "k_disksize s2 = k_disksize s" using a2 d1 by (auto simp: advanced_def)
  obtain s3 where w3: "install_trans s2 = Ret () s3" and a3: "advanced s2 s3 (home_writes (blk s2) st bl n) ((!) bl ` {..<n})"
    using install_trans_ok [OF idle_advanced [OF r(1) a12] log_at_advanced [OF r(2) a12] _ _ r(4)] r(3) nd d2 by auto
  have h: "home_writes (blk s2) st bl n = map (\<lambda>i. (bl ! i, blk s (bl ! i))) [0..<n]"
    using a12 n(1) lb_start [of _ st] by (intro home_writes_cong) (auto simp: advanced_def log_writes_at)
  note a13 = advanced_trans [OF a12 a3 [unfolded h]]
  define s4 where "s4 = s3\<lparr>k_log := (k_log s)\<lparr>lg_lh := ?lh\<lparr>lh_n := 0\<rparr>\<rparr>\<rparr>"
  have s4: "idle s4" "st \<notin> dirtyb s4" "k_disksize s4 = k_disksize s" "k_log s3 = k_log s"
    using idle_advanced [OF r(1) a13] a13 nd by (auto simp: s4_def idle_def advanced_def)
  have "st \<notin> (!) bl ` {..<n}" using nd(2) r(5) by simp
  then have b4: "blk s4 st = ?h"
    using a13 st b1 a1 by (simp add: s4_def advanced_def apply_writes_other image_image atLeast0LessThan)
  obtain t where w4: "write_head s4 = Ret () t" and a4: "advanced s4 t [(st, enc_head (?lh\<lparr>lh_n := 0\<rparr>) ?h)] {}"
    using write_head_ok [OF s4(1) _ _ _ s4(2)] n s4(3) b4 by (auto simp: s4_def)
  define u where "u = t\<lparr>k_log := k_log s\<rparr>"
  have "advanced s3 u [(st, enc_head (?lh\<lparr>lh_n := 0\<rparr>) ?h)] {}"
    using a4 s4(4) by (simp add: advanced_def u_def) (simp add: s4_def)
  from advanced_trans [OF a13 this] have "advanced s u (commit_writes s st n bl) (dirtyb s)"
    using nd r(5) by (simp add: commit_writes_def Let_def advanced_def Diff_Un)
  moreover have "t = u\<lparr>k_log := (k_log s)\<lparr>lg_lh := ?lh\<lparr>lh_n := 0\<rparr>\<rparr>\<rparr>"
    using a4 by (simp add: u_def advanced_def s4_def)
  moreover have "commit s = Ret () t"
    using w1 w2 w3 w4 r(2) assms(2) s4(4) by (simp add: commit_def log_at_def s4_def)
  ultimately show ?thesis by blast
qed

text \<open>The machine after a restart with disk \<open>D\<close>: nothing cached is newer than the disk.\<close>

definition rebooted :: "(uint \<Rightarrow> block) \<Rightarrow> uint \<Rightarrow> uint \<Rightarrow> kernel \<Rightarrow> bool" where
  "rebooted D sz st r \<longleftrightarrow> idle r \<and> dirtyb r = {} \<and> k_disk r = D \<and> k_disksize r = sz \<and> lg_dev (k_log r) = 1
     \<and> lg_start (k_log r) = st \<and> length (lh_block (lg_lh (k_log r))) = LOGSIZE"

lemma length_dec_head: "lh_n (dec_head d old) \<ge> 0 \<Longrightarrow> length (lh_block (dec_head d old)) = length old"
  by (simp add: dec_head_def Let_def)

lemma recover_ok:
  assumes "rebooted D sz st r" "lh = dec_head (D st) (lh_block (lg_lh (k_log r)))" "lh_n lh = int n" "n < LOGSIZE"
    and "log_fits sz st n (lh_block lh)" "distinct (take n (lh_block lh))"
  shows "\<exists>t h. recover_from_log r = Ret () t \<and> idle t \<and> dirtyb t = {} \<and> lh_n (lg_lh (k_log t)) = 0
    \<and> k_disk t = (apply_writes (home_writes D st (lh_block lh) n) D)(st := h) \<and> get32 h 0 = 0"
proof -
  let ?bl = "lh_block lh"
  have r: "idle r" "dirtyb r = {}" "lg_dev (k_log r) = 1" "lg_start (k_log r) = st" "st < k_disksize r"
    "k_disk r = D" "blk r = D" "length ?bl = LOGSIZE" "k_disksize r = sz"
    using assms clean_blk [of r] length_dec_head [of "D st"] by (auto simp: rebooted_def log_fits_def idle_def)
  obtain u where h: "read_head r = Ret () (u\<lparr>k_log := (k_log r)\<lparr>lg_lh := lh\<rparr>\<rparr>)" and u: "advanced r u [] {}"
    using read_head_ok [OF r(1,3-5)] r(2,7) assms(2) by auto
  define s1 where "s1 = u\<lparr>k_log := (k_log r)\<lparr>lg_lh := lh\<rparr>\<rparr>"
  have s1: "idle s1" "log_at s1 st n ?bl" "dirtyb s1 = {}" "k_disksize s1 = sz" "blk s1 = D" "k_disk s1 = D"
    using idle_advanced [OF r(1) u] u r assms(3,4) by (auto simp: s1_def log_at_def advanced_def idle_def)
  obtain s2 where i: "install_trans s1 = Ret () s2" and s2: "advanced s1 s2 (home_writes D st ?bl n) ((!) ?bl ` {..<n})"
    using install_trans_ok [OF s1(1,2) _ _ assms(6)] s1(3-5) assms(5) by (auto simp: size_defs)
  define s3 where "s3 = s2\<lparr>k_log := (k_log s2)\<lparr>lg_lh := lh\<lparr>lh_n := 0\<rparr>\<rparr>\<rparr>"
  have l2: "lg_lh (k_log s2) = lh" "k_log s2 = (k_log r)\<lparr>lg_lh := lh\<rparr>" using s2 by (auto simp: advanced_def s1_def)
  have s3: "idle s3" "dirtyb s3 = {}" "k_disksize s3 = sz" "k_disk s3 = apply_writes (home_writes D st ?bl n) D"
    "lg_dev (k_log s3) = 1" "lg_start (k_log s3) = st"
  proof -
    show "lg_dev (k_log s3) = 1" "lg_start (k_log s3) = st" using r(3,4) by (simp_all add: s3_def l2(2))
  qed (use idle_advanced [OF s1(1) s2] s2 s1 in \<open>simp_all add: s3_def advanced_def idle_def\<close>)
  let ?h = "enc_head (lh\<lparr>lh_n := 0\<rparr>) (blk s3 st)"
  obtain t where w: "write_head s3 = Ret () t" and t: "advanced s3 t [(st, ?h)] {}"
    using write_head_ok [OF s3(1,5,6)] s3(2,3) r by (auto simp: s3_def l2(1))
  have "length (blk s3 st) = BSIZE" using s3(1) by (simp add: idle_def length_blk)
  then have "get32 ?h 0 = 0" using enc_head_fields(1) [of "blk s3 st" "lh\<lparr>lh_n := 0\<rparr>"] by simp
  moreover have "recover_from_log r = Ret () t"
    using h i w by (simp add: recover_from_log_def s1_def s3_def l2(1))
  moreover have "idle t \<and> dirtyb t = {} \<and> lh_n (lg_lh (k_log t)) = 0
      \<and> k_disk t = (apply_writes (home_writes D st ?bl n) D)(st := ?h)"
    using idle_advanced [OF s3(1) t] t s3 by (auto simp: advanced_def) (simp add: s3_def)
  ultimately show ?thesis by blast
qed

definition log_region :: "uint \<Rightarrow> nat \<Rightarrow> uint set" where
  "log_region st n = insert st (lb st ` {..<n})"

lemma copy_writes_at:
  "apply_writes (map (\<lambda>i. (bl ! i, D (bl ! i))) [0..<n]) E b = (if b \<in> (!) bl ` {..<n} then D b else E b)"
  by (induction n) (auto simp: less_Suc_eq)

text \<open>With the header cleared, recovery changes nothing outside the header block.\<close>

lemma recover_empty:
  assumes "rebooted D sz st r" "get32 (D st) 0 = 0" "st < sz"
  shows "\<exists>t. recover_from_log r = Ret () t \<and> (\<forall>b. b \<noteq> st \<longrightarrow> k_disk t b = D b)"
proof -
  have "lh_n (dec_head (D st) (lh_block (lg_lh (k_log r)))) = int 0" using assms(2) by (simp add: dec_head_def)
  from recover_ok [OF assms(1) refl this] show ?thesis
    using assms(3) by (fastforce simp: log_fits_def home_writes_def size_defs)
qed

text \<open>With the header written, recovery installs the logged blocks.\<close>

lemma recover_full:
  assumes "rebooted D sz st r" "D st = enc_head lh d" "length d = BSIZE" "length (lh_block lh) = LOGSIZE"
    and "lh_n lh = int n" "n < LOGSIZE" "log_fits sz st n (lh_block lh)" "distinct (take n (lh_block lh))"
    and "\<And>i. i < n \<Longrightarrow> D (lb st i) = N (lh_block lh ! i)"
  shows "\<exists>t. recover_from_log r = Ret () t
    \<and> (\<forall>b. b \<noteq> st \<longrightarrow> k_disk t b = (if b \<in> set (take n (lh_block lh)) then N b else D b))"
proof -
  define lh' where "lh' = dec_head (D st) (lh_block (lg_lh (k_log r)))"
  have l: "lh_n lh' = int n" "take n (lh_block lh') = take n (lh_block lh)"
    using dec_enc_head [of d lh] assms(1-6) by (auto simp: lh'_def rebooted_def)
  have nth: "lh_block lh' ! i = lh_block lh ! i" if "i < n" for i
    using arg_cong [OF l(2), of "\<lambda>xs. xs ! i"] that by simp
  have f: "log_fits sz st n (lh_block lh')" using assms(7) nth by (simp add: log_fits_def)
  have "home_writes D st (lh_block lh') n = map (\<lambda>i. (lh_block lh ! i, N (lh_block lh ! i))) [0..<n]"
    using nth assms(9) by (intro home_writes_cong) auto
  then show ?thesis
    using recover_ok [OF assms(1) lh'_def l(1) assms(6) f] l(2) assms(4,6,8) take_image [of n "lh_block lh"]
    by (fastforce simp: copy_writes_at)
qed

section \<open>Building a transaction\<close>

lemma set_dirty_store:
  assumes "bc_ok s" "hold s i n"
  defines "s' \<equiv> s\<lparr>k_bcache := upd_at i (\<lambda>b. b\<lparr>b_dirty := True\<rparr>) (k_bcache s)\<rparr>"
  shows "bc_ok s'" "hold s' = hold s" "blk s' = blk s" "dirtyb s' = insert n (dirtyb s)" "busyb s' = busyb s"
proof -
  let ?b = "(k_bcache s ! i)\<lparr>b_dirty := True\<rparr>"
  have i: "i < NBUF" "b_busy (k_bcache s ! i)" "b_valid (k_bcache s ! i)" "b_dev (k_bcache s ! i) = 1"
    "b_blockno (k_bcache s ! i) = n" using assms(2) by (auto simp: hold_def)
  have l: "i < length (k_bcache s)" using i bc_okD(1) [OF assms(1)] by simp
  have s': "s' = s\<lparr>k_bcache := upd_at i (\<lambda>_. ?b) (k_bcache s)\<rparr>"
    unfolding s'_def by (rule arg_cong [where f = "\<lambda>x. s\<lparr>k_bcache := x\<rparr>"], rule upd_at_eqI) simp
  have ne: "b_blockno (k_bcache s ! j) \<noteq> n" if "j < NBUF" "j \<noteq> i" "b_dev (k_bcache s ! j) = 1" for j
    using hold_unique [OF assms(1,2) that(1,3)] that(2) by blast
  show "bc_ok s'" unfolding s'
    by (rule bc_ok_upd [OF assms(1) i(1)]) (simp_all add: i ne bc_okD(3) [OF assms(1)])
  have e: "k_bcache s' ! j = (if j = i then ?b else k_bcache s ! j)" for j
    using l by (simp add: s'_def upd_at_def nth_list_update)
  show "hold s' = hold s" by (simp add: hold_def e fun_eq_iff)
  have "b_busy (k_bcache s' ! j) = b_busy (k_bcache s ! j)" "b_blockno (k_bcache s' ! j) = b_blockno (k_bcache s ! j)"
    "b_dirty (k_bcache s' ! j) = (j = i \<or> b_dirty (k_bcache s ! j))" for j by (simp_all add: e)
  then show "dirtyb s' = insert n (dirtyb s)" "busyb s' = busyb s"
    using i by (auto simp: dirtyb_def busyb_def)
  show "blk s' = blk s"
    by (intro ext blk_eqI) (simp_all add: holds_blk_def e, simp add: s'_def)
qed

text \<open>
  The blocks of the transaction are the first \<open>n\<close> of the header and they are the blocks
  that wait in the cache.
\<close>

definition log_inv :: "kernel \<Rightarrow> bool" where
  "log_inv s \<longleftrightarrow> (let lh = lg_lh (k_log s); bl = take (nat (lh_n lh)) (lh_block lh) in
     0 \<le> lh_n lh \<and> lh_n lh \<le> int LOGSIZE \<and> length (lh_block lh) = LOGSIZE \<and> distinct bl \<and> dirtyb s = set bl)"

definition logged :: "logheader \<Rightarrow> uint \<Rightarrow> logheader" where
  "logged lh bn = (let k = log_slot lh bn in
     \<lparr>lh_n = (if int k = lh_n lh then lh_n lh + 1 else lh_n lh), lh_block = (lh_block lh)[k := bn]\<rparr>)"

lemma logged_blocks:
  assumes "0 \<le> lh_n lh" "lh_n lh < int LOGSIZE" "length (lh_block lh) = LOGSIZE"
    and "bl = take (nat (lh_n lh)) (lh_block lh)" "distinct bl"
  shows "take (nat (lh_n (logged lh bn))) (lh_block (logged lh bn)) = (if bn \<in> set bl then bl else bl @ [bn])"
    and "lh_n (logged lh bn) = (if bn \<in> set bl then lh_n lh else lh_n lh + 1)"
    and "length (lh_block (logged lh bn)) = LOGSIZE"
proof -
  have n: "nat (lh_n lh) < length (lh_block lh)" "length bl = nat (lh_n lh)" using assms(1-4) by auto
  have "take (nat (lh_n (logged lh bn))) (lh_block (logged lh bn)) = (if bn \<in> set bl then bl else bl @ [bn])
      \<and> lh_n (logged lh bn) = (if bn \<in> set bl then lh_n lh else lh_n lh + 1)
      \<and> length (lh_block (logged lh bn)) = LOGSIZE"
  proof (cases "find_idx (\<lambda>x. x = bn) bl")
    case None
    moreover have "bn \<notin> set bl" using None by (auto simp: find_idx_None_iff)
    ultimately have "log_slot lh bn = nat (lh_n lh)" "bn \<notin> set bl"
      using assms(4) by (simp_all add: log_slot_def)
    then show ?thesis using assms(1-4) n(1)
      by (simp add: logged_def take_Suc_conv_app_nth nat_add_distrib)
  next
    case (Some i)
    then have i: "log_slot lh bn = i" "i < nat (lh_n lh)" "bl ! i = bn"
      using assms(4) n(2) find_idx_SomeD [OF Some] by (auto simp: log_slot_def)
    then have "bn \<in> set bl" "(lh_block lh)[i := bn] = lh_block lh"
      using n assms(4) nth_mem [of i bl] list_update_id [of "lh_block lh" i] by auto
    then show ?thesis using i(1,2) assms(1-4) by (auto simp: logged_def)
  qed
  then show "take (nat (lh_n (logged lh bn))) (lh_block (logged lh bn)) = (if bn \<in> set bl then bl else bl @ [bn])"
    "lh_n (logged lh bn) = (if bn \<in> set bl then lh_n lh else lh_n lh + 1)"
    "length (lh_block (logged lh bn)) = LOGSIZE" by auto
qed

lemma log_write_eq:
  assumes "quiet s" "hold s i b" "lh_n (lg_lh (k_log s)) < lg_size (k_log s) - 1" "lh_n (lg_lh (k_log s)) < int LOGSIZE"
    and "1 \<le> lg_outstanding (k_log s)"
  shows "log_write i s = Ret () (s\<lparr>k_log := (k_log s)\<lparr>lg_lh := logged (lg_lh (k_log s)) b\<rparr>,
    k_bcache := upd_at i (\<lambda>c. c\<lparr>b_dirty := True\<rparr>) (k_bcache s)\<rparr>)"
  using assms by (simp add: log_write_def logged_def Let_def hold_def)

lemma log_write_ok:
  assumes "bc_ok s" "log_inv s" "quiet s" "hold s i b" "1 \<le> lg_outstanding (k_log s)"
    and "lh_n (lg_lh (k_log s)) < lg_size (k_log s) - 1" "lh_n (lg_lh (k_log s)) < int LOGSIZE"
  shows "\<exists>t. log_write i s = Ret () t \<and> bc_ok t \<and> log_inv t \<and> quiet t \<and> hold t = hold s
    \<and> blk t = blk s \<and> busyb t = busyb s \<and> dirtyb t = insert b (dirtyb s) \<and> k_disk t = k_disk s
    \<and> k_log t = (k_log s)\<lparr>lg_lh := logged (lg_lh (k_log s)) b\<rparr> \<and> k_disksize t = k_disksize s"
proof -
  define s1 where "s1 = s\<lparr>k_log := (k_log s)\<lparr>lg_lh := logged (lg_lh (k_log s)) b\<rparr>\<rparr>"
  have s1: "bc_ok s1" "hold s1 i b" using assms(1,4) by (simp_all add: s1_def)
  define t where "t = s1\<lparr>k_bcache := upd_at i (\<lambda>c. c\<lparr>b_dirty := True\<rparr>) (k_bcache s1)\<rparr>"
  note st = set_dirty_store [OF s1, folded t_def]
  have f: "hold t = hold s" "blk t = blk s" "busyb t = busyb s" "dirtyb t = insert b (dirtyb s)"
    using st by (simp_all add: s1_def)
  have g: "k_disk t = k_disk s" "k_log t = (k_log s)\<lparr>lg_lh := logged (lg_lh (k_log s)) b\<rparr>"
    "k_disksize t = k_disksize s" "quiet t" using assms(3) by (simp_all add: t_def s1_def)
  have "log_write i s = Ret () t"
    using log_write_eq [OF assms(3,4,6,7,5)] by (simp add: t_def s1_def)
  moreover have "log_inv t"
    using assms(2,7) logged_blocks [OF _ assms(7) _ refl, of b] f(4) g(2) by (auto simp: log_inv_def Let_def)
  ultimately show ?thesis using st(1) f g by blast
qed

text \<open>
  \<open>logged_room s b\<close>: there is a buffer and a log slot for block \<open>b\<close>.
  \<open>updated s t b d\<close>: the transaction changed block \<open>b\<close> to \<open>d\<close>.
\<close>

definition log_room :: "kernel \<Rightarrow> uint \<Rightarrow> bool" where
  "log_room s b \<longleftrightarrow> b < k_disksize s \<and> b \<notin> busyb s \<and> (b \<in> dirtyb s \<or> card (dirtyb s \<union> busyb s) < NBUF)
     \<and> lh_n (lg_lh (k_log s)) < lg_size (k_log s) - 1 \<and> lh_n (lg_lh (k_log s)) < int LOGSIZE
     \<and> 1 \<le> lg_outstanding (k_log s)"

definition updated :: "kernel \<Rightarrow> kernel \<Rightarrow> uint \<Rightarrow> block \<Rightarrow> bool" where
  "updated s t b d \<longleftrightarrow> bc_ok t \<and> log_inv t \<and> quiet t \<and> blk t = (blk s)(b := d) \<and> busyb t = busyb s
     \<and> dirtyb t = insert b (dirtyb s) \<and> (\<forall>j m. hold s j m \<longrightarrow> hold t j m)
     \<and> (\<exists>bs ps. t = s\<lparr>k_bcache := bs, k_procs := ps, k_log := (k_log s)\<lparr>lg_lh := logged (lg_lh (k_log s)) b\<rparr>\<rparr>)"

lemma update_held:
  assumes "bc_ok s" "log_inv s" "quiet s" "hold s i b" "length d = BSIZE" "1 \<le> lg_outstanding (k_log s)"
    and "lh_n (lg_lh (k_log s)) < lg_size (k_log s) - 1" "lh_n (lg_lh (k_log s)) < int LOGSIZE"
  shows "\<exists>t. andthen (set_data i d) (andthen (log_write i) (brelse i)) s = Ret () t
    \<and> bc_ok t \<and> log_inv t \<and> quiet t \<and> blk t = (blk s)(b := d) \<and> busyb t = busyb s - {b}
    \<and> dirtyb t = insert b (dirtyb s) \<and> (\<forall>j m. m \<noteq> b \<longrightarrow> hold t j m = hold s j m)
    \<and> (\<exists>bs ps. t = s\<lparr>k_bcache := bs, k_procs := ps, k_log := (k_log s)\<lparr>lg_lh := logged (lg_lh (k_log s)) b\<rparr>\<rparr>)"
proof -
  define s1 where "s1 = s\<lparr>k_bcache := upd_at i (\<lambda>b. b\<lparr>b_data := d\<rparr>) (k_bcache s)\<rparr>"
  have s1: "bc_ok s1" "hold s1 = hold s" "blk s1 = (blk s)(b := d)" "dirtyb s1 = dirtyb s" "busyb s1 = busyb s"
    "k_log s1 = k_log s" "quiet s1" "log_inv s1"
    using set_data_store [OF assms(1,4,5)] assms(2,3) by (simp_all add: s1_def fun_eq_iff log_inv_def)
  obtain s2 where w: "log_write i s1 = Ret () s2" and s2: "bc_ok s2" "log_inv s2" "quiet s2" "hold s2 = hold s"
      "blk s2 = blk s1" "busyb s2 = busyb s" "dirtyb s2 = insert b (dirtyb s)"
    using log_write_ok [OF s1(1,8,7), of i b] s1 assms(4,6-8) by auto
  have f2: "s2 = s\<lparr>k_bcache := k_bcache s2, k_log := (k_log s)\<lparr>lg_lh := logged (lg_lh (k_log s)) b\<rparr>\<rparr>"
    using w log_write_eq [OF s1(7), of i b] s1(2,6) assms(4,6-8) by (auto simp: s1_def)
  obtain bs ps where r: "brelse i s2 = Ret () (s2\<lparr>k_bcache := bs, k_procs := ps\<rparr>)"
    and t: "let t = s2\<lparr>k_bcache := bs, k_procs := ps\<rparr> in bc_ok t \<and> (\<forall>j m. m \<noteq> b \<longrightarrow> hold t j m = hold s2 j m)
       \<and> blk t = blk s2 \<and> dirtyb t = dirtyb s2 \<and> busyb t = busyb s2 - {b}"
    using brelse_store [OF s2(1,3), of i b] s2(4,7) assms(4) by auto
  define t where "t = s2\<lparr>k_bcache := bs, k_procs := ps\<rparr>"
  note t = t [folded t_def, unfolded Let_def]
  have "t = s\<lparr>k_bcache := bs, k_procs := ps, k_log := (k_log s)\<lparr>lg_lh := logged (lg_lh (k_log s)) b\<rparr>\<rparr>"
    by (subst t_def, subst f2) simp
  moreover have "log_inv t" "quiet t" using s2(2,3) t s2(7) by (simp_all add: log_inv_def t_def)
  moreover have "andthen (set_data i d) (andthen (log_write i) (brelse i)) s = Ret () t"
    using w r by (simp add: s1_def t_def)
  moreover have "bc_ok t" "blk t = (blk s)(b := d)" "busyb t = busyb s - {b}" "dirtyb t = insert b (dirtyb s)"
    "\<forall>j m. m \<noteq> b \<longrightarrow> hold t j m = hold s j m" using t s2(4-7) s1(3) by simp_all
  ultimately show ?thesis by blast
qed

lemma update_block:
  assumes "bc_ok s" "log_inv s" "quiet s" "log_room s b" "\<And>d. length (f d) = length d"
  shows "\<exists>t. bnd (bread 1 b) (\<lambda>i. bnd (get_data i) (\<lambda>d. andthen (set_data i (f d)) (andthen (log_write i) (brelse i)))) s
    = Ret () t \<and> updated s t b (f (blk s b))"
proof -
  have room: "b < k_disksize s" "b \<notin> busyb s" "b \<in> dirtyb s \<or> card (dirtyb s \<union> busyb s) < NBUF"
    "lh_n (lg_lh (k_log s)) < lg_size (k_log s) - 1" "lh_n (lg_lh (k_log s)) < int LOGSIZE" "1 \<le> lg_outstanding (k_log s)"
    using assms(4) by (auto simp: log_room_def)
  obtain i bs where r: "bread 1 b s = Ret i (s\<lparr>k_bcache := bs\<rparr>)" "bc_ok (s\<lparr>k_bcache := bs\<rparr>)"
    "hold (s\<lparr>k_bcache := bs\<rparr>) i b" "blk (s\<lparr>k_bcache := bs\<rparr>) = blk s" "dirtyb (s\<lparr>k_bcache := bs\<rparr>) = dirtyb s"
    "busyb (s\<lparr>k_bcache := bs\<rparr>) = insert b (busyb s)" "\<forall>j m. hold s j m \<longrightarrow> hold (s\<lparr>k_bcache := bs\<rparr>) j m"
    using bread_store [OF assms(1,3) room(1-3)] by blast
  define s1 where "s1 = s\<lparr>k_bcache := bs\<rparr>"
  note r = r [folded s1_def]
  have s1: "log_inv s1" "quiet s1" "k_log s1 = k_log s" using assms(2,3) r(5) by (simp_all add: s1_def log_inv_def)
  let ?d = "f (blk s b)"
  have d: "b_data (k_bcache s1 ! i) = blk s b" "length ?d = BSIZE"
    using hold_blk [OF r(2,3)] r(4) assms(5) length_blk [OF assms(1), of b] by simp_all
  obtain t where u: "andthen (set_data i ?d) (andthen (log_write i) (brelse i)) s1 = Ret () t"
    and t: "bc_ok t \<and> log_inv t \<and> quiet t \<and> blk t = (blk s1)(b := ?d) \<and> busyb t = busyb s1 - {b}
      \<and> dirtyb t = insert b (dirtyb s1) \<and> (\<forall>j m. m \<noteq> b \<longrightarrow> hold t j m = hold s1 j m)
      \<and> (\<exists>bs ps. t = s1\<lparr>k_bcache := bs, k_procs := ps, k_log := (k_log s1)\<lparr>lg_lh := logged (lg_lh (k_log s1)) b\<rparr>\<rparr>)"
    using update_held [OF r(2) s1(1,2) r(3) d(2), unfolded s1(3), OF room(6,4,5)] unfolding s1(3) by blast
  have "hold t j m" if "hold s j m" for j m
  proof -
    have "m \<in> busyb s" using that by (auto simp: hold_def in_busyb)
    then have "m \<noteq> b" using room(2) by blast
    then show ?thesis using t r(7) that by blast
  qed
  moreover have "\<exists>bs ps. t = s\<lparr>k_bcache := bs, k_procs := ps, k_log := (k_log s)\<lparr>lg_lh := logged (lg_lh (k_log s)) b\<rparr>\<rparr>"
    using t s1(3) by (simp add: s1_def)
  moreover have "blk t = (blk s)(b := ?d)" "busyb t = busyb s" "dirtyb t = insert b (dirtyb s)"
    using t r(4-6) room(2) by auto
  ultimately have "updated s t b ?d" using t unfolding updated_def by blast
  moreover have "bnd (bread 1 b) (\<lambda>i. bnd (get_data i) (\<lambda>d. andthen (set_data i (f d)) (andthen (log_write i) (brelse i)))) s
    = Ret () t" using r(1) u d(1) by simp
  ultimately show ?thesis by blast
qed

section \<open>Crash safety\<close>

lemma region_facts:
  assumes "txn_ready s st n bl"
  shows "st \<notin> lb st ` {..<n}" "i < n \<Longrightarrow> bl ! i \<notin> log_region st n" "st < k_disksize s"
    and "\<And>b. b \<notin> set (take n bl) \<Longrightarrow> blk s b = k_disk s b"
proof -
  have f: "log_fits (k_disksize s) st n bl" "n < LOGSIZE" using assms by (auto simp: txn_ready_def log_at_def)
  show "st \<notin> lb st ` {..<n}" using lb_start f(2) by (metis image_iff lessThan_iff less_trans)
  show "bl ! i \<notin> log_region st n" if "i < n"
    using f(1) that unfolding log_fits_def log_region_def by (metis imageE insertE lessThan_iff)
  show "st < k_disksize s" using f(1) by (simp add: log_fits_def)
  show "\<And>b. b \<notin> set (take n bl) \<Longrightarrow> blk s b = k_disk s b"
    using assms clean_blk [of s] by (auto simp: txn_ready_def idle_def)
qed

text \<open>The disk at the three stages of a commit.\<close>

lemma crash_before:
  assumes "txn_ready s st n bl" "m \<le> n"
  shows "b \<notin> lb st ` {..<n} \<Longrightarrow> apply_writes (take m (commit_writes s st n bl)) (k_disk s) b = k_disk s b"
proof -
  assume b: "b \<notin> lb st ` {..<n}"
  have "take m (commit_writes s st n bl) = log_writes (blk s) st bl m"
    using assms(2) by (simp add: commit_writes_def Let_def log_writes_def take_map)
  moreover have "b \<notin> lb st ` {..<m}" using b assms(2) by auto
  ultimately show ?thesis by (simp add: apply_writes_other writes_dom)
qed

lemma crash_middle:
  fixes s st n bl j
  defines "D \<equiv> apply_writes (take (n + 1 + j) (commit_writes s st n bl)) (k_disk s)"
  assumes "txn_ready s st n bl" "j \<le> n"
  shows "D st = enc_head (lg_lh (k_log s)) (blk s st)" "i < n \<Longrightarrow> D (lb st i) = blk s (bl ! i)"
    and "b \<notin> log_region st n \<Longrightarrow> D b = (if b \<in> (!) bl ` {..<j} then blk s b else k_disk s b)"
proof -
  let ?h = "enc_head (lg_lh (k_log s)) (blk s st)"
  have "D = apply_writes (map (\<lambda>i. (bl ! i, blk s (bl ! i))) [0..<j])
      ((apply_writes (log_writes (blk s) st bl n) (k_disk s))(st := ?h))"
    using assms(3) by (simp add: D_def commit_writes_def Let_def log_writes_def take_map)
  then have D: "D b = (if b \<in> (!) bl ` {..<j} then blk s b
      else if b = st then ?h else apply_writes (log_writes (blk s) st bl n) (k_disk s) b)" for b
    by (simp add: copy_writes_at)
  note f = region_facts [OF assms(2)]
  have n: "n \<le> LOGSIZE" using assms(2) by (simp add: txn_ready_def log_at_def)
  have nl: "b \<notin> (!) bl ` {..<j}" if "b \<in> log_region st n" for b
    using f(2) assms(3) that by (metis imageE lessThan_iff less_le_trans)
  show "D st = ?h" using nl [of st] by (simp add: D log_region_def)
  show "D (lb st i) = blk s (bl ! i)" if "i < n"
  proof -
    have "lb st i \<in> log_region st n" "lb st i \<noteq> st" using that lb_start n by (auto simp: log_region_def)
    then show ?thesis using nl log_writes_at [OF that n] by (simp add: D)
  qed
  show "D b = (if b \<in> (!) bl ` {..<j} then blk s b else k_disk s b)" if "b \<notin> log_region st n"
    using that by (simp add: D log_region_def apply_writes_other writes_dom)
qed

lemma crash_after:
  fixes s st n bl
  defines "D \<equiv> apply_writes (commit_writes s st n bl) (k_disk s)"
  assumes "txn_ready s st n bl"
  shows "get32 (D st) 0 = 0" "b \<notin> log_region st n \<Longrightarrow> D b = blk s b"
proof -
  let ?W = "commit_writes s st n bl" and ?lh = "lg_lh (k_log s)"
  let ?h = "enc_head (?lh\<lparr>lh_n := 0\<rparr>) (enc_head ?lh (blk s st))"
  have "?W = take (n + 1 + n) ?W @ [(st, ?h)]" by (simp add: commit_writes_def Let_def log_writes_def)
  then have D: "D = (apply_writes (take (n + 1 + n) ?W) (k_disk s))(st := ?h)"
    unfolding D_def by (metis apply_writes_simps(1,2,3))
  have "length (blk s st) = BSIZE" using assms(2) by (simp add: txn_ready_def idle_def length_blk)
  then show "get32 (D st) 0 = 0" using enc_head_fields(1) [of "enc_head ?lh (blk s st)" "?lh\<lparr>lh_n := 0\<rparr>"] by (simp add: D)
  have "set (take n bl) = (!) bl ` {..<n}" using assms(2) by (intro take_image) (simp add: txn_ready_def log_at_def)
  then show "D b = blk s b" if "b \<notin> log_region st n"
    using crash_middle(3) [OF assms(2) order_refl that] region_facts(4) [OF assms(2), of b] that
    by (auto simp: D log_region_def)
qed

text \<open>
  C1: commits are atomic under crashes. Let a transaction with \<open>n\<close> blocks be ready and the
  header on disk be cleared. Then \<^verbatim>\<open>commit\<close> returns after a sequence of block writes, and if the
  machine stops after any number \<open>m\<close> of them, \<^verbatim>\<open>recover_from_log\<close> of the next boot returns and
  leaves every block outside the log with its old contents when the header had not been
  written (\<open>m \<le> n\<close>), and with the transaction's contents otherwise.
\<close>

theorem commit_crash_safe:
  assumes "txn_ready s st n bl" "0 < n" "get32 (k_disk s st) 0 = 0"
  shows "\<exists>W t. commit s = Ret () t \<and> k_writes t = k_writes s @ W \<and> k_disk t = apply_writes W (k_disk s)
    \<and> (\<forall>m r. m \<le> length W \<and> rebooted (apply_writes (take m W) (k_disk s)) (k_disksize s) st r \<longrightarrow>
        (\<exists>u. recover_from_log r = Ret () u
          \<and> (\<forall>b. b \<notin> log_region st n \<longrightarrow> k_disk u b = (if m \<le> n then k_disk s b else blk s b))))"
proof -
  let ?W = "commit_writes s st n bl" and ?lh = "lg_lh (k_log s)"
  have t: "\<exists>t. commit s = Ret () t \<and> k_writes t = k_writes s @ ?W \<and> k_disk t = apply_writes ?W (k_disk s)"
    using commit_ok [OF assms(1,2)] by (auto simp: advanced_def)
  have lh: "lh_n ?lh = int n" "lh_block ?lh = bl" "length bl = LOGSIZE" "n < LOGSIZE" "distinct (take n bl)"
    "log_fits (k_disksize s) st n bl" "length (blk s st) = BSIZE"
    using assms(1) by (auto simp: txn_ready_def log_at_def idle_def length_blk)
  note f = region_facts [OF assms(1)]
  have len: "length ?W = n + 1 + n + 1" by (simp add: commit_writes_def log_writes_def Let_def)
  have "\<exists>u. recover_from_log r = Ret () u
      \<and> (\<forall>b. b \<notin> log_region st n \<longrightarrow> k_disk u b = (if m \<le> n then k_disk s b else blk s b))"
    if m: "m \<le> length ?W" and r: "rebooted (apply_writes (take m ?W) (k_disk s)) (k_disksize s) st r" for m r
  proof -
    consider "m \<le> n" | j where "m = n + 1 + j" "j \<le> n" | "m = length ?W" "\<not> m \<le> n"
      using m len by (metis add.assoc add_le_cancel_left le_Suc_eq le_add_diff_inverse less_eq_Suc_le not_less Suc_eq_plus1 plus_1_eq_Suc)
    then show ?thesis
    proof cases
      case 1
      note D = crash_before [OF assms(1) 1]
      show ?thesis using recover_empty [OF r _ f(3)] D D [OF f(1)] assms(3) 1
        by (fastforce simp: log_region_def)
    next
      case (2 j)
      note D = crash_middle [OF assms(1) 2(2), folded 2(1)]
      have T: "set (take n bl) = (!) bl ` {..<n}" using lh(3,4) by (intro take_image) simp
      have "b \<notin> (!) bl ` {..<j}" if "b \<notin> set (take n bl)" for b using that 2(2) T by auto
      then show ?thesis
        using recover_full [OF r D(1) lh(7), of n "blk s"] lh D(2,3) f(4) 2(1) by (fastforce simp: log_region_def)
    next
      case 3
      note D = crash_after [OF assms(1)]
      show ?thesis using recover_empty [OF r _ f(3)] D 3 by (fastforce simp: log_region_def)
    qed
  qed
  then show ?thesis using t by blast
qed

section \<open>Operations in a transaction\<close>

text \<open>
  C11: the block list of the running transaction and the blocks pinned in the cache stay
  the same set. \<^verbatim>\<open>log_write\<close> on a locked buffer inside a transaction that has room records
  the buffer's block once (a block that is already in the transaction is absorbed), pins it,
  and changes neither the disk nor what readers see.
\<close>

theorem log_write_records:
  assumes "bc_ok s" "log_inv s" "quiet s" "hold s i b" "1 \<le> lg_outstanding (k_log s)"
    and "lh_n (lg_lh (k_log s)) < lg_size (k_log s) - 1" "lh_n (lg_lh (k_log s)) < int LOGSIZE"
  shows "\<exists>t. log_write i s = Ret () t \<and> bc_ok t \<and> log_inv t \<and> dirtyb t = insert b (dirtyb s)
    \<and> lh_n (lg_lh (k_log t)) = (if b \<in> dirtyb s then lh_n (lg_lh (k_log s)) else lh_n (lg_lh (k_log s)) + 1)
    \<and> blk t = blk s \<and> k_disk t = k_disk s \<and> busyb t = busyb s"
proof -
  let ?lh = "lg_lh (k_log s)"
  have "lh_n (logged ?lh b) = (if b \<in> dirtyb s then lh_n ?lh else lh_n ?lh + 1)"
    using assms(2) logged_blocks(2) [OF _ assms(7) _ refl, of b] by (simp add: log_inv_def Let_def)
  then show ?thesis using log_write_ok [OF assms] by auto
qed

text \<open>
  C28: the reservation of \<^verbatim>\<open>begin_op\<close> is one block short. With an empty log of LOGSIZE blocks,
  as \<^verbatim>\<open>mkfs\<close> lays it out, \<^verbatim>\<open>begin_op\<close> admits a third operation, so three operations may
  write MAXOPBLOCKS blocks each, LOGSIZE in all; but once LOGSIZE - 1 of those blocks
  have been written, the next \<^verbatim>\<open>log_write\<close> panics.
\<close>

theorem log_reservation_short:
  assumes "quiet s" "lg_size (k_log s) = int LOGSIZE" "\<not> lg_committing (k_log s)"
    and "lg_outstanding (k_log s) = 2" "lh_n (lg_lh (k_log s)) = 0"
  shows "\<exists>t. begin_op s = Ret () t \<and> lg_outstanding (k_log t) * int MAXOPBLOCKS \<le> int LOGSIZE
    \<and> (\<forall>i lh. lh_n lh = int LOGSIZE - 1 \<longrightarrow>
         log_write i (t\<lparr>k_log := (k_log t)\<lparr>lg_lh := lh\<rparr>\<rparr>) = Panic ''too big a transaction'')"
proof -
  let ?t = "s\<lparr>k_log := (k_log s)\<lparr>lg_outstanding := 3\<rparr>\<rparr>"
  have "begin_op s = Ret () ?t"
    using assms by (simp add: begin_op_def begin_op_loop_def size_defs)
  then show ?thesis using assms(2) by (simp add: log_write_def panic_def size_defs)
qed

text \<open>
  C3: the end of the last operation makes the transaction durable. When \<^verbatim>\<open>end_op\<close> is called
  by the only outstanding operation, it commits: every block has on disk the contents
  readers saw, the log is empty and no longer committing, and the callers waiting in
  \<^verbatim>\<open>begin_op\<close> are woken.
\<close>

theorem end_op_durable:
  assumes "txn_ready s st n bl" "0 < n" "lg_outstanding (k_log s) = 1" "\<not> lg_committing (k_log s)"
  shows "\<exists>t. end_op s = Ret () t \<and> (\<forall>b. b \<notin> log_region st n \<longrightarrow> k_disk t b = blk s b)
    \<and> lh_n (lg_lh (k_log t)) = 0 \<and> lg_outstanding (k_log t) = 0 \<and> \<not> lg_committing (k_log t)
    \<and> dirtyb t = {} \<and> (\<forall>p\<in>set (k_procs t). \<not> (p_state p = SLEEPING \<and> p_chan p = ChLog))"
proof -
  define s1 where "s1 = s\<lparr>k_log := (k_log s)\<lparr>lg_outstanding := 0, lg_committing := True\<rparr>\<rparr>"
  have q: "quiet s" using assms(1) by (simp add: txn_ready_def idle_def)
  have ready: "txn_ready s1 st n bl"
    using assms(1) unfolding txn_ready_def idle_def log_at_def by (simp add: s1_def) metis
  obtain u t where c: "commit s1 = Ret () t" and u: "advanced s1 u (commit_writes s1 st n bl) (dirtyb s1)"
    and t: "t = u\<lparr>k_log := (k_log s1)\<lparr>lg_lh := (lg_lh (k_log s1))\<lparr>lh_n := 0\<rparr>\<rparr>\<rparr>"
    using commit_ok [OF ready assms(2)] by blast
  have qt: "quiet t" using u by (simp add: t advanced_def)
  define v where "v = t\<lparr>k_log := (k_log t)\<lparr>lg_committing := False\<rparr>, k_procs := wakeup1_procs ChLog (k_procs t)\<rparr>"
  have "end_op s = Ret () v"
    using q qt assms(3,4) c by (simp add: end_op_def s1_def v_def wakeup_eq)
  moreover have "k_disk v b = blk s b" if "b \<notin> log_region st n" for b
    using u crash_after(2) [OF ready that] by (simp add: v_def t advanced_def) (simp add: s1_def)
  moreover have "dirtyb v = {}" using u by (simp add: v_def t advanced_def)
  moreover have "\<forall>p\<in>set (k_procs v). \<not> (p_state p = SLEEPING \<and> p_chan p = ChLog)"
    by (auto simp: v_def wakeup1_procs_def split: if_splits)
  ultimately show ?thesis by (auto simp: v_def t s1_def)
qed

section \<open>An example transaction\<close>

text \<open>A log of 30 blocks from block 2 on, one operation running, block 100 changed by it.\<close>

definition log_start :: kernel where
  "log_start = cache_start\<lparr>k_log := (k_log cache_start)\<lparr>lg_start := 2, lg_size := 30, lg_dev := 1,
     lg_outstanding := 1\<rparr>\<rparr>"

lemma log_start_ok:
  "bc_ok log_start" "quiet log_start" "log_inv log_start" "dirtyb log_start = {}" "busyb log_start = {}"
  "blk log_start = (\<lambda>_. replicate BSIZE 0)" "k_disk log_start = (\<lambda>_. replicate BSIZE 0)" "k_disksize log_start = 1000"
  "k_log log_start = \<lparr>lg_start = 2, lg_size = 30, lg_outstanding = 1, lg_committing = False, lg_dev = 1,
     lg_lh = \<lparr>lh_n = 0, lh_block = replicate LOGSIZE 0\<rparr>\<rparr>"
  "log_room log_start b \<longleftrightarrow> b < 1000"
  using cache_start_ok by (simp_all add: log_start_def log_inv_def boot_def log_room_def size_defs)

lemma updated_fields:
  assumes "updated s t b d"
  shows "k_log t = (k_log s)\<lparr>lg_lh := logged (lg_lh (k_log s)) b\<rparr>" "k_disk t = k_disk s"
    "k_disksize t = k_disksize s"
  using assms by (auto simp: updated_def)

lemma example_txn:
  "\<exists>s. txn_ready s 2 1 (100 # replicate 29 0) \<and> blk s 100 = replicate BSIZE 7 \<and> k_disk s = (\<lambda>_. replicate BSIZE 0)
    \<and> lg_outstanding (k_log s) = 1 \<and> \<not> lg_committing (k_log s)"
proof -
  have "log_room log_start 100" by (simp add: log_start_ok(10))
  then obtain t where t: "updated log_start t 100 (map (\<lambda>_. 7) (blk log_start 100))"
    using update_block [OF log_start_ok(1,3,2), of 100 "map (\<lambda>_. 7)"] by auto
  have "replicate LOGSIZE (0::uint) = 0 # replicate 29 0" by (simp add: size_defs flip: replicate_Suc)
  then have h: "logged \<lparr>lh_n = 0, lh_block = replicate LOGSIZE 0\<rparr> 100 = \<lparr>lh_n = 1, lh_block = 100 # replicate 29 0\<rparr>"
    by (simp add: logged_def log_slot_def)
  have l: "k_log t = \<lparr>lg_start = 2, lg_size = 30, lg_outstanding = 1, lg_committing = False, lg_dev = 1,
     lg_lh = \<lparr>lh_n = 1, lh_block = 100 # replicate 29 0\<rparr>\<rparr>" "k_disksize t = 1000" "k_disk t = (\<lambda>_. replicate BSIZE 0)"
    using updated_fields [OF t] by (simp_all add: log_start_ok h)
  have "bc_ok t" "quiet t" "busyb t = {}" "dirtyb t = {100}" "blk t 100 = replicate BSIZE 7"
    using t by (simp_all add: updated_def log_start_ok map_replicate_const)
  then show ?thesis using l
    by (intro exI [of _ t]) (simp add: txn_ready_def idle_def log_at_def log_fits_def lb_def size_defs)
qed

theorem commit_crash_safe_witness:
  "\<exists>s. blk s 100 = replicate BSIZE 7 \<and> k_disk s 100 = replicate BSIZE 0 \<and>
    (\<exists>W t. commit s = Ret () t \<and> k_writes t = k_writes s @ W \<and> k_disk t = apply_writes W (k_disk s)
    \<and> (\<forall>m r. m \<le> length W \<and> rebooted (apply_writes (take m W) (k_disk s)) (k_disksize s) 2 r \<longrightarrow>
        (\<exists>u. recover_from_log r = Ret () u
          \<and> (\<forall>b. b \<notin> log_region 2 1 \<longrightarrow> k_disk u b = (if m \<le> 1 then k_disk s b else blk s b)))))"
proof -
  obtain s where s: "txn_ready s 2 1 (100 # replicate 29 0)" "blk s 100 = replicate BSIZE 7"
    "k_disk s = (\<lambda>_. replicate BSIZE 0)" using example_txn by blast
  have "get32 (k_disk s 2) 0 = 0" by (simp add: s(3) get32_def size_defs)
  note c = commit_crash_safe [OF s(1) zero_less_one this]
  have "k_disk s 100 = replicate BSIZE 0" by (simp add: s(3))
  then show ?thesis using s(2) c by blast
qed

theorem log_write_records_witness:
  "\<exists>s i t. log_write i s = Ret () t \<and> log_inv t \<and> dirtyb t = {100} \<and> lh_n (lg_lh (k_log t)) = 1"
proof -
  obtain i bs where r: "bc_ok (log_start\<lparr>k_bcache := bs\<rparr>)" "hold (log_start\<lparr>k_bcache := bs\<rparr>) i 100"
    "dirtyb (log_start\<lparr>k_bcache := bs\<rparr>) = {}"
    using bread_store [OF log_start_ok(1,2), of 100] by (auto simp: log_start_ok size_defs)
  let ?s = "log_start\<lparr>k_bcache := bs\<rparr>"
  have "log_inv ?s" "quiet ?s" using log_start_ok(2,9) r(3) by (simp_all add: log_inv_def)
  from log_write_records [OF r(1) this r(2)] show ?thesis using r(3) by (auto simp: log_start_ok size_defs)
qed

theorem log_reservation_short_witness:
  "let s = boot\<lparr>k_log := (k_log boot)\<lparr>lg_size := 30, lg_outstanding := 2\<rparr>\<rparr> in
   \<exists>t. begin_op s = Ret () t \<and> lg_outstanding (k_log t) * int MAXOPBLOCKS \<le> int LOGSIZE
    \<and> (\<forall>i lh. lh_n lh = int LOGSIZE - 1 \<longrightarrow>
         log_write i (t\<lparr>k_log := (k_log t)\<lparr>lg_lh := lh\<rparr>\<rparr>) = Panic ''too big a transaction'')"
  unfolding Let_def by (rule log_reservation_short) (simp_all add: size_defs, simp_all add: boot_def)

theorem end_op_durable_witness:
  "\<exists>s t. end_op s = Ret () t \<and> k_disk s 100 = replicate BSIZE 0 \<and> k_disk t 100 = replicate BSIZE 7"
proof -
  obtain s where s: "txn_ready s 2 1 (100 # replicate 29 0)" "blk s 100 = replicate BSIZE 7"
    "k_disk s = (\<lambda>_. replicate BSIZE 0)" "lg_outstanding (k_log s) = 1" "\<not> lg_committing (k_log s)"
    using example_txn by blast
  have "(100::uint) \<notin> log_region 2 1" by (auto simp: log_region_def lb_def)
  then show ?thesis using end_op_durable [OF s(1) _ s(4,5)] s(2,3) by (auto 0 3)
qed

end
