(* ===== verification/Inode.thy ===== *)
theory Inode
  imports Log
begin

text \<open>
  The lower half of the file system (\<^verbatim>\<open>fs.c\<close>): the allocation bitmap, on-disk inodes, the
  inode cache and the map from a file's blocks to disk blocks. Inode pointers are indices
  into the inode cache.
\<close>

unbundle bit_operations_syntax

section \<open>Layout (fs.h, stat.h)\<close>

definition NINDIRECT :: nat where "NINDIRECT = BSIZE div 4"
definition MAXFILE :: nat where "MAXFILE = NDIRECT + NINDIRECT"
definition IPB :: uint where "IPB = of_nat (BSIZE div 64)"
definition IBLOCK :: "uint \<Rightarrow> superblock \<Rightarrow> uint" where "IBLOCK i sb = i div IPB + sb_inodestart sb"
definition BPB :: uint where "BPB = of_nat (BSIZE * 8)"
definition BBLOCK :: "uint \<Rightarrow> superblock \<Rightarrow> uint" where "BBLOCK b sb = b div BPB + sb_bmapstart sb"
definition ROOTINO :: uint where "ROOTINO = 1"
definition ROOTDEV :: uint where "ROOTDEV = 1"
definition T_DIR :: ushort where "T_DIR = 1"
definition T_FILE :: ushort where "T_FILE = 2"
definition T_DEV :: ushort where "T_DEV = 3"

lemmas fs_defs = NINDIRECT_def MAXFILE_def IPB_def IBLOCK_def BPB_def BBLOCK_def ROOTINO_def ROOTDEV_def
  T_DIR_def T_FILE_def T_DEV_def

record dinode =
  di_type :: ushort
  di_major :: ushort
  di_minor :: ushort
  di_nlink :: ushort
  di_size :: uint
  di_addrs :: "uint list"

record stat =
  st_type :: ushort
  st_dev :: uint
  st_ino :: uint
  st_nlink :: ushort
  st_size :: uint

text \<open>A \<^verbatim>\<open>struct dinode\<close> of 64 bytes at an offset of a block.\<close>

definition get_dinode :: "block \<Rightarrow> nat \<Rightarrow> dinode" where
  "get_dinode d off = \<lparr>di_type = get16 d off, di_major = get16 d (off + 2), di_minor = get16 d (off + 4),
     di_nlink = get16 d (off + 6), di_size = get32 d (off + 8), di_addrs = get32s d (off + 12) (NDIRECT + 1)\<rparr>"

definition put_dinode :: "block \<Rightarrow> nat \<Rightarrow> dinode \<Rightarrow> block" where
  "put_dinode d off di = put32s (put32 (put16 (put16 (put16 (put16 d off (di_type di))
     (off + 2) (di_major di)) (off + 4) (di_minor di)) (off + 6) (di_nlink di)) (off + 8) (di_size di))
     (off + 12) (di_addrs di)"

definition dinode_off :: "uint \<Rightarrow> nat" where
  "dinode_off inum = 64 * unat (inum mod IPB)"

section \<open>Blocks\<close>

abbreviation upd_inode :: "nat \<Rightarrow> (inode \<Rightarrow> inode) \<Rightarrow> unit kern" where
  "upd_inode i f \<equiv> modify (\<lambda>s. s\<lparr>k_icache := upd_at i f (k_icache s)\<rparr>)"

abbreviation get_inode :: "nat \<Rightarrow> inode kern" where
  "get_inode i \<equiv> gets (\<lambda>s. k_icache s ! i)"

definition bzero :: "uint \<Rightarrow> uint \<Rightarrow> unit kern" where
  "bzero dev bno = bnd (bread dev bno) (\<lambda>i. andthen (set_data i (replicate BSIZE 0))
     (andthen (log_write i) (brelse i)))"

text \<open>Bit \<open>bi\<close> of a block of the free map.\<close>

definition bmask :: "nat \<Rightarrow> uchar" where
  "bmask bi = push_bit (bi mod 8) 1"

definition bit_free :: "block \<Rightarrow> nat \<Rightarrow> bool" where
  "bit_free d bi \<longleftrightarrow> (d ! (bi div 8)) AND bmask bi = 0"

definition mark_used :: "nat \<Rightarrow> block \<Rightarrow> block" where
  "mark_used bi d = d[bi div 8 := d ! (bi div 8) OR bmask bi]"

definition mark_free :: "nat \<Rightarrow> block \<Rightarrow> block" where
  "mark_free bi d = d[bi div 8 := d ! (bi div 8) AND NOT (bmask bi)]"

text \<open>
  One round of the outer loop of \<^verbatim>\<open>balloc\<close>, with the inner loop as a search. The C variables are of
  type \<^verbatim>\<open>int\<close>; the words here agree with them on disks of up to \<^verbatim>\<open>2^31\<close> blocks.
\<close>

definition balloc_round :: "uint \<Rightarrow> uint \<Rightarrow> (uint + uint) kern" where
  "balloc_round dev b = bnd (gets k_sb) (\<lambda>sb.
     if \<not> b < sb_size sb then panic ''balloc: out of blocks''
     else bnd (bread dev (BBLOCK b sb)) (\<lambda>i. bnd (get_data i) (\<lambda>d.
       case List.find (bit_free d) (takeWhile (\<lambda>bi. b + of_nat bi < sb_size sb) [0..<unat BPB]) of
         Some bi \<Rightarrow> andthen (andthen (set_data i (mark_used bi d)) (andthen (log_write i) (brelse i)))
           (andthen (bzero dev (b + of_nat bi)) (ret (Inr (b + of_nat bi))))
       | None \<Rightarrow> andthen (brelse i) (ret (Inl (b + BPB))))))"

definition balloc :: "uint \<Rightarrow> uint kern" where
  "balloc dev = loop (2 ^ 20) (balloc_round dev) 0"

definition bfree :: "uint \<Rightarrow> uint \<Rightarrow> unit kern" where
  "bfree dev b = bnd (readsb dev) (\<lambda>sb. andthen (modify (\<lambda>s. s\<lparr>k_sb := sb\<rparr>))
     (bnd (bread dev (BBLOCK b sb)) (\<lambda>i. bnd (get_data i) (\<lambda>d.
       let bi = unat (b mod BPB) in
       if bit_free d bi then panic ''freeing free block''
       else andthen (set_data i (mark_free bi d)) (andthen (log_write i) (brelse i))))))"

section \<open>Inodes\<close>

definition iinit :: "uint \<Rightarrow> unit kern" where
  "iinit dev = andthen (initlock IcacheLk ''icache'') (bnd (readsb dev) (\<lambda>sb. modify (\<lambda>s. s\<lparr>k_sb := sb\<rparr>)))"

definition iget :: "uint \<Rightarrow> uint \<Rightarrow> nat kern" where
  "iget dev inum = andthen (acquire IcacheLk) (bnd (gets k_icache) (\<lambda>ips.
     case find_idx (\<lambda>ip. i_ref ip > 0 \<and> i_dev ip = dev \<and> i_inum ip = inum) ips of
       Some i \<Rightarrow> andthen (upd_inode i (\<lambda>ip. ip\<lparr>i_ref := i_ref ip + 1\<rparr>)) (andthen (release IcacheLk) (ret i))
     | None \<Rightarrow> (case find_idx (\<lambda>ip. i_ref ip = 0) ips of
         None \<Rightarrow> panic ''iget: no inodes''
       | Some i \<Rightarrow> andthen (upd_inode i (\<lambda>ip. ip\<lparr>i_dev := dev, i_inum := inum, i_ref := 1,
             i_busy := False, i_valid := False\<rparr>)) (andthen (release IcacheLk) (ret i)))))"

definition ialloc_round :: "uint \<Rightarrow> ushort \<Rightarrow> uint \<Rightarrow> (uint + nat) kern" where
  "ialloc_round dev ty inum = bnd (gets k_sb) (\<lambda>sb.
     if \<not> inum < sb_ninodes sb then panic ''ialloc: no inodes''
     else bnd (bread dev (IBLOCK inum sb)) (\<lambda>i. bnd (get_data i) (\<lambda>d.
       if get16 d (dinode_off inum) = 0 then
         andthen (set_data i (put_dinode d (dinode_off inum) \<lparr>di_type = ty, di_major = 0, di_minor = 0,
             di_nlink = 0, di_size = 0, di_addrs = replicate (NDIRECT + 1) 0\<rparr>))
         (andthen (log_write i) (andthen (brelse i) (bnd (iget dev inum) (\<lambda>ip. ret (Inr ip)))))
       else andthen (brelse i) (ret (Inl (inum + 1))))))"

definition ialloc :: "uint \<Rightarrow> ushort \<Rightarrow> nat kern" where
  "ialloc dev ty = bnd (gets k_sb) (\<lambda>sb. loop (Suc (unat (sb_ninodes sb))) (ialloc_round dev ty) 1)"

definition to_dinode :: "inode \<Rightarrow> dinode" where
  "to_dinode ip = \<lparr>di_type = i_type ip, di_major = i_major ip, di_minor = i_minor ip, di_nlink = i_nlink ip,
     di_size = i_size ip, di_addrs = i_addrs ip\<rparr>"

definition from_dinode :: "dinode \<Rightarrow> inode \<Rightarrow> inode" where
  "from_dinode di ip = ip\<lparr>i_type := di_type di, i_major := di_major di, i_minor := di_minor di,
     i_nlink := di_nlink di, i_size := di_size di, i_addrs := di_addrs di\<rparr>"

definition iupdate :: "nat \<Rightarrow> unit kern" where
  "iupdate i = bnd (get_inode i) (\<lambda>ip. bnd (gets k_sb) (\<lambda>sb.
     bnd (bread (i_dev ip) (IBLOCK (i_inum ip) sb)) (\<lambda>bp. bnd (get_data bp) (\<lambda>d.
     andthen (set_data bp (put_dinode d (dinode_off (i_inum ip)) (to_dinode ip)))
     (andthen (log_write bp) (brelse bp))))))"

definition idup :: "nat \<Rightarrow> nat kern" where
  "idup i = andthen (acquire IcacheLk) (andthen (upd_inode i (\<lambda>ip. ip\<lparr>i_ref := i_ref ip + 1\<rparr>))
     (andthen (release IcacheLk) (ret i)))"

definition ilock_load :: "nat \<Rightarrow> unit kern" where
  "ilock_load i = bnd (get_inode i) (\<lambda>ip. bnd (gets k_sb) (\<lambda>sb.
     bnd (bread (i_dev ip) (IBLOCK (i_inum ip) sb)) (\<lambda>bp. bnd (get_data bp) (\<lambda>d.
     let di = get_dinode d (dinode_off (i_inum ip)) in
     andthen (upd_inode i (from_dinode di)) (andthen (brelse bp)
     (andthen (upd_inode i (\<lambda>ip. ip\<lparr>i_valid := True\<rparr>))
     (if di_type di = 0 then panic ''ilock: no type'' else ret ())))))))"

text \<open>Inode pointers are indices, so the tests for a null pointer have no counterpart here.\<close>

definition ilock :: "nat \<Rightarrow> unit kern" where
  "ilock i = bnd (get_inode i) (\<lambda>ip.
     if i_ref ip < 1 then panic ''ilock''
     else andthen (acquire IcacheLk) (bnd (get_inode i) (\<lambda>ip.
       if i_busy ip then block_on (ChInode i) IcacheLk
       else andthen (upd_inode i (\<lambda>ip. ip\<lparr>i_busy := True\<rparr>)) (andthen (release IcacheLk)
         (bnd (get_inode i) (\<lambda>ip. if i_valid ip then ret () else ilock_load i))))))"

definition iunlock :: "nat \<Rightarrow> unit kern" where
  "iunlock i = bnd (get_inode i) (\<lambda>ip.
     if \<not> i_busy ip \<or> i_ref ip < 1 then panic ''iunlock''
     else andthen (acquire IcacheLk) (andthen (upd_inode i (\<lambda>ip. ip\<lparr>i_busy := False\<rparr>))
       (andthen (wakeup (ChInode i)) (release IcacheLk))))"

section \<open>Inode content\<close>

definition bmap :: "nat \<Rightarrow> uint \<Rightarrow> uint kern" where
  "bmap i bn = bnd (get_inode i) (\<lambda>ip.
     if unat bn < NDIRECT then
       let addr = i_addrs ip ! unat bn in
       if addr = 0 then bnd (balloc (i_dev ip)) (\<lambda>addr.
         andthen (upd_inode i (\<lambda>ip. ip\<lparr>i_addrs := (i_addrs ip)[unat bn := addr]\<rparr>)) (ret addr))
       else ret addr
     else let k = unat (bn - of_nat NDIRECT) in
     if k < NINDIRECT then
       bnd (let addr = i_addrs ip ! NDIRECT in
         if addr = 0 then bnd (balloc (i_dev ip)) (\<lambda>addr.
           andthen (upd_inode i (\<lambda>ip. ip\<lparr>i_addrs := (i_addrs ip)[NDIRECT := addr]\<rparr>)) (ret addr))
         else ret addr) (\<lambda>addr.
       bnd (bread (i_dev ip) addr) (\<lambda>bp. bnd (get_data bp) (\<lambda>d.
       if get32 d (4 * k) = 0 then bnd (balloc (i_dev ip)) (\<lambda>addr.
         andthen (upd_buf bp (\<lambda>b. b\<lparr>b_data := put32 (b_data b) (4 * k) addr\<rparr>))
         (andthen (log_write bp) (andthen (brelse bp) (ret addr))))
       else andthen (brelse bp) (ret (get32 d (4 * k))))))
     else panic ''bmap: out of range'')"

definition itrunc :: "nat \<Rightarrow> unit kern" where
  "itrunc i = andthen
     (for_each [0..<NDIRECT] (\<lambda>k. bnd (get_inode i) (\<lambda>ip.
        if i_addrs ip ! k \<noteq> 0 then andthen (bfree (i_dev ip) (i_addrs ip ! k))
          (upd_inode i (\<lambda>ip. ip\<lparr>i_addrs := (i_addrs ip)[k := 0]\<rparr>))
        else ret ())))
     (andthen (bnd (get_inode i) (\<lambda>ip.
        if i_addrs ip ! NDIRECT \<noteq> 0 then
          bnd (bread (i_dev ip) (i_addrs ip ! NDIRECT)) (\<lambda>bp.
          andthen (for_each [0..<NINDIRECT] (\<lambda>j. bnd (get_data bp) (\<lambda>d.
            if get32 d (4 * j) \<noteq> 0 then bfree (i_dev ip) (get32 d (4 * j)) else ret ())))
          (andthen (brelse bp) (andthen (bfree (i_dev ip) (i_addrs ip ! NDIRECT))
          (upd_inode i (\<lambda>ip. ip\<lparr>i_addrs := (i_addrs ip)[NDIRECT := 0]\<rparr>)))))
        else ret ()))
     (andthen (upd_inode i (\<lambda>ip. ip\<lparr>i_size := 0\<rparr>)) (iupdate i)))"

definition iput :: "nat \<Rightarrow> unit kern" where
  "iput i = andthen (acquire IcacheLk) (andthen (bnd (get_inode i) (\<lambda>ip.
     if i_ref ip = 1 \<and> i_valid ip \<and> i_nlink ip = 0 then
       if i_busy ip then panic ''iput busy''
       else andthen (upd_inode i (\<lambda>ip. ip\<lparr>i_busy := True\<rparr>))
         (andthen (release IcacheLk) (andthen (itrunc i)
         (andthen (upd_inode i (\<lambda>ip. ip\<lparr>i_type := 0\<rparr>)) (andthen (iupdate i)
         (andthen (acquire IcacheLk) (andthen (upd_inode i (\<lambda>ip. ip\<lparr>i_busy := False, i_valid := False\<rparr>))
         (wakeup (ChInode i))))))))
     else ret ()))
     (andthen (upd_inode i (\<lambda>ip. ip\<lparr>i_ref := i_ref ip - 1\<rparr>)) (release IcacheLk)))"

definition iunlockput :: "nat \<Rightarrow> unit kern" where
  "iunlockput i = andthen (iunlock i) (iput i)"

definition stati :: "nat \<Rightarrow> stat kern" where
  "stati i = bnd (get_inode i) (\<lambda>ip. ret \<lparr>st_type = i_type ip, st_dev = i_dev ip, st_ino = i_inum ip,
     st_nlink = i_nlink ip, st_size = i_size ip\<rparr>)"

section \<open>Blocks inside a transaction\<close>

definition txn :: "kernel \<Rightarrow> bool" where
  "txn s \<longleftrightarrow> bc_ok s \<and> log_inv s \<and> quiet s \<and> 1 \<le> lg_outstanding (k_log s) \<and> lg_size (k_log s) \<le> int LOGSIZE"

text \<open>\<open>room s k\<close>: \<open>k\<close> more blocks fit in the log and in the cache.\<close>

definition room :: "kernel \<Rightarrow> nat \<Rightarrow> bool" where
  "room s k \<longleftrightarrow> lh_n (lg_lh (k_log s)) + int k \<le> lg_size (k_log s) - 1 \<and> card (dirtyb s \<union> busyb s) + k \<le> NBUF"

text \<open>\<open>viewed s t\<close>: at most the order of the buffers and the waiting processes differ.\<close>

definition viewed :: "kernel \<Rightarrow> kernel \<Rightarrow> bool" where
  "viewed s t \<longleftrightarrow> bc_ok t \<and> blk t = blk s \<and> dirtyb t = dirtyb s \<and> busyb t = busyb s
     \<and> (\<forall>j m. hold s j m \<longrightarrow> hold t j m) \<and> (\<exists>bs ps. t = s\<lparr>k_bcache := bs, k_procs := ps\<rparr>)"

lemma txn_viewed: "txn s \<Longrightarrow> viewed s t \<Longrightarrow> txn t"
  by (auto simp: txn_def viewed_def log_inv_def)

lemma room_viewed: "viewed s t \<Longrightarrow> room t k = room s k"
  by (auto simp: room_def viewed_def)

lemma viewed_refl: "txn s \<Longrightarrow> viewed s s"
proof -
  assume "txn s"
  moreover have "s = s\<lparr>k_bcache := k_bcache s, k_procs := k_procs s\<rparr>" by simp
  ultimately show ?thesis unfolding viewed_def txn_def by blast
qed

lemma viewed_trans: "viewed s t \<Longrightarrow> viewed t u \<Longrightarrow> viewed s u"
  unfolding viewed_def by fastforce

lemma txn_updated: "txn s \<Longrightarrow> updated s t b d \<Longrightarrow> txn t"
  by (auto simp: txn_def updated_def)

lemma logged_count: "lh_n (logged lh b) \<le> lh_n lh + 1"
  by (simp add: logged_def Let_def)

lemma room_updated: "updated s t b d \<Longrightarrow> room s (Suc k) \<Longrightarrow> room t k"
proof -
  assume u: "updated s t b d" and r: "room s (Suc k)"
  have "dirtyb t \<union> busyb t = insert b (dirtyb s \<union> busyb s)" using u by (auto simp: updated_def)
  then have "card (dirtyb t \<union> busyb t) \<le> Suc (card (dirtyb s \<union> busyb s))" by (simp add: card_insert_if)
  moreover have "lh_n (lg_lh (k_log t)) \<le> lh_n (lg_lh (k_log s)) + 1" "lg_size (k_log t) = lg_size (k_log s)"
    using updated_fields(1) [OF u] logged_count by simp_all
  ultimately show ?thesis using r by (simp add: room_def)
qed

lemma log_roomI: "txn s \<Longrightarrow> room s (Suc k) \<Longrightarrow> b < k_disksize s \<Longrightarrow> b \<notin> busyb s \<Longrightarrow> log_room s b"
  by (auto simp: log_room_def room_def txn_def)

text \<open>What \<^verbatim>\<open>bread\<close> gives and the two ways to go on: release the buffer, or change and log it.\<close>

lemma open_block:
  assumes "txn s" "b < k_disksize s" "b \<notin> busyb s" "room s (Suc k)"
  shows "\<exists>i bs. bread 1 b s = Ret i (s\<lparr>k_bcache := bs\<rparr>) \<and> b_data (bs ! i) = blk s b
    \<and> (\<forall>ic. \<exists>bs' ps. brelse i (s\<lparr>k_bcache := bs, k_icache := ic\<rparr>)
          = Ret () (s\<lparr>k_bcache := bs', k_procs := ps, k_icache := ic\<rparr>)
        \<and> viewed s (s\<lparr>k_bcache := bs', k_procs := ps\<rparr>))
    \<and> (\<forall>d. length d = BSIZE \<longrightarrow> (\<exists>t. andthen (set_data i d) (andthen (log_write i) (brelse i)) (s\<lparr>k_bcache := bs\<rparr>)
          = Ret () t \<and> updated s t b d))"
proof -
  have s: "bc_ok s" "log_inv s" "quiet s" "1 \<le> lg_outstanding (k_log s)" using assms(1) by (auto simp: txn_def)
  have l: "lh_n (lg_lh (k_log s)) < lg_size (k_log s) - 1" "lh_n (lg_lh (k_log s)) < int LOGSIZE"
    "b \<in> dirtyb s \<or> card (dirtyb s \<union> busyb s) < NBUF" using assms(1,4) by (auto simp: room_def txn_def)
  obtain i bs where r: "bread 1 b s = Ret i (s\<lparr>k_bcache := bs\<rparr>)" "bc_ok (s\<lparr>k_bcache := bs\<rparr>)"
    "hold (s\<lparr>k_bcache := bs\<rparr>) i b" "\<forall>j m. hold s j m \<longrightarrow> hold (s\<lparr>k_bcache := bs\<rparr>) j m"
    "blk (s\<lparr>k_bcache := bs\<rparr>) = blk s" "dirtyb (s\<lparr>k_bcache := bs\<rparr>) = dirtyb s"
    "busyb (s\<lparr>k_bcache := bs\<rparr>) = insert b (busyb s)" "b \<notin> dirtyb s \<longrightarrow> blk s b = k_disk s b"
    using bread_store [OF s(1,3) assms(2,3) l(3)] by blast
  define s1 where "s1 = s\<lparr>k_bcache := bs\<rparr>"
  note r' = r(2-7) [folded s1_def]
  have keep: "m \<noteq> b" if "hold s j m" for j m
    using that assms(3) by (auto simp: hold_def in_busyb)
  have "\<exists>bs' ps. brelse i (s\<lparr>k_bcache := bs, k_icache := ic\<rparr>)
          = Ret () (s\<lparr>k_bcache := bs', k_procs := ps, k_icache := ic\<rparr>)
        \<and> viewed s (s\<lparr>k_bcache := bs', k_procs := ps\<rparr>)" for ic
  proof -
    let ?s = "s1\<lparr>k_icache := ic\<rparr>"
    have "bc_ok ?s" "quiet ?s" "hold ?s i b" "b \<in> dirtyb ?s \<or> blk ?s b = k_disk ?s b"
      using r'(1,2,4,5) r(8) s(3) by (simp_all, simp_all add: s1_def) blast
    from brelse_store [OF this] obtain bs' ps where b: "brelse i ?s = Ret () (?s\<lparr>k_bcache := bs', k_procs := ps\<rparr>)"
      and t: "let t = ?s\<lparr>k_bcache := bs', k_procs := ps\<rparr> in bc_ok t \<and> (\<forall>j m. m \<noteq> b \<longrightarrow> hold t j m = hold ?s j m)
        \<and> blk t = blk ?s \<and> dirtyb t = dirtyb ?s \<and> busyb t = busyb ?s - {b}" by blast
    let ?t = "s\<lparr>k_bcache := bs', k_procs := ps\<rparr>"
    have e: "?s\<lparr>k_bcache := bs', k_procs := ps\<rparr> = ?t\<lparr>k_icache := ic\<rparr>" by (simp add: s1_def)
    have "bc_ok ?t" "blk ?t = blk s" "dirtyb ?t = dirtyb s" "busyb ?t = busyb s"
      "\<forall>j m. m \<noteq> b \<longrightarrow> hold ?t j m = hold s1 j m"
      using t r'(4-6) assms(3) unfolding e Let_def by simp_all
    then have "viewed s ?t" using r'(3) keep unfolding viewed_def by metis
    then show ?thesis using b unfolding e by (metis s1_def)
  qed
  moreover have "\<exists>t. andthen (set_data i d) (andthen (log_write i) (brelse i)) s1 = Ret () t \<and> updated s t b d"
    if len: "length d = BSIZE" for d
  proof -
    have s1: "log_inv s1" "quiet s1" "k_log s1 = k_log s" using s r'(5) by (simp_all add: s1_def log_inv_def)
    obtain t where u: "andthen (set_data i d) (andthen (log_write i) (brelse i)) s1 = Ret () t"
      and t: "bc_ok t" "log_inv t" "quiet t" "blk t = (blk s1)(b := d)" "busyb t = busyb s1 - {b}"
        "dirtyb t = insert b (dirtyb s1)" "\<forall>j m. m \<noteq> b \<longrightarrow> hold t j m = hold s1 j m"
        "\<exists>bs ps. t = s1\<lparr>k_bcache := bs, k_procs := ps, k_log := (k_log s)\<lparr>lg_lh := logged (lg_lh (k_log s)) b\<rparr>\<rparr>"
      using update_held [OF r'(1) s1(1,2) r'(2) len, unfolded s1(3), OF s(4) l(1,2)] by blast
    have "\<exists>bs ps. t = s\<lparr>k_bcache := bs, k_procs := ps, k_log := (k_log s)\<lparr>lg_lh := logged (lg_lh (k_log s)) b\<rparr>\<rparr>"
      using t(8) by (simp add: s1_def)
    moreover have "\<forall>j m. hold s j m \<longrightarrow> hold t j m" using t(7) r'(3) keep by metis
    moreover have "blk t = (blk s)(b := d)" "busyb t = busyb s" "dirtyb t = insert b (dirtyb s)"
      using t(4-6) r'(4-6) assms(3) by auto
    ultimately show ?thesis using u t(1-3) unfolding updated_def by blast
  qed
  moreover have "b_data (bs ! i) = blk s b" using hold_blk [OF r'(1,2)] r'(4) by (simp add: s1_def)
  ultimately show ?thesis using r(1) unfolding s1_def by blast
qed

section \<open>The free map\<close>

lemma bit_free_bit: "bit_free d bi \<longleftrightarrow> \<not> bit (d ! (bi div 8)) (bi mod 8)"
proof -
  have "(x AND push_bit n 1 = 0) = (\<not> bit x n)" if "n < 8" for x :: uchar and n
  proof
    assume "x AND push_bit n 1 = 0"
    then have "\<not> bit (x AND push_bit n 1) n" by simp
    then show "\<not> bit x n" using that by (simp add: bit_simps)
  next
    assume "\<not> bit x n"
    then show "x AND push_bit n 1 = 0" by (intro bit_word_eqI) (auto simp: bit_simps)
  qed
  then show ?thesis by (simp add: bit_free_def bmask_def)
qed

lemma bit_free_marks:
  assumes "bi div 8 < length d"
  shows "bit_free (mark_used bi d) bj \<longleftrightarrow> bj \<noteq> bi \<and> bit_free d bj"
    and "bit_free (mark_free bi d) bj \<longleftrightarrow> bj = bi \<or> bit_free d bj"
proof -
  have e: "bi = bj \<longleftrightarrow> bi div 8 = bj div 8 \<and> bi mod 8 = bj mod 8" by (metis div_mult_mod_eq)
  show "bit_free (mark_used bi d) bj \<longleftrightarrow> bj \<noteq> bi \<and> bit_free d bj"
    using assms e by (auto simp: bit_free_bit mark_used_def bmask_def bit_simps nth_list_update)
  show "bit_free (mark_free bi d) bj \<longleftrightarrow> bj = bi \<or> bit_free d bj"
    using assms e by (auto simp: bit_free_bit mark_free_def bmask_def bit_simps nth_list_update)
qed

lemma length_marks [simp]: "length (mark_used bi d) = length d" "length (mark_free bi d) = length d"
  by (simp_all add: mark_used_def mark_free_def)

definition used :: "kernel \<Rightarrow> uint \<Rightarrow> bool" where
  "used s b \<longleftrightarrow> \<not> bit_free (blk s (BBLOCK b (k_sb s))) (unat (b mod BPB))"

text \<open>Block \<open>bi\<close> of the \<open>k\<close>th group of BPB blocks.\<close>

definition bno :: "nat \<Rightarrow> nat \<Rightarrow> uint" where
  "bno k bi = of_nat (4096 * k + bi)"

lemma unat_bno: "k < 2 ^ 20 \<Longrightarrow> bi < 4096 \<Longrightarrow> unat (bno k bi) = 4096 * k + bi"
  unfolding bno_def unat_of_nat by (simp add: take_bit_nat_eq_self)

lemma unat_BPB [simp]: "unat BPB = 4096"
  by (simp add: BPB_def size_defs)

lemma bno_parts:
  assumes "k < 2 ^ 20" "bi < 4096"
  shows "BBLOCK (bno k bi) sb = of_nat k + sb_bmapstart sb" "unat (bno k bi mod BPB) = bi"
    "bno k 0 + of_nat bi = bno k bi"
proof -
  have "unat (bno k bi div BPB) = k" using assms by (simp add: unat_div_distrib unat_bno)
  then show "BBLOCK (bno k bi) sb = of_nat k + sb_bmapstart sb" unfolding BBLOCK_def by (metis of_nat_unat ucast_id)
  show "unat (bno k bi mod BPB) = bi" using assms by (simp add: unat_mod_distrib unat_bno)
qed (simp_all add: bno_def BPB_def size_defs algebra_simps)

lemma bno_next: "bno k 0 + BPB = bno (Suc k) 0"
  by (simp add: bno_def BPB_def size_defs algebra_simps)

lemma bno_cases:
  obtains k bi where "b = bno k bi" "k < 2 ^ 20" "bi < 4096"
proof
  show "b = bno (unat b div 4096) (unat b mod 4096)" by (simp add: bno_def)
  show "unat b div 4096 < 2 ^ 20" 
    using unsigned_less [of b, where ?'a = nat] by (simp add: less_mult_imp_div_less)
qed simp

lemma takeWhile_upt:
  assumes "\<And>i j. P j \<Longrightarrow> i \<le> j \<Longrightarrow> P i"
  shows "set (takeWhile P [0..<n]) = {i. i < n \<and> P i}"
proof (induction n)
  case (Suc n)
  show ?case
  proof (cases "\<forall>i<n. P i")
    case True
    then have "takeWhile P [0..<n] = [0..<n]" by (simp add: takeWhile_eq_all_conv)
    then show ?thesis using True by (auto simp: takeWhile_append less_Suc_eq)
  next
    case False
    then have "takeWhile P ([0..<n] @ [n]) = takeWhile P [0..<n]" by (auto intro: takeWhile_append1)
    moreover have "\<not> P n" using False assms less_imp_le by blast
    ultimately show ?thesis using Suc by (auto simp: less_Suc_eq)
  qed
qed simp

lemma find_in_group:
  assumes "k < 2 ^ 20"
  shows "case List.find P (takeWhile (\<lambda>bi. bno k 0 + of_nat bi < sz) [0..<unat BPB]) of
      Some bi \<Rightarrow> bi < 4096 \<and> bno k bi < sz \<and> P bi
    | None \<Rightarrow> \<forall>bi<4096. bno k bi < sz \<longrightarrow> \<not> P bi"
proof -
  have "takeWhile (\<lambda>bi. bno k 0 + of_nat bi < sz) [0..<unat BPB] = takeWhile (\<lambda>bi. 4096 * k + bi < unat sz) [0..<4096]"
    using assms by (intro takeWhile_cong) (simp_all add: bno_parts word_less_nat_alt unat_bno)
  moreover have "set (takeWhile (\<lambda>bi. 4096 * k + bi < unat sz) [0..<4096]) = {i. i < 4096 \<and> 4096 * k + i < unat sz}"
    by (rule takeWhile_upt) auto
  ultimately show ?thesis using assms
    by (auto split: option.split simp: find_None_iff find_Some_iff word_less_nat_alt unat_bno dest!: nth_mem)
qed

text \<open>The free map lies inside the file system, is marked used itself, and no free block is locked.\<close>

definition map_ok :: "kernel \<Rightarrow> bool" where
  "map_ok s \<longleftrightarrow> sb_size (k_sb s) \<le> k_disksize s
     \<and> (\<forall>b < sb_size (k_sb s). BBLOCK b (k_sb s) < sb_size (k_sb s) \<and> used s (BBLOCK b (k_sb s)) \<and> BBLOCK b (k_sb s) \<notin> busyb s)
     \<and> (\<forall>b < sb_size (k_sb s). \<not> used s b \<longrightarrow> b \<notin> busyb s)"

lemma viewed_fields:
  assumes "viewed s t"
  shows "blk t = blk s" "busyb t = busyb s" "dirtyb t = dirtyb s" "k_sb t = k_sb s" "k_disksize t = k_disksize s"
    "k_icache t = k_icache s" "k_log t = k_log s" "used t = used s"
  using assms by (auto simp: viewed_def used_def fun_eq_iff)

lemma updated_more:
  assumes "updated s t b d"
  shows "blk t = (blk s)(b := d)" "busyb t = busyb s" "dirtyb t = insert b (dirtyb s)" "k_sb t = k_sb s"
    "k_disksize t = k_disksize s" "k_icache t = k_icache s"
  using assms by (auto simp: updated_def)

lemma bzero_ok:
  assumes "txn s" "b < k_disksize s" "b \<notin> busyb s" "room s (Suc k)"
  shows "\<exists>t. bzero 1 b s = Ret () t \<and> updated s t b (replicate BSIZE 0)"
proof -
  obtain i bs where "bread 1 b s = Ret i (s\<lparr>k_bcache := bs\<rparr>)"
    "\<exists>t. andthen (set_data i (replicate BSIZE 0)) (andthen (log_write i) (brelse i)) (s\<lparr>k_bcache := bs\<rparr>)
        = Ret () t \<and> updated s t b (replicate BSIZE 0)"
    using open_block [OF assms] length_replicate [of BSIZE "0::uchar"] by blast
  then show ?thesis by (auto simp: bzero_def)
qed

text \<open>What \<^verbatim>\<open>balloc\<close> does to the store: it marks a free block and zeroes it.\<close>

definition allocated :: "kernel \<Rightarrow> uint \<Rightarrow> kernel \<Rightarrow> bool" where
  "allocated s r t \<longleftrightarrow> r < sb_size (k_sb s) \<and> \<not> used s r \<and> (\<exists>v u. viewed s v
     \<and> updated v u (BBLOCK r (k_sb s)) (mark_used (unat (r mod BPB)) (blk s (BBLOCK r (k_sb s))))
     \<and> updated u t r (replicate BSIZE 0))"

lemma balloc_round_ok:
  assumes "txn s" "map_ok s" "room s (Suc (Suc n))" "k < 2 ^ 20" "bno k 0 < sb_size (k_sb s)"
  shows "\<exists>x t. balloc_round 1 (bno k 0) s = Ret x t \<and> (case x of
      Inr r \<Rightarrow> allocated s r t
    | Inl b \<Rightarrow> b = bno (Suc k) 0 \<and> viewed s t \<and> (\<forall>bi<4096. bno k bi < sb_size (k_sb s) \<longrightarrow> used s (bno k bi)))"
proof -
  let ?sb = "k_sb s" and ?m = "BBLOCK (bno k 0) (k_sb s)"
  have m: "?m < k_disksize s" "?m \<notin> busyb s" "used s ?m"
    using assms(2,5) by (auto simp: map_ok_def intro: less_le_trans)
  obtain i bs where r: "bread 1 ?m s = Ret i (s\<lparr>k_bcache := bs\<rparr>)" "b_data (bs ! i) = blk s ?m"
    and v: "\<forall>ic. \<exists>bs' ps. brelse i (s\<lparr>k_bcache := bs, k_icache := ic\<rparr>)
          = Ret () (s\<lparr>k_bcache := bs', k_procs := ps, k_icache := ic\<rparr>)
        \<and> viewed s (s\<lparr>k_bcache := bs', k_procs := ps\<rparr>)"
    and w: "\<forall>d. length d = BSIZE \<longrightarrow> (\<exists>t. andthen (set_data i d) (andthen (log_write i) (brelse i)) (s\<lparr>k_bcache := bs\<rparr>)
          = Ret () t \<and> updated s t ?m d)"
    using open_block [OF assms(1) m(1,2) assms(3)] by blast
  have len: "length (blk s ?m) = BSIZE" using assms(1) by (simp add: txn_def length_blk)
  let ?f = "List.find (bit_free (blk s ?m)) (takeWhile (\<lambda>bi. bno k 0 + of_nat bi < sb_size ?sb) [0..<unat BPB])"
  have U: "used s (bno k bi) = (\<not> bit_free (blk s ?m) bi)" if "bi < 4096" for bi
    using that assms(4) by (simp add: used_def bno_parts)
  note F = find_in_group [OF assms(4), of "sb_size ?sb" "bit_free (blk s ?m)"]
  show ?thesis
  proof (cases ?f)
    case None
    obtain bs' ps where "brelse i (s\<lparr>k_bcache := bs\<rparr>) = Ret () (s\<lparr>k_bcache := bs', k_procs := ps\<rparr>)"
      "viewed s (s\<lparr>k_bcache := bs', k_procs := ps\<rparr>)"
      using v [rule_format, of "k_icache s"] by auto
    then show ?thesis using None F r assms(4,5) U by (auto simp: balloc_round_def bno_parts bno_next)
  next
    case (Some bi)
    then have bi: "bi < 4096" "bno k bi < sb_size ?sb" "bit_free (blk s ?m) bi" using F by auto
    let ?r = "bno k bi"
    have "length (mark_used bi (blk s ?m)) = BSIZE" using len by simp
    then obtain u where u: "andthen (set_data i (mark_used bi (blk s ?m))) (andthen (log_write i) (brelse i)) (s\<lparr>k_bcache := bs\<rparr>)
        = Ret () u" "updated s u ?m (mark_used bi (blk s ?m))" using w by blast
    have nu: "\<not> used s ?r" using U [OF bi(1)] bi(3) by simp
    then have "?r < k_disksize s" "?r \<notin> busyb s"
      using bi(2) assms(2) less_le_trans [of ?r "sb_size ?sb"] unfolding map_ok_def by blast+
    then have "?r < k_disksize u" "?r \<notin> busyb u" unfolding updated_more [OF u(2)] by blast+
    then obtain t where t: "bzero 1 ?r u = Ret () t" "updated u t ?r (replicate BSIZE 0)"
      using bzero_ok [OF txn_updated [OF assms(1) u(2)] _ _ room_updated [OF u(2) assms(3)]] by blast
    have e: "BBLOCK ?r ?sb = ?m" "unat (?r mod BPB) = bi" using assms(4) bi(1) by (simp_all add: bno_parts)
    have "allocated s ?r t"
      using bi(2) nu viewed_refl [OF assms(1)] u(2) t(2) unfolding allocated_def e by blast
    moreover have "balloc_round 1 (bno k 0) s = Ret (Inr ?r) t"
      using Some r u(1) t(1) assms(4,5) bi(1) by (simp add: balloc_round_def bno_parts)
    ultimately show ?thesis by auto
  qed
qed

lemma allocated_viewed: "viewed s v \<Longrightarrow> allocated v r t \<Longrightarrow> allocated s r t"
  using viewed_fields [of s v] viewed_trans [of s v] by (auto simp: allocated_def)

lemma map_ok_viewed: "viewed s t \<Longrightarrow> map_ok t = map_ok s"
  using viewed_fields [of s t] by (simp add: map_ok_def)

lemma balloc_ok:
  assumes "txn s" "map_ok s" "room s (Suc (Suc n))" "\<exists>b < sb_size (k_sb s). \<not> used s b"
  shows "\<exists>r t. balloc 1 s = Ret r t \<and> allocated s r t"
proof -
  let ?sz = "sb_size (k_sb s)"
  obtain c where c: "c < ?sz" "\<not> used s c" using assms(4) by blast
  let ?I = "\<lambda>b v. \<exists>k<2 ^ 20. b = bno k 0 \<and> viewed s v \<and> (\<forall>c<?sz. \<not> used s c \<longrightarrow> 4096 * k \<le> unat c)"
  have "wp (loop (2 ^ 20) (balloc_round 1) 0) (allocated s) s"
  proof (rule wp_loop [where I = ?I and f = "\<lambda>b. 2 ^ 20 - 1 - unat b div 4096"])
    show "?I 0 s" using viewed_refl [OF assms(1)] by (auto simp: bno_def intro!: exI [of _ 0])
  next
    fix b v
    assume "?I b v"
    then obtain k where k: "k < 2 ^ 20" "b = bno k 0" "viewed s v" "\<forall>c<?sz. \<not> used s c \<longrightarrow> 4096 * k \<le> unat c" by blast
    note f = viewed_fields [OF k(3)]
    have "bno k 0 < ?sz" using c k(1,4) by (auto simp: word_less_nat_alt unat_bno)
    moreover have "map_ok v" "room v (Suc (Suc n))" using k(3) assms(2,3) by (simp_all add: map_ok_viewed room_viewed)
    ultimately obtain x t where x: "balloc_round 1 b v = Ret x t" "case x of Inr r \<Rightarrow> allocated v r t
        | Inl b' \<Rightarrow> b' = bno (Suc k) 0 \<and> viewed v t \<and> (\<forall>bi<4096. bno k bi < ?sz \<longrightarrow> used s (bno k bi))"
      using balloc_round_ok [OF txn_viewed [OF assms(1) k(3)], of n k, unfolded f(4,8)] k(1,2) by blast
    have "?I b' t \<and> 2 ^ 20 - 1 - unat b' div 4096 < 2 ^ 20 - 1 - unat b div 4096" if b': "x = Inl b'" for b'
    proof -
      have X: "b' = bno (Suc k) 0" "viewed s t" "\<forall>bi<4096. bno k bi < ?sz \<longrightarrow> used s (bno k bi)"
        using x(2) b' viewed_trans [OF k(3)] by simp_all
      have up: "4096 * Suc k \<le> unat d" if "d < ?sz" "\<not> used s d" for d
      proof (rule ccontr)
        assume "\<not> 4096 * Suc k \<le> unat d"
        moreover have l: "4096 * k \<le> unat d" using k(4) that by blast
        ultimately have "unat d - 4096 * k < 4096" by simp
        moreover have "bno k (unat d - 4096 * k) = d" unfolding bno_def le_add_diff_inverse [OF l] by simp
        ultimately show False using X(3) that by metis
      qed
      have "unat c < 2 ^ 32" using unsigned_less [of c, where ?'a = nat] by simp
      then have k': "Suc k < 2 ^ 20" using up [OF c] by simp
      have "?I b' t" using X(1,2) k' up by blast
      moreover have "unat b' div 4096 = Suc k" "unat b div 4096 = k"
        using k(1) k' by (simp_all add: X(1) k(2) unat_bno)
      ultimately show ?thesis using k' by simp
    qed
    then show "wp (balloc_round 1 b) (\<lambda>r t. case r of Inl b' \<Rightarrow> ?I b' t
        \<and> 2 ^ 20 - 1 - unat b' div 4096 < 2 ^ 20 - 1 - unat b div 4096 | Inr r \<Rightarrow> allocated s r t) v"
      using x allocated_viewed [OF k(3)] by (cases x) (simp_all add: wp_def)
  qed simp
  then show ?thesis by (auto simp: balloc_def wp_Ret_iff)
qed

lemma same_group_iff:
  assumes "BBLOCK b sb = BBLOCK c sb" "unat (b mod BPB) = unat (c mod BPB)"
  shows "b = c"
proof -
  have "b div BPB = c div BPB" using assms(1) by (simp add: BBLOCK_def)
  moreover have "b mod BPB = c mod BPB" using assms(2) by (simp only: word_unat_eq_iff)
  ultimately show ?thesis by (metis div_mult_mod_eq)
qed

lemma bit_in_block: "unat (b mod BPB) div 8 < BSIZE"
proof -
  have "unat (b mod BPB) < 4096" by (simp add: unat_mod_distrib)
  then show ?thesis by (simp add: size_defs)
qed

text \<open>
  C37: \<^verbatim>\<open>balloc\<close> inside a transaction, on a file system with a free block: it returns a block that was
  free, marks exactly that block as used in the free map, zeroes it, and leaves the contents of every
  other block alone. Its search of the bitmap ends.
\<close>

theorem balloc_allocates:
  assumes "txn s" "map_ok s" "room s 2" "\<exists>b < sb_size (k_sb s). \<not> used s b"
  shows "\<exists>r t. balloc 1 s = Ret r t \<and> r < sb_size (k_sb s) \<and> \<not> used s r \<and> txn t
    \<and> (\<forall>b < sb_size (k_sb s). used t b \<longleftrightarrow> b = r \<or> used s b) \<and> blk t r = replicate BSIZE 0
    \<and> (\<forall>b. b \<noteq> r \<and> b \<noteq> BBLOCK r (k_sb s) \<longrightarrow> blk t b = blk s b)"
proof -
  obtain r t where r: "balloc 1 s = Ret r t" "allocated s r t"
    using balloc_ok [OF assms(1,2) _ assms(4), of 0] assms(3) by (auto simp: numeral_2_eq_2)
  let ?m = "BBLOCK r (k_sb s)"
  obtain v u where v: "viewed s v" "updated v u ?m (mark_used (unat (r mod BPB)) (blk s ?m))"
      "updated u t r (replicate BSIZE 0)" and f: "r < sb_size (k_sb s)" "\<not> used s r"
    using r(2) unfolding allocated_def by blast
  have m: "used s (BBLOCK b (k_sb s))" if "b < sb_size (k_sb s)" for b using assms(2) that by (simp add: map_ok_def)
  have B: "blk t = (blk s)(?m := mark_used (unat (r mod BPB)) (blk s ?m), r := replicate BSIZE 0)"
    using viewed_fields(1) [OF v(1)] updated_more(1) [OF v(2)] updated_more(1) [OF v(3)] by simp
  have sb: "k_sb t = k_sb s" using viewed_fields(4) [OF v(1)] updated_more(4) [OF v(2)] updated_more(4) [OF v(3)] by simp
  have "length (blk s ?m) = BSIZE" using assms(1) by (simp add: txn_def length_blk)
  then have mk: "bit_free (mark_used (unat (r mod BPB)) (blk s ?m)) k \<longleftrightarrow> k \<noteq> unat (r mod BPB) \<and> bit_free (blk s ?m) k" for k
    by (simp add: bit_free_marks bit_in_block)
  have "used t b \<longleftrightarrow> b = r \<or> used s b" if "b < sb_size (k_sb s)" for b
  proof -
    have "BBLOCK b (k_sb s) \<noteq> r" using m [OF that] f(2) by auto
    then show ?thesis
      using mk same_group_iff [of b "k_sb s" r] unfolding used_def sb B by auto
  qed
  moreover have "txn t" using txn_updated [OF txn_updated [OF txn_viewed [OF assms(1) v(1)] v(2)] v(3)] .
  ultimately show ?thesis using r(1) f B by (intro exI [of _ r] exI [of _ t]) simp
qed

section \<open>Freeing a block\<close>

definition sb_of :: "block \<Rightarrow> superblock" where
  "sb_of d = \<lparr>sb_size = get32 d 0, sb_nblocks = get32 d 4, sb_ninodes = get32 d 8, sb_nlog = get32 d 12,
     sb_logstart = get32 d 16, sb_inodestart = get32 d 20, sb_bmapstart = get32 d 24\<rparr>"

lemma readsb_ok:
  assumes "txn s" "1 < k_disksize s" "1 \<notin> busyb s" "room s (Suc k)"
  shows "\<exists>t. readsb 1 s = Ret (sb_of (blk s 1)) t \<and> viewed s t"
proof -
  obtain i bs where r: "bread 1 1 s = Ret i (s\<lparr>k_bcache := bs\<rparr>)" "b_data (bs ! i) = blk s 1"
    and v: "\<forall>ic. \<exists>bs' ps. brelse i (s\<lparr>k_bcache := bs, k_icache := ic\<rparr>)
          = Ret () (s\<lparr>k_bcache := bs', k_procs := ps, k_icache := ic\<rparr>)
        \<and> viewed s (s\<lparr>k_bcache := bs', k_procs := ps\<rparr>)"
    using open_block [OF assms] by blast
  obtain bs' ps where "brelse i (s\<lparr>k_bcache := bs\<rparr>) = Ret () (s\<lparr>k_bcache := bs', k_procs := ps\<rparr>)"
      "viewed s (s\<lparr>k_bcache := bs', k_procs := ps\<rparr>)"
    using v [rule_format, of "k_icache s"] by auto
  then show ?thesis using r by (auto simp: readsb_def sb_of_def)
qed

text \<open>
  C38: \<^verbatim>\<open>bfree\<close> inside a transaction clears exactly the bit of its block in the free map and changes
  no other block; freeing a block that is already free panics instead of corrupting the map.
\<close>

theorem bfree_frees:
  assumes "txn s" "room s 1" "1 < k_disksize s" "1 \<notin> busyb s" "sb_of (blk s 1) = k_sb s"
    and "BBLOCK b (k_sb s) < k_disksize s" "BBLOCK b (k_sb s) \<notin> busyb s"
  shows "if used s b then \<exists>t. bfree 1 b s = Ret () t \<and> txn t \<and> k_sb t = k_sb s
      \<and> (\<forall>c. BBLOCK c (k_sb s) \<noteq> BBLOCK b (k_sb s) \<or> c \<noteq> b \<longrightarrow> used t c = used s c) \<and> \<not> used t b
      \<and> (\<forall>c. c \<noteq> BBLOCK b (k_sb s) \<longrightarrow> blk t c = blk s c)
    else bfree 1 b s = Panic ''freeing free block''"
proof -
  let ?m = "BBLOCK b (k_sb s)" and ?bi = "unat (b mod BPB)"
  obtain v where v: "readsb 1 s = Ret (k_sb s) v" "viewed s v"
    using readsb_ok [OF assms(1,3,4), of 0] assms(2,5) by auto
  note f = viewed_fields [OF v(2)]
  have r: "txn v" "?m < k_disksize v" "?m \<notin> busyb v" "room v (Suc 0)" "v\<lparr>k_sb := k_sb s\<rparr> = v"
    using txn_viewed [OF assms(1) v(2)] room_viewed [OF v(2)] assms(2,6,7) f by simp_all
  obtain i bs where i: "bread 1 ?m v = Ret i (v\<lparr>k_bcache := bs\<rparr>)" "b_data (bs ! i) = blk s ?m"
    and w: "\<forall>d. length d = BSIZE \<longrightarrow> (\<exists>t. andthen (set_data i d) (andthen (log_write i) (brelse i)) (v\<lparr>k_bcache := bs\<rparr>)
          = Ret () t \<and> updated v t ?m d)"
    using open_block [OF r(1-4)] f(1) by auto
  have len: "length (blk s ?m) = BSIZE" using assms(1) by (simp add: txn_def length_blk)
  show ?thesis
  proof (cases "used s b")
    case True
    have "length (mark_free ?bi (blk s ?m)) = BSIZE" using len by simp
    then obtain t where t: "andthen (set_data i (mark_free ?bi (blk s ?m))) (andthen (log_write i) (brelse i)) (v\<lparr>k_bcache := bs\<rparr>) = Ret () t"
        "updated v t ?m (mark_free ?bi (blk s ?m))" using w by blast
    have B: "blk t = (blk s)(?m := mark_free ?bi (blk s ?m))" "k_sb t = k_sb s"
      using updated_more [OF t(2)] f by simp_all
    have "bit_free (mark_free ?bi (blk s ?m)) k \<longleftrightarrow> k = ?bi \<or> bit_free (blk s ?m) k" for k
      using len by (simp add: bit_free_marks bit_in_block)
    then have "used t c \<longleftrightarrow> c \<noteq> b \<and> used s c" for c
      using same_group_iff [of c "k_sb s" b] True unfolding used_def B by auto
    moreover have "bfree 1 b s = Ret () t"
      using v(1) r(5) i t(1) True by (simp add: bfree_def Let_def used_def)
    ultimately show ?thesis using True txn_updated [OF r(1) t(2)] B by auto
  next
    case False
    then show ?thesis using v(1) r(5) i by (simp add: bfree_def Let_def used_def)
  qed
qed

section \<open>The inode cache\<close>

text \<open>At most one entry in use per inode.\<close>

definition cached :: "kernel \<Rightarrow> uint \<Rightarrow> uint \<Rightarrow> nat \<Rightarrow> bool" where
  "cached s dev inum i \<longleftrightarrow> i < NINODE \<and> 0 < i_ref (k_icache s ! i) \<and> i_dev (k_icache s ! i) = dev \<and> i_inum (k_icache s ! i) = inum"

definition icache_ok :: "kernel \<Rightarrow> bool" where
  "icache_ok s \<longleftrightarrow> length (k_icache s) = NINODE
     \<and> (\<forall>dev inum i j. cached s dev inum i \<longrightarrow> cached s dev inum j \<longrightarrow> i = j)"

lemma cached_unique: "icache_ok s \<Longrightarrow> cached s dev inum i \<Longrightarrow> cached s dev inum j \<Longrightarrow> i = j"
  unfolding icache_ok_def by blast

lemma icache_ok_upd:
  assumes "icache_ok s" "i < NINODE"
    and "\<And>j. cached s (i_dev (f (k_icache s ! i))) (i_inum (f (k_icache s ! i))) j \<Longrightarrow> j = i"
  shows "icache_ok (s\<lparr>k_icache := upd_at i f (k_icache s)\<rparr>)"
proof -
  define t where "t = s\<lparr>k_icache := upd_at i f (k_icache s)\<rparr>"
  have n: "length (k_icache s) = NINODE" using assms(1) by (simp add: icache_ok_def)
  have k: "cached t d m j = cached s d m j" if "j \<noteq> i" for d m j
    using that by (simp add: cached_def t_def)
  have ki: "d = i_dev (f (k_icache s ! i)) \<and> m = i_inum (f (k_icache s ! i))" if "cached t d m i" for d m
    using that assms(2) n by (auto simp: cached_def t_def)
  have "a = b" if "cached t d m a" "cached t d m b" for d m a b
  proof (cases "a = i \<or> b = i")
    case True
    have "c = i" if c: "cached t d m c" and x: "cached t d m i" for c
      using k [of c d m] c ki [OF x] assms(3) by blast
    then show ?thesis using True that by blast
  next
    case False
    then show ?thesis using that k [of a d m] k [of b d m] cached_unique [OF assms(1)] by blast
  qed
  moreover have "length (k_icache t) = NINODE" using n by (simp add: t_def)
  ultimately show ?thesis unfolding icache_ok_def t_def [symmetric] by blast
qed

lemma iget_run:
  assumes "lock_avail IcacheLk s"
  shows "iget dev inum s = (case find_idx (\<lambda>ip. i_ref ip > 0 \<and> i_dev ip = dev \<and> i_inum ip = inum) (k_icache s) of
      Some i \<Rightarrow> Ret i (s\<lparr>k_icache := upd_at i (\<lambda>ip. ip\<lparr>i_ref := i_ref ip + 1\<rparr>) (k_icache s)\<rparr>)
    | None \<Rightarrow> (case find_idx (\<lambda>ip. i_ref ip = 0) (k_icache s) of
        Some i \<Rightarrow> Ret i (s\<lparr>k_icache := upd_at i (\<lambda>ip. ip\<lparr>i_dev := dev, i_inum := inum, i_ref := 1,
             i_busy := False, i_valid := False\<rparr>) (k_icache s)\<rparr>)
      | None \<Rightarrow> Panic ''iget: no inodes''))"
  using assms by (simp add: iget_def lock_avail_free split: option.split)

lemma iget_hit:
  assumes "icache_ok s" "lock_avail IcacheLk s" "cached s dev inum i"
  shows "iget dev inum s = Ret i (s\<lparr>k_icache := upd_at i (\<lambda>ip. ip\<lparr>i_ref := i_ref ip + 1\<rparr>) (k_icache s)\<rparr>)"
proof -
  have n: "length (k_icache s) = NINODE" using assms(1) by (simp add: icache_ok_def)
  have "find_idx (\<lambda>ip. i_ref ip > 0 \<and> i_dev ip = dev \<and> i_inum ip = inum) (k_icache s) = Some i"
  proof (rule find_idx_SomeI)
    fix j assume j: "j < i"
    show "\<not> (i_ref (k_icache s ! j) > 0 \<and> i_dev (k_icache s ! j) = dev \<and> i_inum (k_icache s ! j) = inum)"
      using cached_unique [OF assms(1,3), of j] assms(3) j by (auto simp: cached_def)
  qed (use assms(3) n in \<open>auto simp: cached_def\<close>)
  then show ?thesis by (simp add: iget_run [OF assms(2)])
qed

lemma iget_miss:
  assumes "icache_ok s" "lock_avail IcacheLk s" "\<And>j. \<not> cached s dev inum j"
  shows "iget dev inum s = (case find_idx (\<lambda>ip. i_ref ip = 0) (k_icache s) of
      Some i \<Rightarrow> Ret i (s\<lparr>k_icache := upd_at i (\<lambda>ip. ip\<lparr>i_dev := dev, i_inum := inum, i_ref := 1,
             i_busy := False, i_valid := False\<rparr>) (k_icache s)\<rparr>)
    | None \<Rightarrow> Panic ''iget: no inodes'')"
proof -
  have n: "length (k_icache s) = NINODE" using assms(1) by (simp add: icache_ok_def)
  have "find_idx (\<lambda>ip. i_ref ip > 0 \<and> i_dev ip = dev \<and> i_inum ip = inum) (k_icache s) = None"
    using assms(3) n by (fastforce simp: find_idx_None_iff cached_def in_set_conv_nth)
  then show ?thesis by (simp add: iget_run [OF assms(2)])
qed

text \<open>
  C39: \<^verbatim>\<open>iget\<close> of an inode that is in the cache finds its one entry and raises its count; nothing
  else changes. An inode that is not cached takes a free entry with count one, not yet valid, when
  there is one, and otherwise \<^verbatim>\<open>iget\<close> panics. The cache never holds an inode twice.
\<close>

theorem iget_keeps_unique:
  assumes "icache_ok s" "lock_avail IcacheLk s"
  shows "(\<forall>i. cached s dev inum i \<longrightarrow> iget dev inum s
        = Ret i (s\<lparr>k_icache := upd_at i (\<lambda>ip. ip\<lparr>i_ref := i_ref ip + 1\<rparr>) (k_icache s)\<rparr>)
      \<and> icache_ok (s\<lparr>k_icache := upd_at i (\<lambda>ip. ip\<lparr>i_ref := i_ref ip + 1\<rparr>) (k_icache s)\<rparr>))
    \<and> ((\<forall>j. \<not> cached s dev inum j) \<longrightarrow>
       (if \<exists>j<NINODE. i_ref (k_icache s ! j) = 0
        then \<exists>i t. iget dev inum s = Ret i t \<and> icache_ok t \<and> cached t dev inum i \<and> i_ref (k_icache s ! i) = 0
          \<and> i_ref (k_icache t ! i) = 1 \<and> \<not> i_valid (k_icache t ! i) \<and> (\<forall>j. j \<noteq> i \<longrightarrow> k_icache t ! j = k_icache s ! j)
        else iget dev inum s = Panic ''iget: no inodes''))"
proof (intro conjI allI impI)
  fix i assume c: "cached s dev inum i"
  show "iget dev inum s = Ret i (s\<lparr>k_icache := upd_at i (\<lambda>ip. ip\<lparr>i_ref := i_ref ip + 1\<rparr>) (k_icache s)\<rparr>)"
    by (rule iget_hit [OF assms c])
  show "icache_ok (s\<lparr>k_icache := upd_at i (\<lambda>ip. ip\<lparr>i_ref := i_ref ip + 1\<rparr>) (k_icache s)\<rparr>)"
  proof (rule icache_ok_upd [OF assms(1)])
    have d: "i_dev (k_icache s ! i) = dev" "i_inum (k_icache s ! i) = inum" using c by (simp_all add: cached_def)
    show "i < NINODE" using c by (simp add: cached_def)
    show "j = i" if "cached s (i_dev ((k_icache s ! i)\<lparr>i_ref := i_ref (k_icache s ! i) + 1\<rparr>))
        (i_inum ((k_icache s ! i)\<lparr>i_ref := i_ref (k_icache s ! i) + 1\<rparr>)) j" for j
      using cached_unique [OF assms(1) c, of j] that d by simp
  qed
next
  assume "\<forall>j. \<not> cached s dev inum j"
  then have no: "\<And>j. \<not> cached s dev inum j" by blast
  have n: "length (k_icache s) = NINODE" using assms(1) by (simp add: icache_ok_def)
  show "if \<exists>j<NINODE. i_ref (k_icache s ! j) = 0
        then \<exists>i t. iget dev inum s = Ret i t \<and> icache_ok t \<and> cached t dev inum i \<and> i_ref (k_icache s ! i) = 0
          \<and> i_ref (k_icache t ! i) = 1 \<and> \<not> i_valid (k_icache t ! i) \<and> (\<forall>j. j \<noteq> i \<longrightarrow> k_icache t ! j = k_icache s ! j)
        else iget dev inum s = Panic ''iget: no inodes''"
  proof (cases "find_idx (\<lambda>ip. i_ref ip = 0) (k_icache s)")
    case (Some i)
    then have i: "i < NINODE" "i_ref (k_icache s ! i) = 0" using n by (auto dest: find_idx_SomeD)
    let ?f = "\<lambda>ip. ip\<lparr>i_dev := dev, i_inum := inum, i_ref := 1, i_busy := False, i_valid := False\<rparr>"
    let ?t = "s\<lparr>k_icache := upd_at i ?f (k_icache s)\<rparr>"
    have k: "k_icache ?t ! i = ?f (k_icache s ! i)" using i n by simp
    have ok: "icache_ok ?t" using no by (intro icache_ok_upd [OF assms(1) i(1)]) simp
    have c: "cached ?t dev inum i" using i k by (simp add: cached_def)
    have r: "iget dev inum s = Ret i ?t" by (simp add: iget_miss [OF assms no] Some)
    have "\<exists>j<NINODE. i_ref (k_icache s ! j) = 0" using i by blast
    moreover have "\<forall>j. j \<noteq> i \<longrightarrow> k_icache ?t ! j = k_icache s ! j" by simp
    moreover have "i_ref (k_icache ?t ! i) = 1" "\<not> i_valid (k_icache ?t ! i)" unfolding k by simp_all
    ultimately have "\<exists>i t. iget dev inum s = Ret i t \<and> icache_ok t \<and> cached t dev inum i \<and> i_ref (k_icache s ! i) = 0
          \<and> i_ref (k_icache t ! i) = 1 \<and> \<not> i_valid (k_icache t ! i) \<and> (\<forall>j. j \<noteq> i \<longrightarrow> k_icache t ! j = k_icache s ! j)"
      using r ok c i(2) by (intro exI [of _ i] exI [of _ ?t]) simp
    then show ?thesis using i by auto
  next
    case None
    then have "\<not> (\<exists>j<NINODE. i_ref (k_icache s ! j) = 0)" using n by (auto simp: find_idx_None_iff)
    then show ?thesis by (simp add: iget_miss [OF assms no] None)
  qed
qed

theorem iget_keeps_unique_witness:
  "\<exists>i t. iget 1 7 boot = Ret i t \<and> icache_ok t \<and> cached t 1 7 i"
proof -
  have z: "i_ref (k_icache boot ! j) = 0" if "j < NINODE" for j using that by (simp add: boot_def inode0_def)
  then have "\<forall>j. \<not> cached boot 1 7 j" by (auto simp: cached_def)
  moreover have b: "icache_ok boot" using z by (auto simp: icache_ok_def cached_def) (simp add: boot_def)
  moreover have "\<exists>j<NINODE. i_ref (k_icache boot ! j) = 0" using z [of 0] by (intro exI [of _ 0]) (simp add: NINODE_def)
  ultimately show ?thesis using iget_keeps_unique [OF b, of 1 7] by auto
qed

section \<open>Inodes on disk\<close>

lemma length_put_dinode [simp]: "length (put_dinode d off di) = length d"
  by (simp add: put_dinode_def)

lemma get_put_dinode:
  assumes "off + 64 \<le> length d" "length (di_addrs di) = NDIRECT + 1"
  shows "get_dinode (put_dinode d off di) off = di"
proof -
  have l: "length (di_addrs di) = 13" using assms(2) by (simp add: size_defs)
  have "get32s (put_dinode d off di) (off + 12) (NDIRECT + 1) = di_addrs di"
    unfolding put_dinode_def assms(2) [symmetric] by (rule get32s_put32s) (use assms(1) l in simp)
  then show ?thesis
    using assms(1) l by (simp add: get_dinode_def put_dinode_def get16_put32s_other get32_put32s_other
      get16_put32_other get16_put16_other get32_put16_other)
qed

lemma put_dinode_nth:
  assumes "k < off \<or> off + 64 \<le> k" "length (di_addrs di) = NDIRECT + 1"
  shows "put_dinode d off di ! k = d ! k"
  using assms by (auto simp: put_dinode_def nth_put32s nth_put32 nth_put16 size_defs)

lemma get_dinode_cong: "(\<And>k. off \<le> k \<Longrightarrow> k < off + 64 \<Longrightarrow> d ! k = e ! k) \<Longrightarrow> get_dinode d off = get_dinode e off"
  by (auto simp: get_dinode_def get16_def get32_def get32s_def size_defs)

lemma unat_IPB [simp]: "unat IPB = 8"
  by (simp add: IPB_def size_defs)

lemma dinode_off_bound: "dinode_off n + 64 \<le> BSIZE"
proof -
  have "unat (n mod IPB) < 8" by (simp add: unat_mod_distrib)
  then show ?thesis by (simp add: dinode_off_def size_defs)
qed

lemma dinode_off_inj:
  assumes "IBLOCK n sb = IBLOCK m sb" "dinode_off n = dinode_off m"
  shows "n = m"
proof -
  have "n div IPB = m div IPB" using assms(1) by (simp add: IBLOCK_def)
  moreover have "unat (n mod IPB) = unat (m mod IPB)" using assms(2) by (simp only: dinode_off_def mult_cancel1) simp
  then have "n mod IPB = m mod IPB" by (simp only: word_unat_eq_iff)
  ultimately show ?thesis using div_mult_mod_eq [of n IPB] div_mult_mod_eq [of m IPB] by metis
qed

lemma get_put_dinode_other:
  assumes "dinode_off n \<noteq> dinode_off m" "length (di_addrs di) = NDIRECT + 1"
  shows "get_dinode (put_dinode d (dinode_off m) di) (dinode_off n) = get_dinode d (dinode_off n)"
proof (rule get_dinode_cong)
  fix k
  assume "dinode_off n \<le> k" "k < dinode_off n + 64"
  then have "k < dinode_off m \<or> dinode_off m + 64 \<le> k" 
    using assms(1) unfolding dinode_off_def
    by (cases "unat (n mod IPB)" "unat (m mod IPB)" rule: linorder_cases) linarith+
  then show "put_dinode d (dinode_off m) di ! k = d ! k" by (rule put_dinode_nth [OF _ assms(2)])
qed

text \<open>
  C40: \<^verbatim>\<open>iupdate\<close> inside a transaction stores the in-memory inode so that decoding its slot of the
  inode block gives it back, field by field; the other inodes of that block and all other
  blocks keep their contents, and the write is part of the transaction.
\<close>

theorem iupdate_persists:
  assumes "txn s" "room s 1" "ip = k_icache s ! i" "i_dev ip = 1" "length (i_addrs ip) = NDIRECT + 1"
    and "b = IBLOCK (i_inum ip) (k_sb s)" "b < k_disksize s" "b \<notin> busyb s"
  shows "\<exists>t. iupdate i s = Ret () t \<and> txn t \<and> get_dinode (blk t b) (dinode_off (i_inum ip)) = to_dinode ip
    \<and> (\<forall>n. IBLOCK n (k_sb s) = b \<and> n \<noteq> i_inum ip \<longrightarrow> get_dinode (blk t b) (dinode_off n) = get_dinode (blk s b) (dinode_off n))
    \<and> (\<forall>c. c \<noteq> b \<longrightarrow> blk t c = blk s c) \<and> b \<in> dirtyb t"
proof -
  let ?d = "put_dinode (blk s b) (dinode_off (i_inum ip)) (to_dinode ip)"
  have len: "length (blk s b) = BSIZE" using assms(1) by (simp add: txn_def length_blk)
  have a: "length (di_addrs (to_dinode ip)) = NDIRECT + 1" using assms(5) by (simp add: to_dinode_def)
  obtain bp bs where r: "bread 1 b s = Ret bp (s\<lparr>k_bcache := bs\<rparr>)" "b_data (bs ! bp) = blk s b"
    and w: "\<forall>d. length d = BSIZE \<longrightarrow> (\<exists>t. andthen (set_data bp d) (andthen (log_write bp) (brelse bp)) (s\<lparr>k_bcache := bs\<rparr>)
          = Ret () t \<and> updated s t b d)"
    using open_block [OF assms(1,7,8), of 0] assms(2) by auto
  have "length ?d = BSIZE" using len by simp
  then obtain t where t: "andthen (set_data bp ?d) (andthen (log_write bp) (brelse bp)) (s\<lparr>k_bcache := bs\<rparr>) = Ret () t"
      "updated s t b ?d" using w by blast
  have "iupdate i s = Ret () t"
    using r t(1) assms(3,4,6) by (simp add: iupdate_def)
  moreover have "get_dinode ?d (dinode_off (i_inum ip)) = to_dinode ip"
    using get_put_dinode [OF _ a] dinode_off_bound [of "i_inum ip"] len by simp
  moreover have "get_dinode ?d (dinode_off n) = get_dinode (blk s b) (dinode_off n)" if "IBLOCK n (k_sb s) = b" "n \<noteq> i_inum ip" for n
    using get_put_dinode_other [OF _ a] dinode_off_inj [of n "k_sb s" "i_inum ip"] that assms(6) by blast
  ultimately show ?thesis
    using txn_updated [OF assms(1) t(2)] updated_more [OF t(2)] by (intro exI [of _ t]) auto
qed

section \<open>Witnesses\<close>

lemma marked_start:
  assumes "b < 1000"
  obtains t where "txn t" "room t 2" "blk t = (\<lambda>_. replicate BSIZE 0)(b := mark_used k (replicate BSIZE 0))"
    "busyb t = {}" "k_disksize t = 1000"
proof -
  have "log_room log_start b" using assms by (simp add: log_start_ok(10))
  then obtain t where t: "updated log_start t b (mark_used k (replicate BSIZE 0))"
    using update_block [OF log_start_ok(1,3,2), of b "mark_used k"] by (auto simp: log_start_ok)
  have s: "txn log_start" "room log_start 3"
    using log_start_ok by (simp_all add: txn_def room_def size_defs)
  have "room t 2" using room_updated [OF t] s(2) by (simp add: numeral_3_eq_3 numeral_2_eq_2)
  then show ?thesis
    using that txn_updated [OF s(1) t] updated_more [OF t] by (simp add: log_start_ok)
qed

theorem balloc_allocates_witness:
  "\<exists>s r t. balloc 1 s = Ret r t \<and> \<not> used s r \<and> used t r"
proof -
  obtain t where t: "txn t" "room t 2" "blk t = (\<lambda>_. replicate BSIZE 0)(58 := mark_used 58 (replicate BSIZE 0))"
    "busyb t = {}" "k_disksize t = 1000" using marked_start [of 58 58] by auto
  let ?s = "t\<lparr>k_sb := (k_sb t)\<lparr>sb_size := 1000, sb_bmapstart := 58\<rparr>\<rparr>"
  have B: "BBLOCK b (k_sb ?s) = 58" if "b < 1000" for b
  proof -
    have "unat (b div BPB) = 0" using that by (simp add: unat_div_distrib word_less_nat_alt)
    then have "b div BPB = 0" by (simp only: unsigned_eq_0_iff)
    then show ?thesis by (simp add: BBLOCK_def)
  qed
  have m: "unat (b mod BPB) = unat b" if "b < 1000" for b
    using that by (simp add: unat_mod_distrib word_less_nat_alt)
  have z: "bit_free (replicate BSIZE 0) k" if "k < 4096" for k
    using that by (simp add: bit_free_def BSIZE_def less_mult_imp_div_less)
  have u: "used ?s b \<longleftrightarrow> b = 58" if "b < 1000" for b
  proof -
    have "unat b < 4096" using that by (simp add: word_less_nat_alt)
    moreover have "unat b = 58 \<longleftrightarrow> b = 58" by (simp add: word_unat_eq_iff)
    ultimately show ?thesis
      unfolding used_def B [OF that] m [OF that] using t(3) z
      by (simp add: bit_free_marks(1) [of 58 "replicate BSIZE 0", simplified BSIZE_def length_replicate] BSIZE_def)
  qed
  have "map_ok ?s" unfolding map_ok_def using B u t(4,5) by auto
  moreover have "txn ?s" "room ?s 2" using t(1,2) by (simp_all add: txn_def room_def log_inv_def)
  moreover have "\<exists>b < sb_size (k_sb ?s). \<not> used ?s b" using u [of 0] by (intro exI [of _ 0]) simp
  ultimately show ?thesis using balloc_allocates [of ?s] by blast
qed

theorem bfree_frees_witness:
  "\<exists>s t. used s 5 \<and> bfree 1 5 s = Ret () t \<and> \<not> used t 5"
proof -
  obtain t where t: "txn t" "room t 2" "blk t = (\<lambda>_. replicate BSIZE 0)(0 := mark_used 5 (replicate BSIZE 0))"
    "busyb t = {}" "k_disksize t = 1000" using marked_start [of 0 5] by auto
  let ?s = "t\<lparr>k_sb := sb_of (replicate BSIZE 0)\<rparr>"
  have B: "BBLOCK 5 (k_sb ?s) = 0" "unat (5 mod BPB :: uint) = 5"
    by (simp_all add: BBLOCK_def sb_of_def get32_def BPB_def size_defs)
  have k: "blk ?s = (\<lambda>_. replicate BSIZE 0)(0 := mark_used 5 (replicate BSIZE 0))" using t(3) by simp
  have u: "used ?s 5" unfolding used_def B k
    by (simp add: bit_free_def mark_used_def bmask_def BSIZE_def)
  have "txn ?s" "room ?s 1" "busyb ?s = {}" "k_disksize ?s = 1000"
    using t(1,2,4,5) by (simp_all add: txn_def room_def log_inv_def)
  moreover have "sb_of (blk ?s 1) = k_sb ?s" unfolding k by simp
  ultimately show ?thesis using bfree_frees [of ?s 5] B u by auto
qed

theorem iupdate_persists_witness:
  "\<exists>s t. iupdate 0 s = Ret () t \<and> di_size (get_dinode (blk t 0) 64) = 77"
proof -
  obtain t where t: "txn t" "room t 2" "busyb t = {}" "k_disksize t = 1000" using marked_start [of 3 5] by auto
  let ?ip = "inode0\<lparr>i_dev := 1, i_inum := 1, i_size := 77\<rparr>"
  let ?s = "t\<lparr>k_sb := sb_of (replicate BSIZE 0), k_icache := [?ip]\<rparr>"
  have "txn ?s" "room ?s 1" "busyb ?s = {}" "k_disksize ?s = 1000"
    using t by (simp_all add: txn_def room_def log_inv_def)
  moreover have "IBLOCK 1 (k_sb ?s) = 0" "dinode_off 1 = 64"
    by (simp_all add: IBLOCK_def dinode_off_def IPB_def sb_of_def get32_def size_defs)
  ultimately obtain u where "iupdate 0 ?s = Ret () u" "get_dinode (blk u 0) 64 = to_dinode ?ip"
    using iupdate_persists [of ?s ?ip 0 0] by (auto simp: inode0_def)
  then show ?thesis by (intro exI [of _ ?s] exI [of _ u]) (simp add: to_dinode_def)
qed

end
