(* ===== verification/Ring.thy ===== *)
theory Ring
  imports Prelude
begin

text \<open>
  Ring buffers with 32-bit counters that wrap around, as the pipes and the console input
  have them, and the interface of a bounded queue they implement.
\<close>

section \<open>A queue in an array\<close>

text \<open>
  \<open>ring buf r w q\<close>: the counters \<open>r\<close> and \<open>w\<close> delimit the queue \<open>q\<close> in \<open>buf\<close>, whose length
  divides \<open>2^32\<close>.
\<close>

definition ring :: "'a list \<Rightarrow> uint \<Rightarrow> uint \<Rightarrow> 'a list \<Rightarrow> bool" where
  "ring buf r w q \<longleftrightarrow> length buf dvd 2 ^ 32 \<and> 0 < length buf \<and> length buf < 2 ^ 32 \<and> w = r + of_nat (length q) \<and> length q \<le> length buf
     \<and> (\<forall>k < length q. buf ! ((unat r + k) mod length buf) = q ! k)"

lemma ring_index:
  fixes a b :: uint
  assumes "n dvd 2 ^ 32"
  shows "unat (a + b) mod n = (unat a + unat b) mod n"
  using assms by (simp add: unat_word_ariths mod_mod_cancel)

lemma window_inj:
  fixes x j k n :: nat
  assumes "(x + j) mod n = (x + k) mod n" "j < n" "k < n"
  shows "j = k"
proof -
  have "a = b" if "a \<le> b" "b < n" "(x + b) mod n = (x + a) mod n" for a b
  proof -
    have "n dvd (x + b) - (x + a)" using that by (simp add: mod_eq_dvd_iff_nat)
    then show ?thesis using that dvd_imp_le [of n "b - a"] by (cases "b = a") auto
  qed
  then show ?thesis using assms by (metis nat_le_linear)
qed

lemma ring_write_index:
  assumes "ring buf r w q"
  shows "unat w mod length buf = (unat r + length q) mod length buf"
proof -
  have "unat (of_nat (length q) :: uint) = length q"
    using assms by (simp add: ring_def unat_of_nat take_bit_nat_eq_self)
  then show ?thesis using assms ring_index [of "length buf" r "of_nat (length q)"] by (simp add: ring_def)
qed

lemma ring_count: "ring buf r w q \<Longrightarrow> unat (w - r) = length q"
  by (simp add: ring_def unat_of_nat take_bit_nat_eq_self)

lemma ring_length: "ring buf r w q \<Longrightarrow> length q < 2 ^ 32"
  unfolding ring_def by linarith

lemma ring_empty_iff: "ring buf r w q \<Longrightarrow> r = w \<longleftrightarrow> q = []"
  using ring_count [of buf r w q] by (auto simp: ring_def)

lemma ring_full_iff:
  assumes "ring buf r w q"
  shows "w = r + of_nat (length buf) \<longleftrightarrow> length q = length buf"
proof -
  have b: "unat (of_nat (length buf) :: uint) = length buf"
    using assms by (simp add: ring_def unat_of_nat take_bit_nat_eq_self)
  show ?thesis
  proof
    assume "w = r + of_nat (length buf)"
    then show "length q = length buf" using ring_count [OF assms] b by simp
  next
    assume "length q = length buf"
    moreover have "w = r + of_nat (length q)" using assms by (simp add: ring_def)
    ultimately show "w = r + of_nat (length buf)" by simp
  qed
qed

lemma ring_put:
  assumes "ring buf r w q" "length q < length buf"
  shows "ring (buf[unat w mod length buf := b]) r (w + 1) (q @ [b])"
proof -
  have i: "unat w mod length buf = (unat r + length q) mod length buf"
    by (rule ring_write_index [OF assms(1)])
  have "buf[unat w mod length buf := b] ! ((unat r + k) mod length buf) = (q @ [b]) ! k" if "k \<le> length q" for k
  proof (cases "k = length q")
    case True
    have "(unat r + k) mod length buf < length buf" using assms by (intro mod_less_divisor) (simp add: ring_def)
    then show ?thesis using True i by simp
  next
    case False
    then have "(unat r + k) mod length buf \<noteq> unat w mod length buf"
      using window_inj [of "unat r" k "length buf" "length q"] i that assms(2) by auto
    then show ?thesis using False that assms(1) by (simp add: ring_def nth_append)
  qed
  then show ?thesis using assms by (simp add: ring_def less_Suc_eq_le)
qed

lemma ring_first:
  assumes "ring buf r w (b # q)"
  shows "buf ! (unat r mod length buf) = b"
  using assms by (auto simp: ring_def dest: spec [of _ 0])

lemma ring_take:
  assumes "ring buf r w (b # q)"
  shows "ring buf (r + 1) w q"
proof -
  have "buf ! ((unat (r + 1) + k) mod length buf) = q ! k" if "k < length q" for k
  proof -
    have "(unat (r + 1) + k) mod length buf = (unat (r + 1) mod length buf + k) mod length buf"
      by (simp add: mod_simps)
    also have "unat (r + 1) mod length buf = (unat r + 1) mod length buf"
      using assms ring_index [of "length buf" r 1] by (simp add: ring_def)
    finally have "(unat (r + 1) + k) mod length buf = (unat r + Suc k) mod length buf"
      by (simp add: mod_simps)
    then show ?thesis using assms that by (auto simp: ring_def dest: spec [of _ "Suc k"])
  qed
  then show ?thesis using assms by (simp add: ring_def add.assoc)
qed

lemma ring_unput:
  assumes "ring buf r w (q @ [b])"
  shows "buf ! (unat (w - 1) mod length buf) = b" "ring buf r (w - 1) q"
proof -
  show r: "ring buf r (w - 1) q" using assms by (auto simp: ring_def nth_append)
  show "buf ! (unat (w - 1) mod length buf) = b"
    using ring_write_index [OF r] assms by (auto simp: ring_def dest: spec [of _ "length q"])
qed

section \<open>The interface of a bounded queue\<close>

text \<open>
  \<open>view r q\<close>: the representation \<open>r\<close> stands for the queue \<open>q\<close> of at most \<open>cap\<close> elements.
\<close>

locale bounded_queue =
  fixes view :: "'r \<Rightarrow> 'a list \<Rightarrow> bool" and cap :: nat
    and put :: "'a \<Rightarrow> 'r \<Rightarrow> 'r" and front :: "'r \<Rightarrow> 'a" and take1 :: "'r \<Rightarrow> 'r"
  assumes view_put: "view r q \<Longrightarrow> length q < cap \<Longrightarrow> view (put a r) (q @ [a])"
    and view_front: "view r (a # q) \<Longrightarrow> front r = a"
    and view_take: "view r (a # q) \<Longrightarrow> view (take1 r) q"
    and view_cap: "view r q \<Longrightarrow> length q \<le> cap"
begin

primrec takes :: "nat \<Rightarrow> 'r \<Rightarrow> 'a list \<times> 'r" where
  "takes 0 r = ([], r)"
| "takes (Suc n) r = (let (as, r') = takes n (take1 r) in (front r # as, r'))"

lemma view_puts: "view r q \<Longrightarrow> length q + length as \<le> cap \<Longrightarrow> view (fold put as r) (q @ as)"
proof (induction as arbitrary: r q)
  case (Cons a as)
  then show ?case using Cons.IH [of "put a r" "q @ [a]"] by (simp add: view_put)
qed simp

lemma view_takes: "view r (as @ q) \<Longrightarrow> \<exists>r'. takes (length as) r = (as, r') \<and> view r' q"
proof (induction as arbitrary: r)
  case (Cons a as)
  then have v: "view r (a # as @ q)" by simp
  obtain r' where "takes (length as) (take1 r) = (as, r')" "view r' q"
    using Cons.IH [OF view_take [OF v]] by blast
  then show ?case using view_front [OF v] by simp
qed simp

text \<open>First in, first out.\<close>

lemma fifo:
  assumes "view r []" "length as \<le> cap"
  shows "\<exists>r'. takes (length as) (fold put as r) = (as, r') \<and> view r' []"
  using view_takes [of "fold put as r" as "[]"] view_puts [of r "[]" as] assms by simp

end

end
