(* ===== verification/Console.thy ===== *)
theory Console
  imports Inode Devices Ring
begin

text \<open>
  The console (\<^verbatim>\<open>console.c\<close>, \<^verbatim>\<open>kbd.c\<close>, \<^verbatim>\<open>kbd.h\<close>): formatted output, the screen, the
  line-edited ring buffer of the keyboard, and the console's read and write functions.
  Where the C code copies to a buffer, \<open>put off bs\<close> stores the bytes \<open>bs\<close> at offset \<open>off\<close> of the
  buffer and the bytes are part of the result; where it copies from one, \<open>src off n\<close> fetches them.
\<close>

unbundle bit_operations_syntax

type_synonym sink = "uint \<Rightarrow> uchar list \<Rightarrow> unit kern"
type_synonym source = "uint \<Rightarrow> nat \<Rightarrow> uchar list kern"

abbreviation ch :: "char \<Rightarrow> int" where
  "ch c \<equiv> of_char c"

section \<open>The screen\<close>

definition BACKSPACE :: int where "BACKSPACE = 0x100"

definition scroll :: "int \<Rightarrow> ushort list \<Rightarrow> ushort list" where
  "scroll pos crt = (let crt = take (23 * 80) (drop 80 crt) @ drop (23 * 80) crt in
     take (nat pos) crt @ replicate (24 * 80 - nat pos) 0 @ drop (24 * 80) crt)"

definition cga_move :: "int \<Rightarrow> ushort list \<Rightarrow> int \<Rightarrow> ushort list \<times> int" where
  "cga_move c crt pos = (if c = ch CHR 0x0A then (crt, pos + 80 - pos mod 80)
     else if c = BACKSPACE then (crt, if pos > 0 then pos - 1 else pos)
     else (crt[nat pos := of_int (c mod 256) OR 0x0700], pos + 1))"

definition cgaputc :: "int \<Rightarrow> unit kern" where
  "cgaputc c = bnd (gets (\<lambda>s. cga_move c (k_crt s) (k_crtpos s))) (\<lambda>(crt, pos).
     if pos < 0 \<or> pos > 25 * 80 then panic ''pos under/overflow''
     else let (crt, pos) = (if pos div 80 \<ge> 24 then (scroll (pos - 80) crt, pos - 80) else (crt, pos)) in
       modify (\<lambda>s. s\<lparr>k_crt := crt[nat pos := 0x20 OR 0x0700], k_crtpos := pos\<rparr>))"

definition consputc :: "int \<Rightarrow> unit kern" where
  "consputc c = bnd (gets k_panicked) (\<lambda>p. if p then (\<lambda>s. Spin)
     else andthen (if c = BACKSPACE then andthen (uartputc 8) (andthen (uartputc (ch CHR '' '')) (uartputc 8))
       else uartputc c) (cgaputc c))"

section \<open>Formatted output\<close>

definition digit :: "nat \<Rightarrow> int" where
  "digit d = (if d < 10 then 48 + int d else 87 + int d)"

text \<open>The buffer of \<^verbatim>\<open>printint\<close>, least significant digit first.\<close>

fun int_digits :: "nat \<Rightarrow> nat \<Rightarrow> int list" where
  "int_digits base x = (if base < 2 \<or> x < base then [digit x] else digit (x mod base) # int_digits base (x div base))"

definition printint :: "uint \<Rightarrow> nat \<Rightarrow> bool \<Rightarrow> unit kern" where
  "printint xx base sign = (let neg = (sign \<and> sint xx < 0); x = (if neg then - xx else xx);
     buf = int_digits base (unat x) @ (if neg then [ch CHR ''-''] else []) in
     for_each (rev buf) consputc)"

text \<open>A string in memory, up to its terminating zero.\<close>

definition print_str :: "uint \<Rightarrow> unit kern" where
  "print_str a = loop (2 ^ 32) (\<lambda>a. bnd (load8 a) (\<lambda>c.
     if c = 0 then ret (Inr ()) else andthen (consputc (uint c)) (ret (Inl (a + 1))))) a"

text \<open>
  An argument word of \<^verbatim>\<open>cprintf\<close>; \<open>Str a cs\<close> is a pointer to the string \<open>cs\<close> at address \<open>a\<close>,
  any other pointer is a \<open>Word\<close> and \<^verbatim>\<open>%s\<close> reads the memory there.
\<close>

datatype carg = Word uint | Str uint "char list"

fun arg_word :: "carg \<Rightarrow> uint" where
  "arg_word (Word w) = w"
| "arg_word (Str a cs) = a"

fun print_arg :: "carg \<Rightarrow> unit kern" where
  "print_arg (Word w) = (if w = 0 then for_each (map ch ''(null)'') consputc else print_str w)"
| "print_arg (Str a cs) = (if a = 0 then for_each (map ch ''(null)'') consputc else for_each (map ch cs) consputc)"

fun fmt_loop :: "char list \<Rightarrow> (nat \<Rightarrow> carg) \<Rightarrow> nat \<Rightarrow> unit kern" where
  "fmt_loop [] argp k = ret ()"
| "fmt_loop [c] argp k = (if c \<noteq> CHR ''%'' then consputc (ch c) else ret ())"
| "fmt_loop (c # d # cs) argp k = (if c \<noteq> CHR ''%'' then andthen (consputc (ch c)) (fmt_loop (d # cs) argp k)
     else if d = CHR ''d'' then andthen (printint (arg_word (argp k)) 10 True) (fmt_loop cs argp (Suc k))
     else if d = CHR ''x'' \<or> d = CHR ''p'' then andthen (printint (arg_word (argp k)) 16 False) (fmt_loop cs argp (Suc k))
     else if d = CHR ''s'' then andthen (print_arg (argp k)) (fmt_loop cs argp (Suc k))
     else if d = CHR ''%'' then andthen (consputc (ch CHR ''%'')) (fmt_loop cs argp k)
     else andthen (consputc (ch CHR ''%'')) (andthen (consputc (ch d)) (fmt_loop cs argp k)))"

text \<open>\<open>argp\<close>: the words on the stack above the format argument.\<close>

definition cprintf :: "char list \<Rightarrow> (nat \<Rightarrow> carg) \<Rightarrow> unit kern" where
  "cprintf fmt argp = bnd (gets k_conslocking) (\<lambda>locking.
     andthen (if locking then acquire ConsLk else ret ())
     (andthen (fmt_loop fmt argp 0) (if locking then release ConsLk else ret ())))"

definition args :: "carg list \<Rightarrow> nat \<Rightarrow> carg" where
  "args as k = (if k < length as then as ! k else Word 0)"

text \<open>
  \<^verbatim>\<open>panic\<close> of \<^verbatim>\<open>console.c\<close>: what is printed before the CPU stops; the other CPUs stop at
  their next output. \<open>pcs\<close> are the return addresses on the stack.
\<close>

definition panic_output :: "char list \<Rightarrow> uint list \<Rightarrow> unit kern" where
  "panic_output msg pcs = andthen (modify (\<lambda>s. s\<lparr>k_cpu := (k_cpu s)\<lparr>c_IF := False\<rparr>, k_conslocking := False\<rparr>))
     (bnd (gets (\<lambda>s. c_id (k_cpu s))) (\<lambda>i.
      andthen (cprintf ''cpu%d: panic: '' (args [Word (of_nat i)])) (andthen (cprintf msg (args []))
      (andthen (cprintf [CHR 0x0A] (args [])) (andthen (for_each pcs (\<lambda>pc. cprintf '' %p'' (args [Word pc])))
      (modify (\<lambda>s. s\<lparr>k_panicked := True\<rparr>)))))))"

text \<open>\<^verbatim>\<open>getcallerpcs\<close> of \<^verbatim>\<open>spinlock.c\<close>: the chain of saved frame pointers.\<close>

fun callerpcs :: "memory \<Rightarrow> uint \<Rightarrow> nat \<Rightarrow> uint list" where
  "callerpcs m ebp 0 = []"
| "callerpcs m ebp (Suc n) = (if ebp = 0 \<or> ebp < KERNBASE \<or> ebp = 0xFFFFFFFF then replicate (Suc n) 0
     else ld32 m (ebp + 4) # callerpcs m (ld32 m ebp) n)"

definition getcallerpcs :: "uint \<Rightarrow> uint list kern" where
  "getcallerpcs v = gets (\<lambda>s. callerpcs (k_mem s) (v - 8) 10)"

definition state_name :: "procstate \<Rightarrow> string" where
  "state_name st = (case st of UNUSED \<Rightarrow> ''unused'' | EMBRYO \<Rightarrow> ''embryo'' | SLEEPING \<Rightarrow> ''sleep ''
     | RUNNABLE \<Rightarrow> ''runble'' | RUNNING \<Rightarrow> ''run   '' | ZOMBIE \<Rightarrow> ''zombie'')"

definition cname :: "uchar list \<Rightarrow> char list" where
  "cname bs = map (\<lambda>b. char_of (unat b)) (takeWhile (\<lambda>b. b \<noteq> 0) bs)"

definition procdump :: "unit kern" where
  "procdump = bnd (gets k_procs) (\<lambda>ps. for_each ps (\<lambda>p.
     if p_state p = UNUSED then ret ()
     else andthen (cprintf ''%d %s %s'' (args [Word (of_int (p_pid p)), Str KERNBASE (state_name (p_state p)),
           Str KERNBASE (cname (p_name p))]))
       (andthen (if p_state p = SLEEPING then bnd (getcallerpcs (cx_ebp (p_context p) + 8)) (\<lambda>pcs.
           for_each (takeWhile (\<lambda>pc. pc \<noteq> 0) pcs) (\<lambda>pc. cprintf '' %p'' (args [Word pc]))) else ret ())
       (cprintf [CHR 0x0A] (args [])))))"

section \<open>Console input\<close>

abbreviation upd_input :: "(cinput \<Rightarrow> cinput) \<Rightarrow> unit kern" where
  "upd_input f \<equiv> modify (\<lambda>s. s\<lparr>k_input := f (k_input s)\<rparr>)"

definition ctrl :: "char \<Rightarrow> int" where
  "ctrl x = ch x - ch CHR ''@''"

definition in_at :: "cinput \<Rightarrow> uint \<Rightarrow> uchar" where
  "in_at inp i = in_buf inp ! (unat i mod INPUT_BUF)"

text \<open>A character entered at the edit index, and the next one to read.\<close>

definition in_put :: "uchar \<Rightarrow> cinput \<Rightarrow> cinput" where
  "in_put b inp = inp\<lparr>in_buf := (in_buf inp)[unat (in_e inp) mod INPUT_BUF := b], in_e := in_e inp + 1\<rparr>"

definition in_unput :: "cinput \<Rightarrow> cinput" where
  "in_unput inp = inp\<lparr>in_e := in_e inp - 1\<rparr>"

definition in_front :: "cinput \<Rightarrow> uchar" where
  "in_front inp = in_at inp (in_r inp)"

definition in_take :: "cinput \<Rightarrow> cinput" where
  "in_take inp = inp\<lparr>in_r := in_r inp + 1\<rparr>"

definition kill_char :: "unit \<Rightarrow> (unit + unit) kern" where
  "kill_char x = bnd (gets k_input) (\<lambda>inp.
     if in_e inp \<noteq> in_w inp \<and> in_at inp (in_e inp - 1) \<noteq> 10 then
       andthen (upd_input in_unput) (andthen (consputc BACKSPACE) (ret (Inl ())))
     else ret (Inr ()))"

definition kill_line :: "unit kern" where
  "kill_line = bnd (gets k_input) (\<lambda>i. loop (Suc (unat (in_e i - in_w i))) kill_char ())"

text \<open>What one character does; the result says whether a process listing is due.\<close>

definition console_char :: "int \<Rightarrow> bool kern" where
  "console_char c =
     (if c = ctrl CHR ''P'' then ret True
      else if c = ctrl CHR ''U'' then andthen kill_line (ret False)
      else if c = ctrl CHR ''H'' \<or> c = 0x7F then bnd (gets k_input) (\<lambda>inp.
        if in_e inp \<noteq> in_w inp then andthen (upd_input in_unput)
          (andthen (consputc BACKSPACE) (ret False))
        else ret False)
      else bnd (gets k_input) (\<lambda>inp.
        if c \<noteq> 0 \<and> in_e inp - in_r inp < of_nat INPUT_BUF then
          let c = (if c = ch CHR 0x0D then ch CHR 0x0A else c) in
          andthen (upd_input (in_put (of_int c)))
          (andthen (consputc c) (bnd (gets k_input) (\<lambda>inp.
            if c = ch CHR 0x0A \<or> c = ctrl CHR ''D'' \<or> in_e inp = in_r inp + of_nat INPUT_BUF then
              andthen (upd_input (\<lambda>inp. inp\<lparr>in_w := in_e inp\<rparr>)) (andthen (wakeup ChInput) (ret False))
            else ret False)))
        else ret False))"

text \<open>\<open>gs\<close>: the successive calls of \<^verbatim>\<open>getc\<close>; the handler ends with the first negative result.\<close>

fun consoleintr_loop :: "int kern list \<Rightarrow> bool \<Rightarrow> bool kern" where
  "consoleintr_loop [] dump = (\<lambda>s. Spin)"
| "consoleintr_loop (g # gs) dump = bnd g (\<lambda>c. if c < 0 then ret dump
     else bnd (console_char c) (\<lambda>d. consoleintr_loop gs (dump \<or> d)))"

definition consoleintr :: "int kern list \<Rightarrow> unit kern" where
  "consoleintr gs = andthen (acquire ConsLk) (bnd (consoleintr_loop gs False) (\<lambda>dump.
     andthen (release ConsLk) (if dump then procdump else ret ())))"

text \<open>
  The loop of \<^verbatim>\<open>consoleread\<close> with the lock held and \<open>n\<close> bytes of \<open>target\<close> to go; \<open>acc\<close> has the
  bytes stored so far. A reader that finds no input goes to sleep and starts over from here.
\<close>

fun consoleread_loop :: "nat \<Rightarrow> sink \<Rightarrow> nat \<Rightarrow> nat \<Rightarrow> uchar list \<Rightarrow> (int \<times> uchar list) kern" where
  "consoleread_loop ip put target 0 acc = andthen (release ConsLk) (andthen (ilock ip) (ret (int target, acc)))"
| "consoleread_loop ip put target (Suc n) acc = bnd (gets k_input) (\<lambda>inp.
     if in_r inp = in_w inp then bnd curproc (\<lambda>p. bnd (gets (\<lambda>s. p_killed (k_procs s ! p))) (\<lambda>killed.
       if killed then andthen (release ConsLk) (andthen (ilock ip) (ret (-1, acc)))
       else block_on ChInput ConsLk))
     else let c = in_front inp in
       andthen (upd_input in_take)
       (if c = 4 then andthen (if Suc n < target then upd_input (\<lambda>inp. inp\<lparr>in_r := in_r inp - 1\<rparr>) else ret ())
          (andthen (release ConsLk) (andthen (ilock ip) (ret (int target - int (Suc n), acc))))
        else andthen (put (of_nat (length acc)) [c])
          (if c = 10 then andthen (release ConsLk) (andthen (ilock ip) (ret (int target - int n, acc @ [c])))
           else consoleread_loop ip put target n (acc @ [c]))))"

definition consoleread :: "nat \<Rightarrow> sink \<Rightarrow> int \<Rightarrow> (int \<times> uchar list) kern" where
  "consoleread ip put n = andthen (iunlock ip) (andthen (acquire ConsLk) (consoleread_loop ip put (nat n) (nat n) []))"

definition consolewrite :: "nat \<Rightarrow> source \<Rightarrow> int \<Rightarrow> int kern" where
  "consolewrite ip src n = andthen (iunlock ip) (andthen (acquire ConsLk)
     (andthen (for_each [0..<nat n] (\<lambda>i. bnd (src (of_nat i) 1) (\<lambda>bs. consputc (uint (bs ! 0)))))
     (andthen (release ConsLk) (andthen (ilock ip) (ret n)))))"

definition consoleinit :: "unit kern" where
  "consoleinit = andthen (initlock ConsLk ''console'')
     (andthen (modify (\<lambda>s. s\<lparr>k_consdev := True, k_conslocking := True\<rparr>))
     (andthen (picenable IRQ_KBD) (ioapicenable IRQ_KBD 0)))"

section \<open>The keyboard\<close>

definition SHIFT :: uint where "SHIFT = 1"
definition CTL :: uint where "CTL = 2"
definition ALT :: uint where "ALT = 4"
definition CAPSLOCK :: uint where "CAPSLOCK = 8"
definition NUMLOCK :: uint where "NUMLOCK = 16"
definition SCROLLLOCK :: uint where "SCROLLLOCK = 32"
definition E0ESC :: uint where "E0ESC = 64"

definition shiftcode :: "uint \<Rightarrow> uint" where
  "shiftcode k = (if k = 0x1D \<or> k = 0x9D then CTL else if k = 0x2A \<or> k = 0x36 then SHIFT
     else if k = 0x38 \<or> k = 0xB8 then ALT else 0)"

definition togglecode :: "uint \<Rightarrow> uint" where
  "togglecode k = (if k = 0x3A then CAPSLOCK else if k = 0x45 then NUMLOCK else if k = 0x46 then SCROLLLOCK else 0)"

text \<open>The rows of the three key maps; a key beyond the table and outside the list has no code.\<close>

definition key_table :: "string \<Rightarrow> (uint \<times> uchar) list \<Rightarrow> uint \<Rightarrow> uchar" where
  "key_table row ext k = (case map_of ext k of Some c \<Rightarrow> c
     | None \<Rightarrow> if unat k < length row then of_char (row ! unat k) else 0)"

definition key_ext :: "uchar \<Rightarrow> uchar \<Rightarrow> (uint \<times> uchar) list" where
  "key_ext enter slash = [(0x9C, enter), (0xB5, slash), (0xC8, 0xE2), (0xD0, 0xE3), (0xC9, 0xE6), (0xD1, 0xE7),
     (0xCB, 0xE4), (0xCD, 0xE5), (0x97, 0xE0), (0xCF, 0xE1), (0xD2, 0xE8), (0xD3, 0xE9)]"

definition normalmap :: "uint \<Rightarrow> uchar" where
  "normalmap = key_table ([CHR 0x00, CHR 0x1B] @ ''1234567890-='' @ [CHR 0x08, CHR 0x09] @ ''qwertyuiop[]''
     @ [CHR 0x0A, CHR 0x00] @ ''asdfghjkl;'' @ [CHR 0x27, CHR 0x60, CHR 0x00, CHR 0x5C] @ ''zxcvbnm,./'' @ [CHR 0x00]
     @ ''*'' @ [CHR 0x00] @ '' '' @ replicate 13 (CHR 0x00) @ ''789-456+1230.'') (key_ext 10 0x2F)"

definition shiftmap :: "uint \<Rightarrow> uchar" where
  "shiftmap = key_table ([CHR 0x00, CHR 0x1B] @ ''!@#$%^&*()_+'' @ [CHR 0x08, CHR 0x09] @ ''QWERTYUIOP{}''
     @ [CHR 0x0A, CHR 0x00] @ ''ASDFGHJKL:'' @ [CHR 0x22, CHR 0x7E, CHR 0x00] @ ''|ZXCVBNM<>?'' @ [CHR 0x00]
     @ ''*'' @ [CHR 0x00] @ '' '' @ replicate 13 (CHR 0x00) @ ''789-456+1230.'') (key_ext 10 0x2F)"

text \<open>Control characters: the letter minus 64; \<open>@\<close> stands for a key without a code.\<close>

definition ctlmap :: "uint \<Rightarrow> uchar" where
  "ctlmap k = (case map_of (key_ext 13 0xEF) k of Some c \<Rightarrow> c
     | None \<Rightarrow> if k = 0x1C then 13 else
       let row = ''@@@@@@@@@@@@@@@@QWERTYUIOP@@@@ASDFGHJKL@@@@'' @ [CHR 0x5C] @ ''ZXCVBNM@@/@@'' in
       if unat k < length row then of_char (row ! unat k) - 64 else 0)"

definition charcode :: "uint \<Rightarrow> uint \<Rightarrow> uchar" where
  "charcode m = (if m = 0 then normalmap else if m = 1 then shiftmap else ctlmap)"

text \<open>\<open>st\<close> and \<open>data\<close> are what the status port and the data port read.\<close>

definition kbdgetc :: "uchar \<Rightarrow> uchar \<Rightarrow> int kern" where
  "kbdgetc st data = (if st AND 1 = 0 then ret (-1)
     else let data = ucast data :: uint in
     bnd (gets k_kbdshift) (\<lambda>shift.
       if data = 0xE0 then andthen (modify (\<lambda>s. s\<lparr>k_kbdshift := shift OR E0ESC\<rparr>)) (ret 0)
       else if data AND 0x80 \<noteq> 0 then
         let data = (if shift AND E0ESC \<noteq> 0 then data else data AND 0x7F) in
         andthen (modify (\<lambda>s. s\<lparr>k_kbdshift := shift AND NOT (shiftcode data OR E0ESC)\<rparr>)) (ret 0)
       else let (data, shift) = (if shift AND E0ESC \<noteq> 0 then (data OR 0x80, shift AND NOT E0ESC) else (data, shift));
           shift = (shift OR shiftcode data) XOR togglecode data;
           c = uint (charcode (shift AND (CTL OR SHIFT)) data);
           c = (if shift AND CAPSLOCK \<noteq> 0 then
                  if ch CHR ''a'' \<le> c \<and> c \<le> ch CHR ''z'' then c + (ch CHR ''A'' - ch CHR ''a'')
                  else if ch CHR ''A'' \<le> c \<and> c \<le> ch CHR ''Z'' then c + (ch CHR ''a'' - ch CHR ''A'') else c
                else c) in
         andthen (modify (\<lambda>s. s\<lparr>k_kbdshift := shift\<rparr>)) (ret c)))"

definition kbdintr :: "(uchar \<times> uchar) list \<Rightarrow> unit kern" where
  "kbdintr reads = consoleintr (map (\<lambda>(st, d). kbdgetc st d) reads)"

definition uartintr :: "(uchar \<times> uchar) list \<Rightarrow> unit kern" where
  "uartintr reads = consoleintr (map (\<lambda>(lsr, d). uartgetc lsr d) reads)"

section \<open>The screen stays in bounds\<close>

text \<open>The cursor is on one of the first 24 rows; the text memory has 25 rows of 80.\<close>

definition screen_ok :: "kernel \<Rightarrow> bool" where
  "screen_ok s \<longleftrightarrow> 0 \<le> k_crtpos s \<and> k_crtpos s < 24 * 80 \<and> length (k_crt s) = 25 * 80"

lemma length_scroll: "length crt = 2000 \<Longrightarrow> 0 \<le> pos \<Longrightarrow> pos \<le> 1920 \<Longrightarrow> length (scroll pos crt) = 2000"
  by (simp add: scroll_def Let_def)

lemma cgaputc_screen:
  assumes "screen_ok s"
  obtains crt pos where "cgaputc c s = Ret () (s\<lparr>k_crt := crt, k_crtpos := pos\<rparr>)"
    "0 \<le> pos" "pos < 1920" "length crt = 2000"
proof -
  have p: "0 \<le> k_crtpos s" "k_crtpos s < 1920" "length (k_crt s) = 2000"
    using assms by (auto simp: screen_ok_def)
  have "k_crtpos s div 80 \<le> 23" using p(2) by auto
  then have r: "k_crtpos s - k_crtpos s mod 80 \<le> 1840" by (simp add: minus_mod_eq_mult_div)
  obtain crt pos where e: "cga_move c (k_crt s) (k_crtpos s) = (crt, pos)"
    by (metis surj_pair)
  have q: "0 \<le> pos" "pos \<le> 1920" "length crt = 2000"
    using e p r by (auto simp: cga_move_def split: if_splits)
  show ?thesis
  proof (cases "pos = 1920")
    case True
    show ?thesis
    proof (rule that)
      show "cgaputc c s = Ret () (s\<lparr>k_crt := (scroll (pos - 80) crt)[nat (pos - 80) := 0x20 OR 0x0700], k_crtpos := pos - 80\<rparr>)"
        using True by (simp add: cgaputc_def e)
    qed (use q True in \<open>simp_all add: length_scroll\<close>)
  next
    case False
    show ?thesis
    proof (rule that)
      show "cgaputc c s = Ret () (s\<lparr>k_crt := crt[nat pos := 0x20 OR 0x0700], k_crtpos := pos\<rparr>)"
        using False q by (simp add: cgaputc_def e)
    qed (use q False in simp_all)
  qed
qed

text \<open>What one call of \<open>consputc\<close> sends to the serial line.\<close>

definition uart_bytes :: "int \<Rightarrow> int list" where
  "uart_bytes c = (if c = BACKSPACE then [8, 32, 8] else [c mod 256])"

definition console_sent :: "int list \<Rightarrow> kernel \<Rightarrow> kernel \<Rightarrow> bool" where
  "console_sent bs s t \<longleftrightarrow> screen_ok t \<and> (\<exists>crt pos. t = s\<lparr>k_crt := crt, k_crtpos := pos,
     k_out := k_out s @ (if k_uart s then bs else [])\<rparr>)"

lemma consputc_sent:
  assumes "screen_ok s" "\<not> k_panicked s"
  obtains t where "consputc c s = Ret () t" "console_sent (uart_bytes c) s t"
proof -
  let ?u = "s\<lparr>k_out := k_out s @ (if k_uart s then uart_bytes c else [])\<rparr>"
  have "screen_ok ?u" using assms by (simp add: screen_ok_def)
  then obtain crt pos where g: "cgaputc c ?u = Ret () (?u\<lparr>k_crt := crt, k_crtpos := pos\<rparr>)"
      "0 \<le> pos" "pos < 1920" "length crt = 2000"
    by (rule cgaputc_screen)
  show ?thesis
  proof (rule that)
    show "consputc c s = Ret () (?u\<lparr>k_crt := crt, k_crtpos := pos\<rparr>)"
      using assms(2) g(1) by (cases "k_uart s") (auto simp: consputc_def uart_bytes_def uartputc_def BACKSPACE_def)
    show "console_sent (uart_bytes c) s (?u\<lparr>k_crt := crt, k_crtpos := pos\<rparr>)"
      using g by (auto simp: console_sent_def screen_ok_def intro!: exI [of _ crt] exI [of _ pos])
  qed
qed

lemma console_sent_refl: "screen_ok s \<Longrightarrow> console_sent [] s s"
  by (auto simp: console_sent_def intro!: exI [of _ "k_crt s"] exI [of _ "k_crtpos s"])

lemma console_sent_trans:
  assumes "console_sent bs s t" "console_sent cs t u"
  shows "console_sent (bs @ cs) s u"
proof -
  obtain crt pos where "u = t\<lparr>k_crt := crt, k_crtpos := pos, k_out := k_out t @ (if k_uart t then cs else [])\<rparr>"
    using assms(2) unfolding console_sent_def by blast
  moreover obtain crt' pos' where "t = s\<lparr>k_crt := crt', k_crtpos := pos', k_out := k_out s @ (if k_uart s then bs else [])\<rparr>"
    using assms(1) unfolding console_sent_def by blast
  ultimately have "u = s\<lparr>k_crt := crt, k_crtpos := pos, k_out := k_out s @ (if k_uart s then bs @ cs else [])\<rparr>"
    by simp
  then show ?thesis using assms(2) unfolding console_sent_def by blast
qed

lemma console_sent_panicked: "console_sent bs s t \<Longrightarrow> k_panicked t = k_panicked s"
  by (auto simp: console_sent_def)

lemma console_sent_screen: "console_sent bs s t \<Longrightarrow> screen_ok t"
  by (simp add: console_sent_def)

lemma consputs_sent:
  assumes "screen_ok s" "\<not> k_panicked s"
  shows "\<exists>t. for_each cs consputc s = Ret () t \<and> console_sent (concat (map uart_bytes cs)) s t"
  using assms
proof (induction cs arbitrary: s)
  case Nil
  then show ?case by (auto intro: console_sent_refl)
next
  case (Cons c cs)
  obtain t where t: "consputc c s = Ret () t" "console_sent (uart_bytes c) s t"
    using Cons.prems by (rule consputc_sent)
  obtain u where "for_each cs consputc t = Ret () u" "console_sent (concat (map uart_bytes cs)) t u"
    using Cons.IH [of t] t(2) Cons.prems(2) by (auto simp: console_sent_panicked dest: console_sent_screen)
  then show ?case using t by (auto intro: console_sent_trans)
qed

section \<open>Printing integers\<close>

text \<open>Reading back: digits of a base, most significant first, after an optional minus sign.\<close>

definition undigit :: "int \<Rightarrow> int" where
  "undigit c = (if c < 58 then c - 48 else c - 87)"

definition read_digits :: "int \<Rightarrow> int list \<Rightarrow> int" where
  "read_digits base cs = foldl (\<lambda>v c. v * base + undigit c) 0 cs"

definition read_int :: "int \<Rightarrow> int list \<Rightarrow> int" where
  "read_int base cs = (if cs \<noteq> [] \<and> hd cs = 45 then - read_digits base (tl cs) else read_digits base cs)"

declare int_digits.simps [simp del]

lemma undigit_digit: "d < 16 \<Longrightarrow> undigit (digit d) = int d"
  by (simp add: undigit_def digit_def)

lemma digit_range: "d < 16 \<Longrightarrow> 48 \<le> digit d \<and> digit d \<le> 102"
  by (simp add: digit_def)

lemma read_digits_snoc: "read_digits base (cs @ [c]) = read_digits base cs * base + undigit c"
  by (simp add: read_digits_def)

lemma int_digits_read:
  assumes "2 \<le> base" "base \<le> 16"
  shows "read_digits (int base) (rev (int_digits base x)) = int x"
  using assms
proof (induction base x rule: int_digits.induct)
  case (1 base x)
  show ?case
  proof (cases "x < base")
    case True
    then show ?thesis using "1.prems" by (simp add: int_digits.simps [of base x] read_digits_def undigit_digit)
  next
    case False
    have "x mod base < 16" using "1.prems" mod_less_divisor [of base x] by linarith
    then show ?thesis
      using False "1" by (simp add: int_digits.simps [of base x] read_digits_snoc undigit_digit
          flip: of_nat_mult of_nat_add)
  qed
qed

lemma int_digits_range: "2 \<le> base \<Longrightarrow> base \<le> 16 \<Longrightarrow> c \<in> set (int_digits base x) \<Longrightarrow> 48 \<le> c \<and> c \<le> 102"
proof (induction base x rule: int_digits.induct)
  case (1 base x)
  have "x mod base < 16" if "2 \<le> base" using "1.prems" mod_less_divisor [of base x] that by linarith
  then show ?case
    using "1" by (auto simp: int_digits.simps [of base x] digit_range split: if_splits)
qed

lemma length_int_digits: "2 \<le> base \<Longrightarrow> x < base ^ n \<Longrightarrow> 0 < n \<Longrightarrow> length (int_digits base x) \<le> n"
proof (induction n arbitrary: x)
  case (Suc n)
  show ?case
  proof (cases "x < base")
    case False
    then have "0 < n" using Suc.prems by (cases n) auto
    moreover have "x div base < base ^ n" using Suc.prems by (simp add: less_mult_imp_div_less mult.commute)
    ultimately show ?thesis using False Suc by (simp add: int_digits.simps [of base x])
  qed (simp add: int_digits.simps [of base x])
qed simp

lemma int_digits_nonempty: "int_digits base x \<noteq> []"
  by (simp add: int_digits.simps [of base x])

lemma read_int_digits:
  assumes "2 \<le> base" "base \<le> 16"
  shows "read_int (int base) (rev (int_digits base x)) = int x"
    "read_int (int base) (45 # rev (int_digits base x)) = - int x"
proof -
  have "hd (rev (int_digits base x)) \<in> set (int_digits base x)"
    using int_digits_nonempty [of base x] hd_in_set [of "rev (int_digits base x)"] by simp
  then have "hd (rev (int_digits base x)) \<noteq> 45" using int_digits_range assms by fastforce
  then show "read_int (int base) (rev (int_digits base x)) = int x"
    using assms by (simp add: read_int_def int_digits_read)
  show "read_int (int base) (45 # rev (int_digits base x)) = - int x"
    using assms by (simp add: read_int_def int_digits_read)
qed

lemma uart_bytes_plain: "\<forall>c\<in>set cs. 0 \<le> c \<and> c < 256 \<Longrightarrow> concat (map uart_bytes cs) = cs"
  by (induction cs) (auto simp: uart_bytes_def BACKSPACE_def)

lemma uint_neg:
  fixes w :: uint
  assumes "sint w < 0"
  shows "uint (- w) = - sint w"
proof -
  have "uint (- w) = uint (of_int (- sint w) :: uint)" by simp
  also have "\<dots> = (- sint w) mod 2 ^ 32" by (simp only: uint_word_of_int) simp
  also have "\<dots> = - sint w" using assms sint_greater_eq [of w] by (intro mod_pos_pos_trivial) auto
  finally show ?thesis .
qed

lemma sint_nonneg:
  fixes w :: uint
  assumes "\<not> sint w < 0"
  shows "uint w = sint w"
proof -
  have "uint w = uint (of_int (sint w) :: uint)" by simp
  also have "\<dots> = sint w mod 2 ^ 32" by (simp only: uint_word_of_int) simp
  also have "\<dots> = sint w" using assms sint_less [of w] by (intro mod_pos_pos_trivial) auto
  finally show ?thesis .
qed

text \<open>
  C32: \<^verbatim>\<open>printint\<close> prints every 32-bit value, the most negative one included, as an integer
  that reads back to it: in decimal with a sign or unsigned in hexadecimal. It fills at
  most 11 bytes of its 16-byte buffer, and the cursor and the text memory stay in bounds.
\<close>

theorem printint_reads_back:
  assumes "base = 10 \<or> base = 16" "screen_ok s" "\<not> k_panicked s" "k_uart s"
  shows "\<exists>out t. printint xx base sign s = Ret () t \<and> k_out t = k_out s @ out \<and> length out \<le> 11
    \<and> read_int (int base) out = (if sign then sint xx else uint xx) \<and> screen_ok t"
proof -
  define neg where "neg \<longleftrightarrow> sign \<and> sint xx < 0"
  define x where "x = (if neg then - xx else xx)"
  define out where "out = (if neg then [45] else []) @ rev (int_digits base (unat x))"
  have b: "2 \<le> base" "base \<le> 16" using assms(1) by auto
  have "printint xx base sign s = for_each out consputc s"
    by (auto simp: printint_def out_def x_def neg_def Let_def)
  moreover obtain t where t: "for_each out consputc s = Ret () t" "console_sent (concat (map uart_bytes out)) s t"
    using consputs_sent [OF assms(2,3)] by blast
  moreover have "\<forall>c\<in>set out. 0 \<le> c \<and> c < 256"
    using int_digits_range [OF b] by (force simp: out_def)
  then have "concat (map uart_bytes out) = out" by (rule uart_bytes_plain)
  moreover have "length (int_digits base (unat x)) \<le> 10"
    using assms(1) unsigned_less [of x, where ?'a = nat] by (auto intro!: length_int_digits)
  moreover have "int (unat x) = (if neg then - sint xx else if sign then sint xx else uint xx)"
    by (auto simp: x_def neg_def uint_neg sint_nonneg)
  ultimately show ?thesis
    using assms(4) read_int_digits [OF b] by (auto simp: console_sent_def out_def neg_def)
qed

definition console_start :: kernel where
  "console_start = boot\<lparr>k_uart := True, k_crt := replicate 2000 0, k_crtpos := 1919\<rparr>"

theorem printint_reads_back_witness:
  "\<exists>out t. printint 0x80000000 10 True console_start = Ret () t \<and> k_out t = k_out console_start @ out
     \<and> read_int 10 out = - 2147483648 \<and> screen_ok t"
proof -
  have "screen_ok console_start" "\<not> k_panicked console_start" "k_uart console_start"
    by (simp_all add: screen_ok_def console_start_def boot_def)
  then show ?thesis
    using printint_reads_back [of 10 console_start "0x80000000" True] by auto
qed

section \<open>Line editing\<close>

definition input_queue :: "cinput \<Rightarrow> uchar list \<Rightarrow> bool" where
  "input_queue inp q \<longleftrightarrow> length (in_buf inp) = INPUT_BUF \<and> ring (in_buf inp) (in_r inp) (in_e inp) q"

interpretation iq: bounded_queue input_queue INPUT_BUF in_put in_front in_take
proof
  fix inp q b
  assume "input_queue inp q" "length q < INPUT_BUF"
  then show "input_queue (in_put b inp) (q @ [b])"
    using ring_put [of "in_buf inp" "in_r inp" "in_e inp" q b] by (simp add: input_queue_def in_put_def)
next
  fix inp b q
  assume a: "input_queue inp (b # q)"
  show "in_front inp = b"
    using ring_first [of "in_buf inp" "in_r inp" "in_e inp" b q] a by (simp add: input_queue_def in_front_def in_at_def)
  show "input_queue (in_take inp) q"
    using ring_take [of "in_buf inp" "in_r inp" "in_e inp" b q] a by (simp add: input_queue_def in_take_def)
next
  fix inp q
  assume "input_queue inp q"
  then show "length q \<le> INPUT_BUF" by (simp add: input_queue_def ring_def)
qed

text \<open>
  \<open>line_view inp cs l\<close>: the bytes \<open>cs\<close> are ready for readers, \<open>l\<close> is the line being edited.
\<close>

definition line_view :: "cinput \<Rightarrow> uchar list \<Rightarrow> uchar list \<Rightarrow> bool" where
  "line_view inp cs l \<longleftrightarrow> input_queue inp (cs @ l) \<and> in_w inp = in_r inp + of_nat (length cs) \<and> 10 \<notin> set l"

text \<open>What a character should do to the two lists.\<close>

definition line_edit :: "int \<Rightarrow> uchar list \<times> uchar list \<Rightarrow> uchar list \<times> uchar list" where
  "line_edit c x = (case x of (cs, l) \<Rightarrow>
     if c = 16 then (cs, l) else if c = 21 then (cs, []) else if c = 8 \<or> c = 127 then (cs, butlast l)
     else if c = 0 \<or> length cs + length l \<ge> INPUT_BUF then (cs, l)
     else let b = (if c = 13 then 10 else of_int c) in
       if b = 10 \<or> b = 4 \<or> length cs + length l + 1 = INPUT_BUF then (cs @ l @ [b], []) else (cs, l @ [b]))"

text \<open>
  Only the console changes and, when \<open>woken\<close>, the processes sleeping on its input.
\<close>

definition console_step :: "bool \<Rightarrow> kernel \<Rightarrow> kernel \<Rightarrow> bool" where
  "console_step woken s t \<longleftrightarrow> screen_ok t \<and> (\<exists>i crt pos out. t = s\<lparr>k_input := i,
     k_procs := (if woken then wakeup1_procs ChInput (k_procs s) else k_procs s), k_crt := crt, k_crtpos := pos, k_out := out\<rparr>)"

lemma wakeup1_procs_twice: "wakeup1_procs c (wakeup1_procs c ps) = wakeup1_procs c ps"
  by (simp add: wakeup1_procs_def)

lemma console_step_refl: "screen_ok s \<Longrightarrow> console_step False s s"
  unfolding console_step_def
  by (intro conjI exI [of _ "k_input s"] exI [of _ "k_crt s"] exI [of _ "k_crtpos s"] exI [of _ "k_out s"]) simp_all

lemma console_step_trans:
  assumes "console_step a s t" "console_step b t u"
  shows "console_step (a \<or> b) s u"
proof -
  obtain i crt pos out where t: "t = s\<lparr>k_input := i,
      k_procs := (if a then wakeup1_procs ChInput (k_procs s) else k_procs s), k_crt := crt, k_crtpos := pos, k_out := out\<rparr>"
    using assms(1) unfolding console_step_def by blast
  obtain i crt pos out where "u = t\<lparr>k_input := i,
      k_procs := (if b then wakeup1_procs ChInput (k_procs t) else k_procs t), k_crt := crt, k_crtpos := pos, k_out := out\<rparr>"
    using assms(2) unfolding console_step_def by blast
  then have "u = s\<lparr>k_input := i, k_procs := (if a \<or> b then wakeup1_procs ChInput (k_procs s) else k_procs s),
      k_crt := crt, k_crtpos := pos, k_out := out\<rparr>"
    using t by (simp add: wakeup1_procs_twice)
  then show ?thesis using assms(2) unfolding console_step_def by blast
qed

lemma console_step_fields:
  assumes "console_step a s t"
  shows "screen_ok t" "k_panicked t = k_panicked s" "lock_avail l t = lock_avail l s" "quiet t = quiet s"
    "k_cpu t = k_cpu s" "lock_free l t = lock_free l s"
proof -
  obtain i crt pos out where "t = s\<lparr>k_input := i,
      k_procs := (if a then wakeup1_procs ChInput (k_procs s) else k_procs s), k_crt := crt, k_crtpos := pos, k_out := out\<rparr>"
    using assms unfolding console_step_def by blast
  then show "k_panicked t = k_panicked s" "lock_avail l t = lock_avail l s" "quiet t = quiet s"
    "k_cpu t = k_cpu s" "lock_free l t = lock_free l s" by simp_all
qed (use assms in \<open>simp add: console_step_def\<close>)

lemma consputc_step:
  assumes "screen_ok s" "\<not> k_panicked s"
  obtains t where "consputc c (s\<lparr>k_input := i\<rparr>) = Ret () t" "k_input t = i" "console_step False s t"
proof -
  have "screen_ok (s\<lparr>k_input := i\<rparr>)" "\<not> k_panicked (s\<lparr>k_input := i\<rparr>)" using assms by (simp_all add: screen_ok_def)
  then obtain t where t: "consputc c (s\<lparr>k_input := i\<rparr>) = Ret () t" "console_sent (uart_bytes c) (s\<lparr>k_input := i\<rparr>) t"
    by (rule consputc_sent)
  then obtain crt pos where e: "t = s\<lparr>k_input := i, k_crt := crt, k_crtpos := pos,
      k_out := k_out s @ (if k_uart s then uart_bytes c else [])\<rparr>"
    by (auto simp: console_sent_def)
  have "t = s\<lparr>k_input := i, k_procs := (if False then wakeup1_procs ChInput (k_procs s) else k_procs s),
      k_crt := crt, k_crtpos := pos, k_out := k_out s @ (if k_uart s then uart_bytes c else [])\<rparr>"
    using e by simp
  then have "console_step False s t"
    using console_sent_screen [OF t(2)] unfolding console_step_def by blast
  then show ?thesis using that t(1) e by simp
qed

lemma line_view_edit_empty:
  assumes "line_view inp cs l"
  shows "in_e inp = in_w inp \<longleftrightarrow> l = []"
proof -
  have r: "ring (in_buf inp) (in_r inp) (in_e inp) (cs @ l)" using assms by (simp add: line_view_def input_queue_def)
  then have "in_e inp = in_w inp + of_nat (length l)" using assms by (simp add: ring_def line_view_def)
  then have "in_e inp = in_w inp \<longleftrightarrow> (of_nat (length l) :: uint) = 0" by simp
  moreover have "length l < 2 ^ 32" using ring_length [OF r] by simp
  then have "unat (of_nat (length l) :: uint) = length l" by (simp add: unat_of_nat take_bit_nat_eq_self)
  then have "(of_nat (length l) :: uint) = 0 \<longleftrightarrow> length l = 0"
    using unsigned_eq_0_iff [where ?'a = nat, of "of_nat (length l) :: uint"] by argo
  ultimately show ?thesis by (simp only: length_0_conv)
qed

lemma line_view_unput:
  assumes "line_view inp cs (l @ [b])"
  shows "in_at inp (in_e inp - 1) = b" "line_view (in_unput inp) cs l"
  using ring_unput [of "in_buf inp" "in_r inp" "in_e inp" "cs @ l" b] assms
  by (auto simp: line_view_def input_queue_def in_at_def in_unput_def)

lemma line_view_put:
  assumes "line_view inp cs l" "length cs + length l < INPUT_BUF"
  shows "input_queue (in_put b inp) (cs @ l @ [b])" "in_w (in_put b inp) = in_r inp + of_nat (length cs)"
    "in_r (in_put b inp) = in_r inp"
  using iq.view_put [of inp "cs @ l" b] assms by (auto simp: line_view_def in_put_def)

lemma line_view_count:
  assumes "line_view inp cs l"
  shows "unat (in_e inp - in_w inp) = length l"
proof -
  have r: "ring (in_buf inp) (in_r inp) (in_e inp) (cs @ l)" using assms by (simp add: line_view_def input_queue_def)
  then have "in_e inp - in_w inp = of_nat (length l)" using assms by (simp add: ring_def line_view_def)
  then show ?thesis using ring_length [OF r] by (simp add: unat_of_nat take_bit_nat_eq_self)
qed

lemma kill_char_loop:
  assumes "line_view (k_input s) cs l" "screen_ok s" "\<not> k_panicked s"
  shows "\<exists>t. loop (Suc (length l)) kill_char () s = Ret () t \<and> line_view (k_input t) cs [] \<and> console_step False s t"
  using assms
proof (induction l arbitrary: s rule: rev_induct)
  case Nil
  then have "kill_char () s = Ret (Inr ()) s" by (simp add: kill_char_def line_view_edit_empty)
  then show ?case using Nil by (auto intro: console_step_refl)
next
  case (snoc b l)
  note v = line_view_unput [OF snoc.prems(1)]
  have "b \<noteq> 10" using snoc.prems(1) by (auto simp: line_view_def)
  moreover have "in_e (k_input s) \<noteq> in_w (k_input s)" using line_view_edit_empty [OF snoc.prems(1)] by simp
  moreover obtain t where t: "consputc BACKSPACE (s\<lparr>k_input := in_unput (k_input s)\<rparr>) = Ret () t"
      "k_input t = in_unput (k_input s)" "console_step False s t"
    using consputc_step [OF snoc.prems(2,3)] by blast
  ultimately have r: "kill_char () s = Ret (Inl ()) t" using v(1) by (simp add: kill_char_def)
  obtain u where "loop (Suc (length l)) kill_char () t = Ret () u" "line_view (k_input u) cs []" "console_step False t u"
    using snoc.IH [of t] t(2) v(2) snoc.prems(3) console_step_fields [OF t(3)] by auto
  then show ?case using r console_step_trans [OF t(3)] by auto
qed

lemma kill_line_run:
  assumes "line_view (k_input s) cs l" "screen_ok s" "\<not> k_panicked s"
  shows "\<exists>t. kill_line s = Ret () t \<and> line_view (k_input t) cs [] \<and> console_step False s t"
  using kill_char_loop [OF assms] line_view_count [OF assms(1)] by (simp add: kill_line_def del: loop.simps)

lemma erase_char_run:
  assumes "line_view (k_input s) cs l" "screen_ok s" "\<not> k_panicked s" "l \<noteq> []"
  shows "\<exists>t. andthen (upd_input in_unput) (andthen (consputc BACKSPACE) (ret False)) s = Ret False t
    \<and> line_view (k_input t) cs (butlast l) \<and> console_step False s t"
proof -
  obtain t where t: "consputc BACKSPACE (s\<lparr>k_input := in_unput (k_input s)\<rparr>) = Ret () t"
      "k_input t = in_unput (k_input s)" "console_step False s t"
    using consputc_step [OF assms(2,3)] by blast
  moreover have "line_view (in_unput (k_input s)) cs (butlast l)"
    using line_view_unput [of "k_input s" cs "butlast l" "last l"] assms by simp
  ultimately show ?thesis by auto
qed

lemma line_commit:
  assumes "line_view inp cs l" "length cs + length l < INPUT_BUF"
  shows "line_view ((in_put b inp)\<lparr>in_w := in_e (in_put b inp)\<rparr>) (cs @ l @ [b]) []"
proof -
  have q: "input_queue (in_put b inp) (cs @ l @ [b])" by (rule line_view_put [OF assms])
  then have "in_e (in_put b inp) = in_r (in_put b inp) + of_nat (length (cs @ l @ [b]))"
    unfolding input_queue_def ring_def by blast
  then show ?thesis using q by (simp add: line_view_def input_queue_def)
qed

lemma line_append:
  assumes "line_view inp cs l" "length cs + length l < INPUT_BUF" "b \<noteq> 10"
  shows "line_view (in_put b inp) cs (l @ [b])"
  using line_view_put [OF assms(1,2)] assms(1,3) by (simp add: line_view_def)

lemma byte_of_int: "0 \<le> c \<Longrightarrow> c < 256 \<Longrightarrow> uint (of_int c :: uchar) = c"
  by (simp add: uint_word_of_int)

lemma byte_eq_iff:
  assumes "0 \<le> c" "c < 256"
  shows "(of_int c :: uchar) = 10 \<longleftrightarrow> c = 10" "(of_int c :: uchar) = 4 \<longleftrightarrow> c = 4"
  using byte_of_int [OF assms] by auto

lemma input_room_iff:
  assumes "input_queue inp q"
  shows "in_e inp - in_r inp < of_nat INPUT_BUF \<longleftrightarrow> length q < INPUT_BUF"
    "in_e inp = in_r inp + of_nat INPUT_BUF \<longleftrightarrow> length q = INPUT_BUF"
proof -
  have r: "ring (in_buf inp) (in_r inp) (in_e inp) q" "length (in_buf inp) = INPUT_BUF"
    using assms by (simp_all add: input_queue_def)
  show "in_e inp - in_r inp < of_nat INPUT_BUF \<longleftrightarrow> length q < INPUT_BUF"
    using ring_count [OF r(1)] by (simp add: word_less_nat_alt INPUT_BUF_def)
  show "in_e inp = in_r inp + of_nat INPUT_BUF \<longleftrightarrow> length q = INPUT_BUF"
    using ring_full_iff [OF r(1)] r(2) by simp
qed

text \<open>The branch of \<open>console_char\<close> that stores a character.\<close>

lemma insert_char_run:
  assumes v: "line_view (k_input s) cs l" and s: "screen_ok s" "\<not> k_panicked s" "lock_avail PtableLk s"
    and room: "length cs + length l < INPUT_BUF" and c: "0 \<le> c" "c < 256"
    and b: "b = of_int c" and w: "w \<longleftrightarrow> c = 10 \<or> c = 4 \<or> length cs + length l + 1 = INPUT_BUF"
  shows "\<exists>t. andthen (upd_input (in_put b)) (andthen (consputc c) (bnd (gets k_input) (\<lambda>inp.
      if c = ch CHR 0x0A \<or> c = ctrl CHR ''D'' \<or> in_e inp = in_r inp + of_nat INPUT_BUF
      then andthen (upd_input (\<lambda>inp. inp\<lparr>in_w := in_e inp\<rparr>)) (andthen (wakeup ChInput) (ret False)) else ret False))) s
      = Ret False t \<and> console_step w s t
    \<and> (if w then line_view (k_input t) (cs @ l @ [b]) [] else line_view (k_input t) cs (l @ [b]))"
proof -
  obtain t where t: "consputc c (s\<lparr>k_input := in_put b (k_input s)\<rparr>) = Ret () t"
      "k_input t = in_put b (k_input s)" "console_step False s t"
    using consputc_step [OF s(1,2)] by blast
  have "input_queue (in_put b (k_input s)) (cs @ l @ [b])" by (rule line_view_put [OF v room])
  then have w': "w \<longleftrightarrow> c = 10 \<or> c = 4 \<or> in_e (k_input t) = in_r (k_input t) + of_nat INPUT_BUF"
    using input_room_iff(2) w t(2) by auto
  have tc: "ch CHR 0x0A = 10" "ctrl CHR ''D'' = 4" by (simp_all add: ctrl_def)
  show ?thesis
  proof (cases w)
    case True
    let ?i = "(k_input t)\<lparr>in_w := in_e (k_input t)\<rparr>"
    let ?u = "t\<lparr>k_input := ?i, k_procs := wakeup1_procs ChInput (k_procs t)\<rparr>"
    have "lock_avail PtableLk (t\<lparr>k_input := ?i\<rparr>)" using s(3) console_step_fields [OF t(3)] by simp
    then have "wakeup ChInput (t\<lparr>k_input := ?i\<rparr>) = Ret () ?u" by (simp add: wakeup_eq)
    moreover have "screen_ok ?u" using console_step_fields(1) [OF t(3)] by (simp add: screen_ok_def)
    then have "console_step True t ?u"
      unfolding console_step_def
      by (intro conjI exI [of _ ?i] exI [of _ "k_crt t"] exI [of _ "k_crtpos t"] exI [of _ "k_out t"]) simp_all
    then have "console_step w s ?u" using console_step_trans [OF t(3)] True by fastforce
    moreover have "line_view (k_input ?u) (cs @ l @ [b]) []" using line_commit [OF v room, of b] t(2) by simp
    ultimately show ?thesis
      using True w' t(1) by (intro exI [of _ ?u]) (simp add: tc)
  next
    case False
    then have "c \<noteq> 10" using w by simp
    then have "b \<noteq> 10" using byte_eq_iff [OF c] b by simp
    then have "line_view (k_input t) cs (l @ [b])" using line_append [OF v room] t(2) by simp
    then show ?thesis using False w' t(1,3) by (intro exI [of _ t]) (simp add: tc)
  qed
qed

lemma console_char_edits:
  assumes v: "line_view (k_input s) cs l" and s: "screen_ok s" "\<not> k_panicked s" "lock_avail PtableLk s"
    and c: "0 \<le> c" "c < 256"
  shows "\<exists>t w. console_char c s = Ret (c = 16) t \<and> line_view (k_input t) (fst (line_edit c (cs, l))) (snd (line_edit c (cs, l)))
    \<and> console_step w s t \<and> (w \<longleftrightarrow> fst (line_edit c (cs, l)) \<noteq> cs)"
proof -
  have tc: "ctrl CHR ''P'' = 16" "ctrl CHR ''U'' = 21" "ctrl CHR ''H'' = 8" "ch CHR 0x0D = 13" "ch CHR 0x0A = 10"
    by (simp_all add: ctrl_def)
  consider "c = 16" | "c = 21" | "c = 8 \<or> c = 127" | "c = 0 \<or> length cs + length l \<ge> INPUT_BUF" "c \<notin> {16, 21, 8, 127}"
    | "c \<noteq> 0" "length cs + length l < INPUT_BUF" "c \<notin> {16, 21, 8, 127}" by force
  then show ?thesis
  proof cases
    case 1
    then show ?thesis using v s console_step_refl by (auto simp: console_char_def tc line_edit_def)
  next
    case 2
    then show ?thesis using kill_line_run [OF v s(1,2)] by (auto simp: console_char_def tc line_edit_def)
  next
    case 3
    have e: "line_edit c (cs, l) = (cs, butlast l)" using 3 by (auto simp: line_edit_def)
    have run: "console_char c s = (if l \<noteq> [] then andthen (upd_input in_unput) (andthen (consputc BACKSPACE) (ret False)) s
        else Ret False s)"
      using 3 line_view_edit_empty [OF v] unfolding console_char_def tc by auto
    show ?thesis
    proof (cases "l = []")
      case True
      then show ?thesis using run 3 v console_step_refl [OF s(1)] unfolding e by auto
    next
      case False
      then show ?thesis using run 3 erase_char_run [OF v s(1,2) False] unfolding e by auto
    qed
  next
    case 4
    have e: "line_edit c (cs, l) = (cs, l)" using 4 by (auto simp: line_edit_def)
    have "\<not> (c \<noteq> 0 \<and> in_e (k_input s) - in_r (k_input s) < of_nat INPUT_BUF)"
      using 4(1) input_room_iff(1) [of "k_input s" "cs @ l"] v by (auto simp: line_view_def)
    then have "console_char c s = Ret False s" using 4(2) unfolding console_char_def tc by auto
    then show ?thesis using 4 v console_step_refl [OF s(1)] unfolding e by auto
  next
    case 5
    define d where "d = (if c = 13 then 10 else c)"
    have d: "0 \<le> d" "d < 256" using c by (simp_all add: d_def)
    define w where "w \<longleftrightarrow> d = 10 \<or> d = 4 \<or> length cs + length l + 1 = INPUT_BUF"
    have room: "in_e (k_input s) - in_r (k_input s) < of_nat INPUT_BUF"
      using input_room_iff [of "k_input s" "cs @ l"] v 5 by (simp add: line_view_def)
    have run: "console_char c s = andthen (upd_input (in_put (of_int d))) (andthen (consputc d) (bnd (gets k_input) (\<lambda>inp.
      if d = ch CHR 0x0A \<or> d = ctrl CHR ''D'' \<or> in_e inp = in_r inp + of_nat INPUT_BUF
      then andthen (upd_input (\<lambda>inp. inp\<lparr>in_w := in_e inp\<rparr>)) (andthen (wakeup ChInput) (ret False)) else ret False))) s"
      using 5 room unfolding console_char_def tc by (simp add: Let_def d_def)
    have e: "line_edit c (cs, l) = (if w then (cs @ l @ [of_int d], []) else (cs, l @ [of_int d]))"
      using 5 byte_eq_iff [OF d] by (auto simp: line_edit_def Let_def w_def d_def)
    show ?thesis
      using insert_char_run [OF v s 5(2) d refl w_def] 5 unfolding run e by (cases w) auto
  qed
qed

lemma consoleintr_loop_edits:
  assumes "line_view (k_input s) cs l" "screen_ok s" "\<not> k_panicked s" "lock_avail PtableLk s"
    and "\<forall>c\<in>set xs. 0 \<le> c \<and> c < 256 \<and> c \<noteq> 16"
  shows "\<exists>t w. consoleintr_loop (map ret xs @ [ret (-1)]) False s = Ret False t \<and> console_step w s t
    \<and> line_view (k_input t) (fst (fold line_edit xs (cs, l))) (snd (fold line_edit xs (cs, l)))
    \<and> (fst (fold line_edit xs (cs, l)) \<noteq> cs \<longrightarrow> w)"
  using assms
proof (induction xs arbitrary: s cs l)
  case Nil
  then show ?case using console_step_refl by auto
next
  case (Cons c xs)
  obtain cs' l' where e: "line_edit c (cs, l) = (cs', l')" by (metis surj_pair)
  obtain t w where t: "console_char c s = Ret False t" "line_view (k_input t) cs' l'" "console_step w s t" "w \<longleftrightarrow> cs' \<noteq> cs"
    using console_char_edits [OF Cons.prems(1-4), of c] Cons.prems(5) e by auto
  note f = console_step_fields [OF t(3)]
  obtain u w' where u: "consoleintr_loop (map ret xs @ [ret (-1)]) False t = Ret False u" "console_step w' t u"
      "line_view (k_input u) (fst (fold line_edit xs (cs', l'))) (snd (fold line_edit xs (cs', l')))"
      "fst (fold line_edit xs (cs', l')) \<noteq> cs' \<longrightarrow> w'"
    using Cons.IH [OF t(2)] f Cons.prems(3-5) by fastforce
  have "consoleintr_loop (map ret (c # xs) @ [ret (-1)]) False s = Ret False u"
    using t(1) u(1) Cons.prems(5) by auto
  moreover have "console_step (w \<or> w') s u" by (rule console_step_trans [OF t(3) u(2)])
  ultimately show ?case using u(3,4) t(4) e by auto
qed

lemma console_step_entered:
  assumes "console_step w (entered l s) t"
  shows "\<exists>u. t = entered l u \<and> console_step w s u"
proof -
  obtain i crt pos out where t: "t = (entered l s)\<lparr>k_input := i,
      k_procs := (if w then wakeup1_procs ChInput (k_procs (entered l s)) else k_procs (entered l s)), k_crt := crt,
      k_crtpos := pos, k_out := out\<rparr>"
    using assms unfolding console_step_def by blast
  let ?u = "s\<lparr>k_input := i, k_procs := (if w then wakeup1_procs ChInput (k_procs s) else k_procs s),
      k_crt := crt, k_crtpos := pos, k_out := out\<rparr>"
  have "t = entered l ?u" using t by simp
  moreover have "screen_ok ?u" using assms t by (simp add: console_step_def screen_ok_def)
  then have "console_step w s ?u" unfolding console_step_def by blast
  ultimately show ?thesis by blast
qed

lemma screen_ok_entered [simp]: "screen_ok (entered l s) = screen_ok s"
  by (simp add: screen_ok_def)

text \<open>
  C31: the console interrupt handler refines line editing on two lists, the bytes ready for readers
  and the line being typed: typed characters extend the line, backspace and kill-line shorten
  it, and a newline, an end-of-file mark or a full buffer makes it ready and wakes the
  readers. The ring indices may wrap around; the screen stays in bounds and no lock stays held.
\<close>

theorem consoleintr_edits_line:
  assumes "quiet s" "line_view (k_input s) cs l" "screen_ok s" "\<not> k_panicked s"
    and "\<forall>c\<in>set xs. 0 \<le> c \<and> c < 256 \<and> c \<noteq> 16"
  shows "\<exists>t cs' l' w. consoleintr (map ret xs @ [ret (-1)]) s = Ret () t \<and> fold line_edit xs (cs, l) = (cs', l')
    \<and> line_view (k_input t) cs' l' \<and> console_step w s t \<and> (cs' \<noteq> cs \<longrightarrow> w) \<and> quiet t"
proof -
  let ?e = "entered ConsLk s"
  have "line_view (k_input ?e) cs l" "screen_ok ?e" "\<not> k_panicked ?e" "lock_avail PtableLk ?e"
    using assms by simp_all
  from consoleintr_loop_edits [OF this assms(5)]
  obtain t w where t: "consoleintr_loop (map ret xs @ [ret (-1)]) False ?e = Ret False t" "console_step w ?e t"
      "line_view (k_input t) (fst (fold line_edit xs (cs, l))) (snd (fold line_edit xs (cs, l)))"
      "fst (fold line_edit xs (cs, l)) \<noteq> cs \<longrightarrow> w"
    by blast
  obtain u where u: "t = entered ConsLk u" "console_step w s u"
    using console_step_entered [OF t(2)] by blast
  have "quiet u" using console_step_fields(4) [OF u(2)] assms(1) by simp
  then have "consoleintr (map ret xs @ [ret (-1)]) s = Ret () u"
    using assms(1) t(1) u(1) by (simp add: consoleintr_def bnd_def [of "consoleintr_loop _ _"])
  then show ?thesis
    using t(3,4) u \<open>quiet u\<close> by (intro exI [of _ u] exI [of _ "fst (fold line_edit xs (cs, l))"]
      exI [of _ "snd (fold line_edit xs (cs, l))"] exI [of _ w]) simp
qed

theorem consoleintr_edits_line_witness:
  "\<exists>t. consoleintr (map ret [97, 98, 8, 99, 13] @ [ret (-1)]) console_start = Ret () t
     \<and> line_view (k_input t) [97, 99, 10] []"
proof -
  have v: "quiet console_start" "line_view (k_input console_start) [] []" "screen_ok console_start" "\<not> k_panicked console_start"
    by (simp_all add: console_start_def line_view_def input_queue_def ring_def screen_ok_def boot_def INPUT_BUF_def
      quiet_def lock_avail_def lock_free_def cpu_ok_def)
  show ?thesis
    using consoleintr_edits_line [OF v, of "[97, 98, 8, 99, 13]"] by (auto simp: line_edit_def INPUT_BUF_def)
qed

end
