(* ===== verification/Pipe.thy ===== *)
theory Pipe
  imports Console
begin

text \<open>
  Pipes (\<^verbatim>\<open>pipe.c\<close>): a ring buffer with 32-bit counters of the bytes written and read, which
  wrap around. A pipe is named by the address of its page.
\<close>

definition upd_pipe :: "uint \<Rightarrow> (pipe \<Rightarrow> pipe) \<Rightarrow> unit kern" where
  "upd_pipe p f = modify (\<lambda>s. s\<lparr>k_pipes := (k_pipes s)(p := map_option f (k_pipes s p))\<rparr>)"

text \<open>A pipe that has been freed is not accessed by the code; reading it is a fault.\<close>

definition get_pipe :: "uint \<Rightarrow> pipe kern" where
  "get_pipe p = bnd (gets (\<lambda>s. k_pipes s p)) (\<lambda>x. case x of None \<Rightarrow> panic ''trap'' | Some pi \<Rightarrow> ret pi)"

definition proc_killed :: "bool kern" where
  "proc_killed = bnd curproc (\<lambda>p. gets (\<lambda>s. p_killed (k_procs s ! p)))"

definition pipeclose :: "uint \<Rightarrow> bool \<Rightarrow> unit kern" where
  "pipeclose p writable = andthen (acquire (PipeLk p))
     (andthen (if writable then andthen (upd_pipe p (\<lambda>pi. pi\<lparr>pi_writeopen := False\<rparr>)) (wakeup (ChNread p))
       else andthen (upd_pipe p (\<lambda>pi. pi\<lparr>pi_readopen := False\<rparr>)) (wakeup (ChNwrite p)))
     (bnd (get_pipe p) (\<lambda>pi.
       if \<not> pi_readopen pi \<and> \<not> pi_writeopen pi then
         andthen (release (PipeLk p)) (andthen (modify (\<lambda>s. s\<lparr>k_pipes := (k_pipes s)(p := None)\<rparr>)) (kfree p))
       else release (PipeLk p))))"

text \<open>The ring buffer: storing at the write counter and fetching at the read counter.\<close>

definition pi_full :: "pipe \<Rightarrow> bool" where
  "pi_full pi \<longleftrightarrow> pi_nwrite pi = pi_nread pi + of_nat PIPESIZE"

definition pi_put :: "uchar \<Rightarrow> pipe \<Rightarrow> pipe" where
  "pi_put b pi = pi\<lparr>pi_data := (pi_data pi)[unat (pi_nwrite pi) mod PIPESIZE := b], pi_nwrite := pi_nwrite pi + 1\<rparr>"

definition pi_first :: "pipe \<Rightarrow> uchar" where
  "pi_first pi = pi_data pi ! (unat (pi_nread pi) mod PIPESIZE)"

definition pi_take :: "pipe \<Rightarrow> pipe" where
  "pi_take pi = pi\<lparr>pi_nread := pi_nread pi + 1\<rparr>"

text \<open>The loop of \<^verbatim>\<open>pipewrite\<close> with the lock held and \<open>k\<close> of the \<open>n\<close> bytes to go.\<close>

fun pipewrite_loop :: "uint \<Rightarrow> source \<Rightarrow> nat \<Rightarrow> nat \<Rightarrow> int kern" where
  "pipewrite_loop p src n 0 = andthen (wakeup (ChNread p)) (andthen (release (PipeLk p)) (ret (int n)))"
| "pipewrite_loop p src n (Suc k) = bnd (get_pipe p) (\<lambda>pi.
     if pi_full pi then bnd proc_killed (\<lambda>killed.
       if \<not> pi_readopen pi \<or> killed then andthen (release (PipeLk p)) (ret (-1))
       else andthen (wakeup (ChNread p)) (block_on (ChNwrite p) (PipeLk p)))
     else bnd (src (of_nat (n - Suc k)) 1) (\<lambda>bs.
       andthen (upd_pipe p (pi_put (bs ! 0))) (pipewrite_loop p src n k)))"

definition pipewrite :: "uint \<Rightarrow> source \<Rightarrow> int \<Rightarrow> int kern" where
  "pipewrite p src n = andthen (acquire (PipeLk p))
     (if n \<le> 0 then andthen (wakeup (ChNread p)) (andthen (release (PipeLk p)) (ret n))
      else pipewrite_loop p src (nat n) (nat n))"

text \<open>The copy loop of \<^verbatim>\<open>piperead\<close>.\<close>

fun piperead_loop :: "uint \<Rightarrow> sink \<Rightarrow> nat \<Rightarrow> uchar list \<Rightarrow> uchar list kern" where
  "piperead_loop p put 0 acc = ret acc"
| "piperead_loop p put (Suc k) acc = bnd (get_pipe p) (\<lambda>pi.
     if pi_nread pi = pi_nwrite pi then ret acc
     else andthen (upd_pipe p pi_take) (andthen (put (of_nat (length acc)) [pi_first pi])
       (piperead_loop p put k (acc @ [pi_first pi]))))"

text \<open>From the head of the waiting loop on, with the lock held.\<close>

definition piperead_wait :: "uint \<Rightarrow> sink \<Rightarrow> int \<Rightarrow> (int \<times> uchar list) kern" where
  "piperead_wait p put n = bnd (get_pipe p) (\<lambda>pi.
     if pi_nread pi = pi_nwrite pi \<and> pi_writeopen pi then bnd proc_killed (\<lambda>killed.
       if killed then andthen (release (PipeLk p)) (ret (-1, []))
       else block_on (ChNread p) (PipeLk p))
     else bnd (piperead_loop p put (nat n) []) (\<lambda>bs.
       andthen (wakeup (ChNwrite p)) (andthen (release (PipeLk p)) (ret (int (length bs), bs)))))"

definition piperead :: "uint \<Rightarrow> sink \<Rightarrow> int \<Rightarrow> (int \<times> uchar list) kern" where
  "piperead p put n = andthen (acquire (PipeLk p)) (piperead_wait p put n)"

section \<open>A pipe is a bounded queue\<close>

definition pipe_queue :: "pipe \<Rightarrow> uchar list \<Rightarrow> bool" where
  "pipe_queue pi q \<longleftrightarrow> length (pi_data pi) = PIPESIZE \<and> ring (pi_data pi) (pi_nread pi) (pi_nwrite pi) q"

interpretation pq: bounded_queue pipe_queue PIPESIZE pi_put pi_first pi_take
proof
  fix pi q b
  assume a: "pipe_queue pi q" "length q < PIPESIZE"
  then show "pipe_queue (pi_put b pi) (q @ [b])"
    using ring_put [of "pi_data pi" "pi_nread pi" "pi_nwrite pi" q b] by (simp add: pipe_queue_def pi_put_def)
next
  fix pi b q
  assume a: "pipe_queue pi (b # q)"
  show "pi_first pi = b"
    using ring_first [of "pi_data pi" "pi_nread pi" "pi_nwrite pi" b q] a by (simp add: pipe_queue_def pi_first_def)
  show "pipe_queue (pi_take pi) q"
    using ring_take [of "pi_data pi" "pi_nread pi" "pi_nwrite pi" b q] a by (simp add: pipe_queue_def pi_take_def)
next
  fix pi q
  assume "pipe_queue pi q"
  then show "length q \<le> PIPESIZE" by (simp add: pipe_queue_def ring_def)
qed

lemma pipe_full_iff: "pipe_queue pi q \<Longrightarrow> pi_full pi \<longleftrightarrow> length q = PIPESIZE"
  using ring_full_iff [of "pi_data pi" "pi_nread pi" "pi_nwrite pi" q] by (simp add: pipe_queue_def pi_full_def)

lemma pipe_empty_iff: "pipe_queue pi q \<Longrightarrow> pi_nread pi = pi_nwrite pi \<longleftrightarrow> q = []"
  using ring_empty_iff by (auto simp: pipe_queue_def)

definition set_pipe :: "uint \<Rightarrow> pipe \<Rightarrow> kernel \<Rightarrow> kernel" where
  "set_pipe p pi s = s\<lparr>k_pipes := (k_pipes s)(p \<mapsto> pi)\<rparr>"

lemma set_pipe_simps [simp]:
  "k_pipes (set_pipe p pi s) p = Some pi" "k_mem (set_pipe p pi s) = k_mem s"
  "k_cpu (set_pipe p pi s) = k_cpu s" "k_procs (set_pipe p pi s) = k_procs s"
  "quiet (set_pipe p pi s) = quiet s" "set_pipe p pi (set_pipe p pi' s) = set_pipe p pi s"
  "(set_pipe p pi s)\<lparr>k_mem := m\<rparr> = set_pipe p pi (s\<lparr>k_mem := m\<rparr>)"
  "set_pipe p pi (s\<lparr>k_mem := m\<rparr>\<lparr>k_mem := m'\<rparr>) = set_pipe p pi (s\<lparr>k_mem := m'\<rparr>)"
  by (simp_all add: set_pipe_def)

lemma set_pipe_same: "k_pipes s p = Some pi \<Longrightarrow> set_pipe p pi s = s"
  by (simp add: set_pipe_def fun_upd_idem)

lemma get_pipe_run: "k_pipes s p = Some pi \<Longrightarrow> get_pipe p s = Ret pi s"
  by (simp add: get_pipe_def)

lemma upd_pipe_run:
  "k_pipes s p = Some pi \<Longrightarrow> upd_pipe p f (entered l s) = Ret () (entered l (set_pipe p (f pi) s))"
  by (simp add: upd_pipe_def set_pipe_def)

text \<open>
  The buffer of the writer: its bytes, as long as memory and address space are as in \<open>s\<close>.
  The buffer of the reader: from \<open>s\<close> on, in its address space, up to \<open>n\<close> bytes can be stored piece
  after piece; a piece changes nothing but memory, and \<open>J bs\<close> holds of memory when \<open>bs\<close> has been
  stored.
\<close>

definition source_of :: "source \<Rightarrow> uchar list \<Rightarrow> kernel \<Rightarrow> bool" where
  "source_of src bs s \<longleftrightarrow> (\<forall>i < length bs. \<forall>t. k_mem t = k_mem s \<and> c_cr3 (k_cpu t) = c_cr3 (k_cpu s) \<longrightarrow>
     src (of_nat i) 1 t = Ret [bs ! i] t)"

definition stores :: "sink \<Rightarrow> nat \<Rightarrow> (uchar list \<Rightarrow> memory \<Rightarrow> bool) \<Rightarrow> kernel \<Rightarrow> bool" where
  "stores put n J s \<longleftrightarrow> J [] (k_mem s)
     \<and> (\<forall>acc bs t. J acc (k_mem t) \<and> c_cr3 (k_cpu t) = c_cr3 (k_cpu s) \<and> length acc + length bs \<le> n \<longrightarrow>
         (\<exists>m. put (of_nat (length acc)) bs t = Ret () (t\<lparr>k_mem := m\<rparr>) \<and> J (acc @ bs) m))"

lemma storesD:
  assumes "stores put n J s" "J acc (k_mem t)" "c_cr3 (k_cpu t) = c_cr3 (k_cpu s)" "length acc + length bs \<le> n"
  obtains m where "put (of_nat (length acc)) bs t = Ret () (t\<lparr>k_mem := m\<rparr>)" "J (acc @ bs) m"
  using assms unfolding stores_def by blast

lemma stores_less: "stores put n J s \<Longrightarrow> k \<le> n \<Longrightarrow> stores put k J s"
  unfolding stores_def by (meson order_trans)

lemma stores_cong:
  "stores put n J s \<Longrightarrow> k_mem t = k_mem s \<Longrightarrow> c_cr3 (k_cpu t) = c_cr3 (k_cpu s) \<Longrightarrow> stores put n J t"
  unfolding stores_def by simp

lemma source_ofD:
  assumes "source_of src bs s" "i < length bs" "k_mem t = k_mem s" "c_cr3 (k_cpu t) = c_cr3 (k_cpu s)"
  shows "src (of_nat i) 1 t = Ret [bs ! i] t"
  using assms unfolding source_of_def by blast

lemma pipewrite_loop_run:
  assumes "quiet s" "k_pipes s p = Some pi" "pipe_queue pi q" "source_of src bs s"
    and "k \<le> length bs" "length q + k \<le> PIPESIZE"
  shows "pipewrite_loop p src (length bs) k (entered (PipeLk p) s) = Ret (int (length bs))
    ((set_pipe p (fold pi_put (drop (length bs - k) bs) pi) s)\<lparr>k_procs := wakeup1_procs (ChNread p) (k_procs s)\<rparr>)"
  using assms
proof (induction k arbitrary: s pi q)
  case 0
  then show ?case by (simp add: wakeup_eq set_pipe_same)
next
  case (Suc k)
  let ?b = "bs ! (length bs - Suc k)"
  let ?s = "set_pipe p (pi_put ?b pi) s"
  have full: "\<not> pi_full pi" using Suc.prems by (simp add: pipe_full_iff)
  have src: "src (of_nat (length bs - Suc k)) 1 (entered (PipeLk p) s) = Ret [?b] (entered (PipeLk p) s)"
    by (rule source_ofD [OF Suc.prems(4)]) (use Suc.prems(5) in simp_all)
  have q: "pipe_queue (pi_put ?b pi) (q @ [?b])" using Suc.prems by (simp add: pq.view_put)
  have d: "drop (length bs - Suc k) bs = ?b # drop (length bs - k) bs"
    using Suc.prems(5) by (metis Cons_nth_drop_Suc Suc_diff_Suc Suc_le_lessD diff_less length_greater_0_conv
        list.size(3) not_less_zero zero_less_Suc)
  have "pipewrite_loop p src (length bs) k (entered (PipeLk p) ?s) = Ret (int (length bs))
    ((set_pipe p (fold pi_put (drop (length bs - k) bs) (pi_put ?b pi)) ?s)
       \<lparr>k_procs := wakeup1_procs (ChNread p) (k_procs ?s)\<rparr>)"
    by (rule Suc.IH [where q = "q @ [?b]"]) (use Suc.prems q in \<open>simp_all add: source_of_def\<close>)
  then show ?case using Suc.prems(2) full src d by (simp add: get_pipe_run upd_pipe_run)
qed

lemma piperead_loop_run:
  assumes "k_pipes s p = Some pi" "pipe_queue pi q" "stores put n J s0"
    and "J acc (k_mem s)" "c_cr3 (k_cpu s) = c_cr3 (k_cpu s0)" "length acc + min k (length q) \<le> n"
  shows "\<exists>m pi'. piperead_loop p put k acc (entered (PipeLk p) s) = Ret (acc @ take k q)
      (entered (PipeLk p) (set_pipe p pi' (s\<lparr>k_mem := m\<rparr>))) \<and> pipe_queue pi' (drop k q) \<and> J (acc @ take k q) m"
  using assms
proof (induction k arbitrary: s pi q acc)
  case 0
  then show ?case by (auto intro!: exI [of _ "k_mem s"] exI [of _ pi] simp: set_pipe_same)
next
  case (Suc k)
  show ?case
  proof (cases q)
    case Nil
    then have "pi_nread pi = pi_nwrite pi" using Suc.prems(2) pipe_empty_iff by blast
    then show ?thesis
      using Suc.prems Nil by (intro exI [of _ "k_mem s"] exI [of _ pi]) (simp add: get_pipe_run set_pipe_same)
  next
    case (Cons b q')
    have v: "pipe_queue pi (b # q')" using Suc.prems Cons by simp
    have ne: "pi_nread pi \<noteq> pi_nwrite pi" using v pipe_empty_iff by blast
    let ?s = "set_pipe p (pi_take pi) s"
    obtain m where m: "put (of_nat (length acc)) [b] (entered (PipeLk p) ?s) = Ret () (entered (PipeLk p) (?s\<lparr>k_mem := m\<rparr>))"
        "J (acc @ [b]) m"
      using storesD [OF Suc.prems(3), of acc "entered (PipeLk p) ?s" "[b]"] Suc.prems(4-6) Cons by auto
    let ?u = "?s\<lparr>k_mem := m\<rparr>"
    have "k_pipes ?u p = Some (pi_take pi)" by (simp add: set_pipe_def)
    from Suc.IH [OF this pq.view_take [OF v] Suc.prems(3), of "acc @ [b]"]
    obtain m' pi' where "piperead_loop p put k (acc @ [b]) (entered (PipeLk p) ?u) = Ret ((acc @ [b]) @ take k q')
        (entered (PipeLk p) (set_pipe p pi' (?u\<lparr>k_mem := m'\<rparr>)))" "pipe_queue pi' (drop k q')"
        "J ((acc @ [b]) @ take k q') m'"
      using m(2) Suc.prems(5,6) Cons by auto
    then show ?thesis
      using Suc.prems(1) ne m Cons pq.view_front [OF v]
      by (intro exI [of _ m'] exI [of _ pi']) (simp add: get_pipe_run upd_pipe_run)
  qed
qed

text \<open>
  \<^verbatim>\<open>piperead\<close> with data in the pipe, or all writers gone: the bytes at the front of the queue go to
  the destination.
\<close>

lemma piperead_run:
  assumes "quiet s" "k_pipes s p = Some pi" "pipe_queue pi q" "stores put (min (nat n) (length q)) J s"
    and "q \<noteq> [] \<or> \<not> pi_writeopen pi"
  shows "\<exists>m pi'. piperead p put n s = Ret (int (min (nat n) (length q)), take (nat n) q)
      (s\<lparr>k_mem := m, k_pipes := (k_pipes s)(p \<mapsto> pi'), k_procs := wakeup1_procs (ChNwrite p) (k_procs s)\<rparr>)
    \<and> pipe_queue pi' (drop (nat n) q) \<and> J (take (nat n) q) m"
proof -
  have ne: "\<not> (pi_nread pi = pi_nwrite pi \<and> pi_writeopen pi)"
    using assms(3,5) pipe_empty_iff by blast
  have "J [] (k_mem s)" using assms(4) by (simp add: stores_def)
  then obtain m pi' where "piperead_loop p put (nat n) [] (entered (PipeLk p) s) = Ret (take (nat n) q)
      (entered (PipeLk p) (set_pipe p pi' (s\<lparr>k_mem := m\<rparr>)))" "pipe_queue pi' (drop (nat n) q)" "J (take (nat n) q) m"
    using piperead_loop_run [OF assms(2-4), of "[]" "nat n"] by auto
  then show ?thesis
    using assms(1,2) ne
    by (intro exI [of _ m] exI [of _ pi'])
      (auto simp: piperead_def piperead_wait_def get_pipe_run wakeup_eq min.commute set_pipe_def)
qed

text \<open>
  C29: \<^verbatim>\<open>pipewrite\<close> refines appending to a bounded queue: when the bytes fit, it stores
  them behind those already in the pipe, across the wrap-around of the ring and of its 32-bit
  counters, wakes the readers, and changes nothing else.
\<close>

theorem pipewrite_appends:
  assumes "quiet s" "k_pipes s p = Some pi" "pipe_queue pi q" "source_of src bs s"
    and "length q + length bs \<le> PIPESIZE"
  shows "\<exists>pi'. pipewrite p src (int (length bs)) s = Ret (int (length bs))
      (s\<lparr>k_pipes := (k_pipes s)(p \<mapsto> pi'), k_procs := wakeup1_procs (ChNread p) (k_procs s)\<rparr>)
    \<and> pipe_queue pi' (q @ bs)"
proof (intro exI conjI)
  show "pipe_queue (fold pi_put bs pi) (q @ bs)" using assms by (simp add: pq.view_puts)
  show "pipewrite p src (int (length bs)) s = Ret (int (length bs)) (s\<lparr>k_pipes := (k_pipes s)(p \<mapsto> fold pi_put bs pi),
      k_procs := wakeup1_procs (ChNread p) (k_procs s)\<rparr>)"
  proof (cases "bs = []")
    case True
    then show ?thesis
      using assms by (simp add: pipewrite_def wakeup_eq fun_upd_idem)
  next
    case False
    then show ?thesis
      using pipewrite_loop_run [OF assms(1-4), of "length bs"] assms(1,5)
      by (simp add: pipewrite_def set_pipe_def)
  qed
qed

definition pipe0 :: pipe where
  "pipe0 = \<lparr>pi_data = replicate PIPESIZE 0, pi_nread = 0xFFFFFFFF, pi_nwrite = 0xFFFFFFFF,
     pi_readopen = True, pi_writeopen = True\<rparr>"

definition pipe_start :: kernel where
  "pipe_start = boot\<lparr>k_pipes := [0x80200000 \<mapsto> pipe0]\<rparr>"

lemma pipe0_queue: "pipe_queue pipe0 []"
  by (simp add: pipe_queue_def ring_def pipe0_def PIPESIZE_def)

theorem pipewrite_appends_witness:
  "\<exists>pi' t. pipewrite 0x80200000 (\<lambda>off n. ret (take n (drop (unat off) [1, 2, 3]))) 3 pipe_start = Ret 3 t
     \<and> pipe_queue pi' [1, 2, 3]"
proof -
  have "source_of (\<lambda>off n. ret (take n (drop (unat off) [1, 2, 3]))) [1, 2, 3] pipe_start"
    by (auto simp: source_of_def less_Suc_eq numeral_3_eq_3)
  then show ?thesis
    using pipewrite_appends [of pipe_start "0x80200000" pipe0 "[]" _ "[1, 2, 3]"] pipe0_queue
    by (auto simp: pipe_start_def PIPESIZE_def)
qed

end
