(* ===== verification/Fs.thy ===== *)
theory Fs
  imports Console Cstring
begin

text \<open>
  The upper half of the file system (\<^verbatim>\<open>fs.c\<close>): reading and writing a file's bytes,
  directories and path names. A path is the string up to its terminating zero; the name
  buffers of DIRSIZ bytes are lists.
\<close>

unbundle bit_operations_syntax

definition NDEV :: int where "NDEV = 10"
definition CONSOLE :: int where "CONSOLE = 1"
definition DIRSIZ :: nat where "DIRSIZ = 14"

section \<open>File contents\<close>

text \<open>The device table has one entry, the console's.\<close>

definition devsw :: "ushort \<Rightarrow> bool kern" where
  "devsw major = gets (\<lambda>s. \<not> (sint major < 0 \<or> sint major \<ge> NDEV) \<and> sint major = CONSOLE \<and> k_consdev s)"

definition chunk :: "uint \<Rightarrow> uint \<Rightarrow> uint" where
  "chunk rest off = min rest (of_nat BSIZE - off mod of_nat BSIZE)"

definition readi_round :: "nat \<Rightarrow> sink \<Rightarrow> uint \<Rightarrow> uint \<times> uint \<times> uchar list \<Rightarrow>
    ((uint \<times> uint \<times> uchar list) + (int \<times> uchar list)) kern" where
  "readi_round i put n x = (case x of (tot, off, acc) \<Rightarrow>
     if \<not> tot < n then ret (Inr (sint n, acc))
     else bnd (bmap i (off div of_nat BSIZE)) (\<lambda>addr. bnd (get_inode i) (\<lambda>ip.
       bnd (bread (i_dev ip) addr) (\<lambda>bp. bnd (get_data bp) (\<lambda>d.
       let m = chunk (n - tot) off; bs = take (unat m) (drop (unat (off mod of_nat BSIZE)) d) in
       andthen (put tot bs) (andthen (brelse bp) (ret (Inl (tot + m, off + m, acc @ bs)))))))))"

definition readi :: "nat \<Rightarrow> sink \<Rightarrow> uint \<Rightarrow> uint \<Rightarrow> (int \<times> uchar list) kern" where
  "readi i put off n = bnd (get_inode i) (\<lambda>ip.
     if i_type ip = T_DEV then bnd (devsw (i_major ip)) (\<lambda>ok.
       if \<not> ok then ret (-1, []) else consoleread i put (sint n))
     else if off > i_size ip \<or> off + n < off then ret (-1, [])
     else let n = (if off + n > i_size ip then i_size ip - off else n) in
       loop (Suc (unat n)) (readi_round i put n) (0, off, []))"

definition overwrite :: "uchar list \<Rightarrow> nat \<Rightarrow> uchar list \<Rightarrow> uchar list" where
  "overwrite d k bs = take k d @ bs @ drop (k + length bs) d"

definition writei_round :: "nat \<Rightarrow> source \<Rightarrow> uint \<Rightarrow> uint \<times> uint \<Rightarrow> ((uint \<times> uint) + uint) kern" where
  "writei_round i src n x = (case x of (tot, off) \<Rightarrow>
     if \<not> tot < n then ret (Inr off)
     else bnd (bmap i (off div of_nat BSIZE)) (\<lambda>addr. bnd (get_inode i) (\<lambda>ip.
       bnd (bread (i_dev ip) addr) (\<lambda>bp.
       let m = chunk (n - tot) off in
       bnd (src tot (unat m)) (\<lambda>bs. bnd (get_data bp) (\<lambda>d.
       andthen (set_data bp (overwrite d (unat (off mod of_nat BSIZE)) bs))
       (andthen (log_write bp) (andthen (brelse bp) (ret (Inl (tot + m, off + m)))))))))))"

definition writei :: "nat \<Rightarrow> source \<Rightarrow> uint \<Rightarrow> uint \<Rightarrow> int kern" where
  "writei i src off n = bnd (get_inode i) (\<lambda>ip.
     if i_type ip = T_DEV then bnd (devsw (i_major ip)) (\<lambda>ok.
       if \<not> ok then ret (-1) else consolewrite i src (sint n))
     else if off > i_size ip \<or> off + n < off then ret (-1)
     else if off + n > of_nat (MAXFILE * BSIZE) then ret (-1)
     else bnd (loop (Suc (unat n)) (writei_round i src n) (0, off)) (\<lambda>off.
       andthen (bnd (get_inode i) (\<lambda>ip. if n > 0 \<and> off > i_size ip
         then andthen (upd_inode i (\<lambda>ip. ip\<lparr>i_size := off\<rparr>)) (iupdate i) else ret ()))
       (ret (sint n))))"

text \<open>A buffer in the kernel, and one in the address space of the running process.\<close>

definition kbuf :: sink where
  "kbuf off bs = ret ()"

definition kbytes :: "uchar list \<Rightarrow> source" where
  "kbytes bs off n = ret (take n (drop (unat off) bs))"

definition ubuf :: "uint \<Rightarrow> sink" where
  "ubuf a off bs = store_bytes (a + off) bs"

definition ubytes :: "uint \<Rightarrow> source" where
  "ubytes a off n = load_bytes (a + off) n"

section \<open>Directories\<close>

definition namecmp :: "bytes \<Rightarrow> bytes \<Rightarrow> int" where
  "namecmp s t = strncmp s t DIRSIZ"

record dirent =
  de_inum :: ushort
  de_name :: "uchar list"

definition dec_dirent :: "uchar list \<Rightarrow> dirent" where
  "dec_dirent bs = \<lparr>de_inum = get16 bs 0, de_name = take DIRSIZ (drop 2 bs)\<rparr>"

definition enc_dirent :: "dirent \<Rightarrow> uchar list" where
  "enc_dirent de = [ucast (de_inum de), ucast (drop_bit 8 (de_inum de))] @ de_name de"

definition read_dirent :: "nat \<Rightarrow> uint \<Rightarrow> string \<Rightarrow> dirent kern" where
  "read_dirent dp off msg = bnd (readi dp kbuf off 16) (\<lambda>(r, bs).
     if r \<noteq> 16 then panic msg else ret (dec_dirent bs))"

definition dirlookup_round :: "nat \<Rightarrow> uchar list \<Rightarrow> uint \<Rightarrow> (uint + (nat \<times> uint) option) kern" where
  "dirlookup_round dp name off = bnd (get_inode dp) (\<lambda>ip.
     if \<not> off < i_size ip then ret (Inr None)
     else bnd (read_dirent dp off ''dirlink read'') (\<lambda>de.
       if de_inum de = 0 then ret (Inl (off + 16))
       else if namecmp (bytes_of name) (bytes_of (de_name de)) = 0 then
         bnd (iget (i_dev ip) (ucast (de_inum de))) (\<lambda>j. ret (Inr (Some (j, off))))
       else ret (Inl (off + 16))))"

definition dirlookup :: "nat \<Rightarrow> uchar list \<Rightarrow> (nat \<times> uint) option kern" where
  "dirlookup dp name = bnd (get_inode dp) (\<lambda>ip.
     if i_type ip \<noteq> T_DIR then panic ''dirlookup not DIR''
     else loop (2 ^ 28 + 1) (dirlookup_round dp name) 0)"

definition dirlink_round :: "nat \<Rightarrow> uint \<Rightarrow> (uint + uint) kern" where
  "dirlink_round dp off = bnd (get_inode dp) (\<lambda>ip.
     if \<not> off < i_size ip then ret (Inr off)
     else bnd (read_dirent dp off ''dirlink read'') (\<lambda>de.
       ret (if de_inum de = 0 then Inr off else Inl (off + 16))))"

definition dirlink :: "nat \<Rightarrow> uchar list \<Rightarrow> uint \<Rightarrow> int kern" where
  "dirlink dp name inum = bnd (dirlookup dp name) (\<lambda>r. case r of
     Some (ip, _) \<Rightarrow> andthen (iput ip) (ret (-1))
   | None \<Rightarrow> bnd (loop (2 ^ 28 + 1) (dirlink_round dp) 0) (\<lambda>off.
       bnd (writei dp (kbytes (enc_dirent \<lparr>de_inum = ucast inum, de_name = strncpy_bytes (bytes_of name) DIRSIZ\<rparr>)) off 16)
         (\<lambda>r. if r \<noteq> 16 then panic ''dirlink'' else ret 0)))"

section \<open>Paths\<close>

definition slash :: uchar where "slash = 0x2F"

text \<open>The rest of the path and the new contents of the name buffer \<open>old\<close>.\<close>

definition skipelem :: "uchar list \<Rightarrow> uchar list \<Rightarrow> (uchar list \<times> uchar list) option" where
  "skipelem path old = (let path = dropWhile (\<lambda>c. c = slash) path in
     if path = [] then None
     else let s = takeWhile (\<lambda>c. c \<noteq> slash) path; path = dropWhile (\<lambda>c. c \<noteq> slash) path;
       name = (if length s \<ge> DIRSIZ then take DIRSIZ s @ drop DIRSIZ old
               else s @ [0] @ drop (Suc (length s)) old) in
     Some (dropWhile (\<lambda>c. c = slash) path, name))"

text \<open>A pointer that is dereferenced: a null pointer faults.\<close>

definition nonnull :: "'a option \<Rightarrow> 'a kern" where
  "nonnull p = (case p of None \<Rightarrow> panic ''trap'' | Some a \<Rightarrow> ret a)"

definition namex_round :: "bool \<Rightarrow> uchar list \<times> nat \<times> uchar list \<Rightarrow>
    ((uchar list \<times> nat \<times> uchar list) + (nat \<times> uchar list) option) kern" where
  "namex_round parent x = (case x of (path, ip, name) \<Rightarrow>
     case skipelem path name of
       None \<Rightarrow> if parent then andthen (iput ip) (ret (Inr None)) else ret (Inr (Some (ip, name)))
     | Some (path, name) \<Rightarrow> andthen (ilock ip) (bnd (get_inode ip) (\<lambda>ino.
         if i_type ino \<noteq> T_DIR then andthen (iunlockput ip) (ret (Inr None))
         else if parent \<and> path = [] then andthen (iunlock ip) (ret (Inr (Some (ip, name))))
         else bnd (dirlookup ip name) (\<lambda>r. case r of
           None \<Rightarrow> andthen (iunlockput ip) (ret (Inr None))
         | Some (next, _) \<Rightarrow> andthen (iunlockput ip) (ret (Inl (path, next, name)))))))"

definition namex_start :: "uchar list \<Rightarrow> nat kern" where
  "namex_start path = (if path \<noteq> [] \<and> hd path = slash then iget ROOTDEV ROOTINO
     else bnd curproc (\<lambda>p. bnd (gets (\<lambda>s. p_cwd (k_procs s ! p))) (\<lambda>cwd. bnd (nonnull cwd) idup)))"

definition namex :: "uchar list \<Rightarrow> bool \<Rightarrow> uchar list \<Rightarrow> (nat \<times> uchar list) option kern" where
  "namex path parent name = bnd (namex_start path) (\<lambda>ip.
     loop (length path + 2) (namex_round parent) (path, ip, name))"

definition namei :: "uchar list \<Rightarrow> nat option kern" where
  "namei path = bnd (namex path False (replicate DIRSIZ 0)) (\<lambda>r. ret (map_option fst r))"

definition nameiparent :: "uchar list \<Rightarrow> (nat \<times> uchar list) option kern" where
  "nameiparent path = namex path True (replicate DIRSIZ 0)"

section \<open>Path elements\<close>

text \<open>What a path means: the nonempty pieces between slashes.\<close>

fun pieces :: "uchar list \<Rightarrow> uchar list list" where
  "pieces [] = [[]]"
| "pieces (c # cs) = (if c = slash then [] # pieces cs else (c # hd (pieces cs)) # tl (pieces cs))"

definition path_elems :: "uchar list \<Rightarrow> uchar list list" where
  "path_elems path = filter (\<lambda>e. e \<noteq> []) (pieces path)"

lemma pieces_nonempty: "pieces path \<noteq> []"
  by (cases path) auto

lemma path_elems_slashes: "path_elems (dropWhile (\<lambda>c. c = slash) path) = path_elems path"
  by (induction path) (auto simp: path_elems_def)

lemma pieces_append: "slash \<notin> set e \<Longrightarrow> pieces (e @ rest) = (e @ hd (pieces rest)) # tl (pieces rest)"
  by (induction e) (auto simp: pieces_nonempty)

lemma path_elems_Cons:
  assumes "slash \<notin> set e" "e \<noteq> []" "rest = [] \<or> hd rest = slash"
  shows "path_elems (e @ rest) = e # path_elems (dropWhile (\<lambda>c. c = slash) rest)"
proof (cases rest)
  case Nil
  then show ?thesis using assms pieces_append [of e "[]"] by (simp add: path_elems_def)
next
  case (Cons c r)
  then have "path_elems (e @ rest) = e # path_elems r" using assms by (simp add: path_elems_def pieces_append)
  then show ?thesis using Cons assms(3) by (simp add: path_elems_slashes)
qed

lemma skipelem_elems:
  "skipelem path old = None \<longleftrightarrow> path_elems path = []"
  "skipelem path old = Some (rest, name) \<Longrightarrow> \<exists>e. path_elems path = e # path_elems rest \<and> length rest < length path
     \<and> name = (if length e \<ge> DIRSIZ then take DIRSIZ e @ drop DIRSIZ old else e @ [0] @ drop (Suc (length e)) old)
     \<and> e \<noteq> [] \<and> set e \<subseteq> set path \<and> set rest \<subseteq> set path"
proof -
  define p where "p = dropWhile (\<lambda>c. c = slash) path"
  define e where "e = takeWhile (\<lambda>c. c \<noteq> slash) p"
  define r where "r = dropWhile (\<lambda>c. c \<noteq> slash) p"
  have p: "p = e @ r" by (simp add: e_def r_def)
  have e: "slash \<notin> set e" unfolding e_def by (metis (full_types) set_takeWhileD)
  have ne: "e \<noteq> []" if "p \<noteq> []" using that hd_dropWhile [of "\<lambda>c. c = slash" path] by (cases p) (auto simp: e_def p_def)
  have r: "r = [] \<or> hd r = slash" using hd_dropWhile [of "\<lambda>c. c \<noteq> slash" p] by (auto simp: r_def)
  have elems: "path_elems path = (if p = [] then [] else e # path_elems (dropWhile (\<lambda>c. c = slash) r))"
    using path_elems_slashes [of path] path_elems_Cons [OF e ne r] p
    by (auto simp: p_def [symmetric]) (simp add: path_elems_def)
  show "skipelem path old = None \<longleftrightarrow> path_elems path = []"
    by (auto simp: skipelem_def elems Let_def p_def [symmetric])
  assume "skipelem path old = Some (rest, name)"
  then have q: "p \<noteq> []" "rest = dropWhile (\<lambda>c. c = slash) r"
    "name = (if length e \<ge> DIRSIZ then take DIRSIZ e @ drop DIRSIZ old else e @ [0] @ drop (Suc (length e)) old)"
    by (auto simp: skipelem_def Let_def p_def [symmetric] e_def [symmetric] r_def [symmetric] split: if_splits)
  have "length rest \<le> length r" using q(2) by (simp add: length_dropWhile_le)
  moreover have "length p \<le> length path" by (simp add: p_def length_dropWhile_le)
  ultimately have "length rest < length path" using ne [OF q(1)] p by (cases e) auto
  moreover have "set e \<subseteq> set path" "set rest \<subseteq> set path"
    using q(2) by (auto simp: e_def r_def p_def dest: set_takeWhileD set_dropWhileD)
  ultimately show "\<exists>e. path_elems path = e # path_elems rest \<and> length rest < length path
     \<and> name = (if length e \<ge> DIRSIZ then take DIRSIZ e @ drop DIRSIZ old else e @ [0] @ drop (Suc (length e)) old)
     \<and> e \<noteq> [] \<and> set e \<subseteq> set path \<and> set rest \<subseteq> set path"
    using elems q ne by auto
qed

text \<open>The name buffer a path walk leaves, read as a string, for the elements one after another.\<close>

function walk_elems :: "uchar list \<Rightarrow> uchar list \<Rightarrow> uchar list list" where
  "walk_elems path name = (case skipelem path name of None \<Rightarrow> []
     | Some (rest, name') \<Rightarrow> takeWhile (\<lambda>c. c \<noteq> 0) name' # walk_elems rest name')"
  by pat_completeness auto
termination
  by (relation "measure (\<lambda>(path, name). length path)") (auto dest!: skipelem_elems(2))

declare walk_elems.simps [simp del]

lemma length_skipelem:
  assumes "skipelem path old = Some (rest, name)" "length old = DIRSIZ"
  shows "length name = DIRSIZ"
  using skipelem_elems(2) [OF assms(1)] assms(2) by auto

text \<open>
  C34: repeated \<^verbatim>\<open>skipelem\<close> yields exactly the nonempty pieces of the path between slashes, in
  order, each cut to DIRSIZ bytes, whatever the name buffer held before.
\<close>

theorem skipelem_walks_elements:
  assumes "0 \<notin> set path" "length name = DIRSIZ"
  shows "walk_elems path name = map (take DIRSIZ) (path_elems path)"
  using assms
proof (induction path name rule: walk_elems.induct)
  case (1 path name)
  show ?case
  proof (cases "skipelem path name")
    case None
    then have "path_elems path = []" using skipelem_elems(1) by blast
    then show ?thesis using None by (simp add: walk_elems.simps)
  next
    case (Some x)
    then obtain rest name' where s: "skipelem path name = Some (rest, name')" by (cases x) auto
    obtain e where e: "path_elems path = e # path_elems rest" "set e \<subseteq> set path" "set rest \<subseteq> set path"
      "name' = (if length e \<ge> DIRSIZ then take DIRSIZ e @ drop DIRSIZ name else e @ [0] @ drop (Suc (length e)) name)"
      using skipelem_elems(2) [OF s] by auto
    have z: "\<forall>c \<in> set e. c \<noteq> 0" using e(2) "1.prems"(1) by auto
    then have "\<forall>c \<in> set (take DIRSIZ e). c \<noteq> 0" by (meson in_set_takeD)
    then have "takeWhile (\<lambda>c. c \<noteq> 0) name' = take DIRSIZ e"
      using e(4) z "1.prems"(2) by (auto simp: takeWhile_append2)
    moreover have "walk_elems rest name' = map (take DIRSIZ) (path_elems rest)"
      using "1.IH" [OF s refl] e(3) "1.prems" length_skipelem [OF s] by auto
    ultimately show ?thesis using s e(1) by (simp add: walk_elems.simps [of path name])
  qed
qed

theorem skipelem_walks_elements_witness:
  "walk_elems [47, 47, 97, 47, 47, 98, 98] (replicate DIRSIZ 7) = [[97], [98, 98]]"
  using skipelem_walks_elements [of "[47, 47, 97, 47, 47, 98, 98]" "replicate DIRSIZ 7"]
  by (simp add: path_elems_def slash_def DIRSIZ_def)



end
