(* ===== verification/File.thy ===== *)
theory File
  imports Pipe Fs
begin

text \<open>
  Open files (\<^verbatim>\<open>file.c\<close>) and the creation of a pipe (\<^verbatim>\<open>pipealloc\<close> of \<^verbatim>\<open>pipe.c\<close>). File
  pointers are indices into the file table.
\<close>

abbreviation upd_file :: "nat \<Rightarrow> (file_t \<Rightarrow> file_t) \<Rightarrow> unit kern" where
  "upd_file f g \<equiv> modify (\<lambda>s. s\<lparr>k_ftable := upd_at f g (k_ftable s)\<rparr>)"

abbreviation get_file :: "nat \<Rightarrow> file_t kern" where
  "get_file f \<equiv> gets (\<lambda>s. k_ftable s ! f)"

definition fileinit :: "unit kern" where
  "fileinit = initlock FtableLk ''ftable''"

definition filealloc :: "nat option kern" where
  "filealloc = andthen (acquire FtableLk) (bnd (gets (\<lambda>s. find_idx (\<lambda>f. f_ref f = 0) (k_ftable s))) (\<lambda>r.
     case r of Some f \<Rightarrow> andthen (upd_file f (\<lambda>f. f\<lparr>f_ref := 1\<rparr>)) (andthen (release FtableLk) (ret (Some f)))
     | None \<Rightarrow> andthen (release FtableLk) (ret None)))"

definition filedup :: "nat \<Rightarrow> nat kern" where
  "filedup f = andthen (acquire FtableLk) (bnd (get_file f) (\<lambda>ff.
     if f_ref ff < 1 then panic ''filedup''
     else andthen (upd_file f (\<lambda>f. f\<lparr>f_ref := f_ref f + 1\<rparr>)) (andthen (release FtableLk) (ret f))))"

definition fileclose :: "nat \<Rightarrow> unit kern" where
  "fileclose f = andthen (acquire FtableLk) (bnd (get_file f) (\<lambda>ff.
     if f_ref ff < 1 then panic ''fileclose''
     else andthen (upd_file f (\<lambda>f. f\<lparr>f_ref := f_ref f - 1\<rparr>))
       (if f_ref ff - 1 > 0 then release FtableLk
        else andthen (upd_file f (\<lambda>f. f\<lparr>f_ref := 0, f_type := FD_NONE\<rparr>)) (andthen (release FtableLk)
          (case f_type ff of
             FD_PIPE \<Rightarrow> pipeclose (f_pipe ff) (f_writable ff)
           | FD_INODE \<Rightarrow> andthen begin_op (bnd (nonnull (f_ip ff)) (\<lambda>ip. andthen (iput ip) end_op))
           | FD_NONE \<Rightarrow> ret ())))))"

definition filestat :: "nat \<Rightarrow> (int \<times> stat option) kern" where
  "filestat f = bnd (get_file f) (\<lambda>ff.
     if f_type ff = FD_INODE then bnd (nonnull (f_ip ff)) (\<lambda>ip. andthen (ilock ip) (bnd (stati ip) (\<lambda>st.
       andthen (iunlock ip) (ret (0, Some st)))))
     else ret (-1, None))"

definition fileread :: "nat \<Rightarrow> sink \<Rightarrow> int \<Rightarrow> (int \<times> uchar list) kern" where
  "fileread f put n = bnd (get_file f) (\<lambda>ff.
     if \<not> f_readable ff then ret (-1, [])
     else case f_type ff of
       FD_PIPE \<Rightarrow> piperead (f_pipe ff) put n
     | FD_INODE \<Rightarrow> bnd (nonnull (f_ip ff)) (\<lambda>ip. andthen (ilock ip) (bnd (get_file f) (\<lambda>ff.
         bnd (readi ip put (f_off ff) (of_int n)) (\<lambda>(r, bs).
         andthen (if r > 0 then upd_file f (\<lambda>f. f\<lparr>f_off := f_off f + of_int r\<rparr>) else ret ())
         (andthen (iunlock ip) (ret (r, bs)))))))
     | FD_NONE \<Rightarrow> panic ''fileread'')"

definition filewrite_max :: int where
  "filewrite_max = (int LOGSIZE - 1 - 1 - 2) div 2 * 512"

definition filewrite_round :: "nat \<Rightarrow> nat \<Rightarrow> source \<Rightarrow> int \<Rightarrow> int \<Rightarrow> (int + int) kern" where
  "filewrite_round f ip src n i = (if \<not> i < n then ret (Inr (if i = n then n else -1))
     else let n1 = min (n - i) filewrite_max in
       andthen begin_op (andthen (ilock ip) (bnd (get_file f) (\<lambda>ff.
       bnd (writei ip (\<lambda>off. src (of_int i + off)) (f_off ff) (of_int n1)) (\<lambda>r.
       andthen (if r > 0 then upd_file f (\<lambda>f. f\<lparr>f_off := f_off f + of_int r\<rparr>) else ret ())
       (andthen (iunlock ip) (andthen end_op
       (if r < 0 then ret (Inr (if i = n then n else -1))
        else if r \<noteq> n1 then panic ''short filewrite''
        else ret (Inl (i + r))))))))))"

definition filewrite :: "nat \<Rightarrow> source \<Rightarrow> int \<Rightarrow> int kern" where
  "filewrite f src n = bnd (get_file f) (\<lambda>ff.
     if \<not> f_writable ff then ret (-1)
     else case f_type ff of
       FD_PIPE \<Rightarrow> pipewrite (f_pipe ff) src n
     | FD_INODE \<Rightarrow> bnd (nonnull (f_ip ff)) (\<lambda>ip. loop (Suc (nat n)) (filewrite_round f ip src n) 0)
     | FD_NONE \<Rightarrow> panic ''filewrite'')"

text \<open>
  \<^verbatim>\<open>pipealloc\<close>: the contents of the buffer are those of a free page, which \<^verbatim>\<open>kfree\<close> fills
  with ones.
\<close>

definition pipe_bad :: "uint \<Rightarrow> nat option \<Rightarrow> nat option \<Rightarrow> (int \<times> nat option \<times> nat option) kern" where
  "pipe_bad p f0 f1 = andthen (if p \<noteq> 0 then kfree p else ret ())
     (andthen (case f0 of None \<Rightarrow> ret () | Some f \<Rightarrow> fileclose f)
     (andthen (case f1 of None \<Rightarrow> ret () | Some f \<Rightarrow> fileclose f) (ret (-1, f0, f1))))"

definition pipealloc :: "(int \<times> nat option \<times> nat option) kern" where
  "pipealloc = bnd filealloc (\<lambda>f0. case f0 of None \<Rightarrow> pipe_bad 0 None None
     | Some r \<Rightarrow> bnd filealloc (\<lambda>f1. case f1 of None \<Rightarrow> pipe_bad 0 f0 None
     | Some w \<Rightarrow> bnd kalloc (\<lambda>p. if p = 0 then pipe_bad 0 f0 f1
       else andthen (modify (\<lambda>s. s\<lparr>k_pipes := (k_pipes s)(p \<mapsto> \<lparr>pi_data = replicate PIPESIZE 1, pi_nread = 0,
             pi_nwrite = 0, pi_readopen = True, pi_writeopen = True\<rparr>)\<rparr>))
         (andthen (initlock (PipeLk p) ''pipe'')
         (andthen (upd_file r (\<lambda>f. f\<lparr>f_type := FD_PIPE, f_readable := True, f_writable := False, f_pipe := p\<rparr>))
         (andthen (upd_file w (\<lambda>f. f\<lparr>f_type := FD_PIPE, f_readable := False, f_writable := True, f_pipe := p\<rparr>))
         (ret (0, f0, f1))))))))"

end
