(* ===== verification/Process.thy ===== *)
theory Process
  imports File
begin

text \<open>
  Processes and threads (\<^verbatim>\<open>proc.c\<close>, \<^verbatim>\<open>thread.c\<close>): creation, growth, exit and waiting. A thread
  is an entry of the process table that shares the page directory and the pid of the entry
  that cloned it.
\<close>

abbreviation get_proc :: "nat \<Rightarrow> proc kern" where
  "get_proc i \<equiv> gets (\<lambda>s. k_procs s ! i)"

section \<open>Creation\<close>

definition FL_IF :: uint where "FL_IF = 0x200"

definition user_tf :: trapframe where
  "user_tf = tf0\<lparr>tf_cs := 0x23, tf_ds := 0x2B, tf_es := 0x2B, tf_ss := 0x2B, tf_eflags := FL_IF,
     tf_esp := PGSIZE, tf_eip := 0\<rparr>"

text \<open>\<open>initcode\<close> is the image of \<^verbatim>\<open>initcode.S\<close>.\<close>

definition userinit :: "uchar list \<Rightarrow> unit kern" where
  "userinit initcode = bnd allocproc (\<lambda>r. andthen (modify (\<lambda>s. s\<lparr>k_initproc := r\<rparr>))
     (bnd (nonnull r) (\<lambda>p. bnd setupkvm (\<lambda>d. andthen (upd_proc p (\<lambda>q. q\<lparr>p_pgdir := d\<rparr>))
     (if d = 0 then panic ''userinit: out of memory?''
      else andthen (inituvm d initcode)
        (andthen (upd_proc p (\<lambda>q. q\<lparr>p_sz := PGSIZE, p_tf := user_tf,
            p_name := safestrcpy (p_name q) (bytes_of (map of_char ''initcode'')) 16\<rparr>))
        (bnd (namei [slash]) (\<lambda>cwd. andthen (upd_proc p (\<lambda>q. q\<lparr>p_cwd := cwd\<rparr>))
          (upd_proc p (\<lambda>q. q\<lparr>p_state := RUNNABLE\<rparr>))))))))))"

definition growproc :: "int \<Rightarrow> int kern" where
  "growproc n = bnd curproc (\<lambda>i. bnd (get_proc i) (\<lambda>p.
     bnd (if n > 0 then allocuvm (p_pgdir p) (p_sz p) (p_sz p + of_int n)
          else if n < 0 then deallocuvm (p_pgdir p) (p_sz p) (p_sz p + of_int n)
          else ret (p_sz p)) (\<lambda>sz.
     if n \<noteq> 0 \<and> sz = 0 then ret (-1)
     else andthen (upd_proc i (\<lambda>p. p\<lparr>p_sz := sz\<rparr>)) (andthen (switchuvm i) (ret 0)))))"

text \<open>The descriptors and the directory of entry \<open>i\<close> are duplicated into entry \<open>np\<close>.\<close>

definition dup_files :: "nat \<Rightarrow> nat \<Rightarrow> unit kern" where
  "dup_files i np = andthen (for_each [0..<NOFILE] (\<lambda>fd. bnd (get_proc i) (\<lambda>p.
       case p_ofile p ! fd of None \<Rightarrow> ret ()
       | Some f \<Rightarrow> bnd (filedup f) (\<lambda>f. upd_proc np (\<lambda>q. q\<lparr>p_ofile := (p_ofile q)[fd := Some f]\<rparr>)))))
     (bnd (get_proc i) (\<lambda>p. bnd (nonnull (p_cwd p)) (\<lambda>c. bnd (idup c) (\<lambda>c.
       upd_proc np (\<lambda>q. q\<lparr>p_cwd := Some c\<rparr>)))))"

definition fork :: "int kern" where
  "fork = bnd allocproc (\<lambda>r. case r of None \<Rightarrow> ret (-1)
     | Some np \<Rightarrow> bnd curproc (\<lambda>i. bnd (get_proc i) (\<lambda>p.
       bnd (copyuvm (p_pgdir p) (p_sz p)) (\<lambda>d. andthen (upd_proc np (\<lambda>q. q\<lparr>p_pgdir := d\<rparr>))
       (if d = 0 then bnd (get_proc np) (\<lambda>q. andthen (kfree (p_kstack q))
          (andthen (upd_proc np (\<lambda>q. q\<lparr>p_kstack := 0, p_state := UNUSED\<rparr>)) (ret (-1))))
        else andthen (modify (\<lambda>s. update_procs (upd_at np (\<lambda>q. q\<lparr>p_sz := p_sz (k_procs s ! i), p_parent := Some i,
              p_tf := (p_tf (k_procs s ! i))\<lparr>tf_eax := 0\<rparr>, p_is_thread := p_is_thread (k_procs s ! i)\<rparr>)) s))
          (andthen (dup_files i np)
          (bnd (get_proc i) (\<lambda>p. andthen (upd_proc np (\<lambda>q. q\<lparr>p_name := safestrcpy (p_name q) (bytes_of (p_name p)) 16\<rparr>))
          (bnd (get_proc np) (\<lambda>q. let pid = p_pid q in
            andthen (acquire PtableLk) (andthen (upd_proc np (\<lambda>q. q\<lparr>p_state := RUNNABLE\<rparr>))
            (andthen (release PtableLk) (ret pid)))))))))))))"

section \<open>Threads\<close>

definition clone_tail :: "nat \<Rightarrow> int kern" where
  "clone_tail np = andthen (release PtableLk) (bnd (get_proc np) (\<lambda>q. ret (p_tid q)))"

definition new_tid :: "nat \<Rightarrow> int \<Rightarrow> int kern" where
  "new_tid i tid = bnd (gets (\<lambda>s. find_idx (\<lambda>q. p_pid q = p_pid (k_procs s ! i) \<and> \<not> p_is_thread q) (k_procs s))) (\<lambda>r.
     case r of None \<Rightarrow> ret tid
     | Some l \<Rightarrow> andthen (upd_proc l (\<lambda>q. q\<lparr>p_numOfThread := p_numOfThread q + 1\<rparr>))
         (bnd (get_proc l) (\<lambda>q. ret (p_numOfThread q))))"

definition clone :: "uint \<Rightarrow> uint \<Rightarrow> uint \<Rightarrow> int kern" where
  "clone func arg stack = bnd curproc (\<lambda>i. bnd (get_proc i) (\<lambda>p.
     if p_numOfThread p = 7 then ret (-1)
     else bnd allocproc (\<lambda>r. case r of None \<Rightarrow> ret (-1)
     | Some np \<Rightarrow> andthen (modify (\<lambda>s. update_procs (upd_at np (\<lambda>q. q\<lparr>p_pgdir := p_pgdir p, p_sz := p_sz p,
           p_parent := Some i, p_is_thread := True, p_tf := (p_tf p)\<lparr>tf_eax := 0\<rparr>\<rparr>)) s))
       (andthen (dup_files i np)
       (andthen (upd_proc np (\<lambda>q. q\<lparr>p_name := safestrcpy (p_name q) (bytes_of (p_name p)) 16, p_pid := p_pid p\<rparr>))
       (andthen (modify (\<lambda>s. s\<lparr>k_nextpid := k_nextpid s - 1\<rparr>))
       (bnd (new_tid i (p_tid p)) (\<lambda>tid. andthen (upd_proc np (\<lambda>q. q\<lparr>p_tid := tid\<rparr>))
       (andthen (store32 (stack - 4) arg) (andthen (store32 (stack - 8) 0xFFFFFFFF)
       (andthen (upd_proc np (\<lambda>q. q\<lparr>p_tf := (p_tf q)\<lparr>tf_eip := func, tf_esp := stack - 8, tf_ebp := stack - 8\<rparr>\<rparr>))
       (andthen (acquire PtableLk) (andthen (upd_proc np (\<lambda>q. q\<lparr>p_state := RUNNABLE\<rparr>))
       (andthen (upd_proc i (\<lambda>q. q\<lparr>p_state := RUNNABLE\<rparr>)) (andthen sched (clone_tail np))))))))))))))))"

section \<open>Exit\<close>

definition close_files :: "nat \<Rightarrow> unit kern" where
  "close_files i = for_each [0..<NOFILE] (\<lambda>fd. bnd (get_proc i) (\<lambda>p. case p_ofile p ! fd of None \<Rightarrow> ret ()
     | Some f \<Rightarrow> andthen (fileclose f) (upd_proc i (\<lambda>p. p\<lparr>p_ofile := (p_ofile p)[fd := None]\<rparr>))))"

text \<open>A thread that exits takes the whole process with it.\<close>

definition exit_siblings :: "nat \<Rightarrow> unit kern" where
  "exit_siblings i = for_each [0..<NPROC] (\<lambda>j. bnd (get_proc i) (\<lambda>me. bnd (get_proc j) (\<lambda>p.
     if p_pid p = p_pid me \<and> \<not> p_is_thread p then
       andthen (upd_proc j (\<lambda>p. p\<lparr>p_state := ZOMBIE\<rparr>)) (wakeup1 (chan_of (p_parent p)))
     else if p_pid p = p_pid me then upd_proc j (\<lambda>p. p\<lparr>p_parent := None, p_state := ZOMBIE\<rparr>)
     else ret ())))"

definition exit_children :: "nat \<Rightarrow> unit kern" where
  "exit_children i = for_each [0..<NPROC] (\<lambda>j. bnd (get_proc i) (\<lambda>me. bnd (get_proc j) (\<lambda>p.
     if p_parent p = Some i then
       if p_pgdir p \<noteq> p_pgdir me then bnd (gets k_initproc) (\<lambda>init.
         andthen (upd_proc j (\<lambda>p. p\<lparr>p_parent := init\<rparr>))
         (if p_state p = ZOMBIE then wakeup1 (chan_of init) else ret ()))
       else upd_proc j (\<lambda>p. p\<lparr>p_parent := None, p_state := ZOMBIE\<rparr>)
     else ret ())))"

definition exit :: "unit kern" where
  "exit = bnd curproc (\<lambda>i. bnd (gets k_initproc) (\<lambda>init.
     if init = Some i then panic ''init exiting''
     else andthen (close_files i) (andthen begin_op
       (bnd (get_proc i) (\<lambda>p. bnd (nonnull (p_cwd p)) (\<lambda>c. andthen (iput c) (andthen end_op
       (andthen (upd_proc i (\<lambda>p. p\<lparr>p_cwd := None\<rparr>)) (andthen (acquire PtableLk)
       (bnd (get_proc i) (\<lambda>p. andthen (wakeup1 (chan_of (p_parent p)))
       (andthen (if p_is_thread p then andthen (exit_siblings i)
           (andthen (upd_proc i (\<lambda>p. p\<lparr>p_state := ZOMBIE\<rparr>)) sched) else ret ())
       (andthen (exit_children i)
       (andthen (upd_proc i (\<lambda>p. p\<lparr>p_state := ZOMBIE\<rparr>)) (andthen sched (panic ''zombie exit''))))))))))))))))"

definition orphan_children :: "nat \<Rightarrow> unit kern" where
  "orphan_children i = for_each [0..<NPROC] (\<lambda>j. bnd (get_proc j) (\<lambda>p.
     if p_parent p = Some i then bnd (gets k_initproc) (\<lambda>init.
       andthen (upd_proc j (\<lambda>p. p\<lparr>p_parent := init\<rparr>))
       (if p_state p = ZOMBIE then wakeup1 (chan_of init) else ret ()))
     else ret ()))"

definition exit_thread :: "uint \<Rightarrow> unit kern" where
  "exit_thread retval = bnd curproc (\<lambda>i. andthen (upd_proc i (\<lambda>p. p\<lparr>p_exit_status := retval\<rparr>))
     (bnd (gets k_initproc) (\<lambda>init. if init = Some i then panic ''init exiting''
     else andthen (acquire PtableLk) (bnd (get_proc i) (\<lambda>p. andthen (wakeup1 (chan_of (p_parent p)))
       (andthen (orphan_children i)
       (andthen (upd_proc i (\<lambda>p. p\<lparr>p_state := ZOMBIE\<rparr>)) (andthen sched (panic ''zombie exit'')))))))))"

section \<open>Waiting\<close>

text \<open>One pass of \<^verbatim>\<open>wait\<close> over the table, with the lock held.\<close>

definition wait_loop :: "int kern" where
  "wait_loop = bnd curproc (\<lambda>i. bnd (gets k_procs) (\<lambda>ps.
     case find_idx (\<lambda>p. p_parent p = Some i \<and> p_state p = ZOMBIE) ps of
       Some j \<Rightarrow> let pid = p_pid (ps ! j) in
         andthen (kfree (p_kstack (ps ! j))) (andthen (upd_proc j (\<lambda>p. p\<lparr>p_kstack := 0\<rparr>))
         (andthen (freevm (p_pgdir (ps ! j)))
         (andthen (upd_proc j (\<lambda>p. p\<lparr>p_state := UNUSED, p_pid := 0, p_parent := None,
             p_name := (p_name p)[0 := 0], p_killed := False\<rparr>))
         (andthen (release PtableLk) (ret pid)))))
     | None \<Rightarrow> if (\<forall>p\<in>set ps. p_parent p \<noteq> Some i) \<or> p_killed (ps ! i)
         then andthen (release PtableLk) (ret (-1))
         else block_on (ChProc i) PtableLk))"

definition wait :: "int kern" where
  "wait = andthen (acquire PtableLk) wait_loop"

definition wait_thread_loop :: "int \<Rightarrow> uint \<Rightarrow> int kern" where
  "wait_thread_loop tid retval = bnd curproc (\<lambda>i. bnd (gets k_procs) (\<lambda>ps.
     case find_idx (\<lambda>p. p_parent p = Some i \<and> p_tid p = tid \<and> p_is_thread p \<and> p_state p = ZOMBIE) ps of
       Some j \<Rightarrow> andthen (upd_proc i (\<lambda>p. p\<lparr>p_numOfThread := p_numOfThread p - 1\<rparr>))
         (andthen (kfree (p_kstack (ps ! j)))
         (andthen (upd_proc j (\<lambda>p. p\<lparr>p_kstack := 0, p_state := UNUSED, p_pid := 0, p_parent := None,
             p_name := (p_name p)[0 := 0], p_killed := False, p_is_thread := False\<rparr>))
         (andthen (store32 retval (p_exit_status (ps ! j)))
         (andthen (upd_proc j (\<lambda>p. p\<lparr>p_exit_status := 0\<rparr>))
         (andthen (release PtableLk) (ret (p_tid (ps ! j))))))))
     | None \<Rightarrow> if (\<forall>p\<in>set ps. \<not> (p_parent p = Some i \<and> p_tid p = tid \<and> p_is_thread p)) \<or> p_killed (ps ! i)
         then andthen (release PtableLk) (ret (-1))
         else block_on (ChProc i) PtableLk))"

definition wait_thread :: "int \<Rightarrow> uint \<Rightarrow> int kern" where
  "wait_thread tid retval = andthen (acquire PtableLk) (wait_thread_loop tid retval)"

text \<open>\<open>first\<close> is the static variable of \<^verbatim>\<open>forkret\<close>, true for the first process only.\<close>

definition forkret :: "bool \<Rightarrow> unit kern" where
  "forkret first = andthen (release PtableLk) (if first then andthen (iinit ROOTDEV) (initlog ROOTDEV) else ret ())"

section \<open>The thread library (thread.c)\<close>

text \<open>The lock is free when it is 1. An acquirer that finds it taken spins.\<close>

definition lockinit :: "unit kern" where
  "lockinit = modify (\<lambda>s. s\<lparr>k_thrlock := 1\<rparr>)"

definition lock_acquire :: "unit kern" where
  "lock_acquire = bnd (gets k_thrlock) (\<lambda>v. andthen (modify (\<lambda>s. s\<lparr>k_thrlock := 0\<rparr>))
     (if v = 0 then (\<lambda>s. Spin) else ret ()))"

definition lock_release :: "unit kern" where
  "lock_release = modify (\<lambda>s. s\<lparr>k_thrlock := 1\<rparr>)"

definition thread_create :: "uint \<Rightarrow> int \<Rightarrow> uint \<Rightarrow> uint \<Rightarrow> int kern" where
  "thread_create func priority arg stack = clone func arg stack"

definition thread_exit :: "uint \<Rightarrow> unit kern" where
  "thread_exit retval = exit_thread retval"

definition thread_join :: "int \<Rightarrow> uint \<Rightarrow> int kern" where
  "thread_join tid retval = andthen lock_acquire (bnd (wait_thread tid retval) (\<lambda>r.
     if r < 0 then ret (-1) else andthen lock_release (ret 0)))"

definition gettid :: "int kern" where
  "gettid = bnd curproc (\<lambda>i. gets (\<lambda>s. p_tid (k_procs s ! i)))"

end
