(* ===== verification/Exec.thy ===== *)
theory Exec
  imports Process
begin

text \<open>
  Loading a program: \<^verbatim>\<open>loaduvm\<close> (\<^verbatim>\<open>vm.c\<close>), the file formats of \<^verbatim>\<open>elf.h\<close> and
  \<^verbatim>\<open>exec\<close> (\<^verbatim>\<open>exec.c\<close>). The arguments are the list of their strings, without the final
  null pointer.
\<close>

unbundle bit_operations_syntax

definition kmem_buf :: "uint \<Rightarrow> sink" where
  "kmem_buf a off bs = modify (\<lambda>s. s\<lparr>k_mem := put_bytes (k_mem s) (a + off) bs\<rparr>)"

definition loaduvm_round :: "uint \<Rightarrow> uint \<Rightarrow> nat \<Rightarrow> uint \<Rightarrow> uint \<Rightarrow> uint \<Rightarrow> (uint + int) kern" where
  "loaduvm_round pgdir addr ip offset sz i = (if \<not> i < sz then ret (Inr 0)
     else bnd (walkpgdir pgdir (addr + i) False) (\<lambda>pte.
       if pte = 0 then panic ''loaduvm: address should exist''
       else bnd (gets (\<lambda>s. PTE_ADDR (ld32 (k_mem s) pte))) (\<lambda>pa.
         let n = (if sz - i < PGSIZE then sz - i else PGSIZE) in
         bnd (readi ip (kmem_buf (p2v pa)) (offset + i) n) (\<lambda>(r, _).
         ret (if of_int r \<noteq> n then Inr (-1) else Inl (i + PGSIZE))))))"

definition loaduvm :: "uint \<Rightarrow> uint \<Rightarrow> nat \<Rightarrow> uint \<Rightarrow> uint \<Rightarrow> int kern" where
  "loaduvm pgdir addr ip offset sz = (if addr mod PGSIZE \<noteq> 0 then panic ''loaduvm: addr must be page aligned''
     else loop (Suc NPAGES) (loaduvm_round pgdir addr ip offset sz) 0)"

section \<open>ELF headers\<close>

definition ELF_MAGIC :: uint where "ELF_MAGIC = 0x464C457F"
definition ELF_PROG_LOAD :: uint where "ELF_PROG_LOAD = 1"

record elfhdr =
  elf_magic :: uint
  elf_entry :: uint
  elf_phoff :: uint
  elf_phnum :: ushort

record proghdr =
  ph_type :: uint
  ph_off :: uint
  ph_vaddr :: uint
  ph_filesz :: uint
  ph_memsz :: uint

definition get_elfhdr :: "uchar list \<Rightarrow> elfhdr" where
  "get_elfhdr d = \<lparr>elf_magic = get32 d 0, elf_entry = get32 d 24, elf_phoff = get32 d 28, elf_phnum = get16 d 44\<rparr>"

definition get_proghdr :: "uchar list \<Rightarrow> proghdr" where
  "get_proghdr d = \<lparr>ph_type = get32 d 0, ph_off = get32 d 4, ph_vaddr = get32 d 8,
     ph_filesz = get32 d 16, ph_memsz = get32 d 20\<rparr>"

section \<open>exec\<close>

definition MAXARG :: nat where "MAXARG = 32"

text \<open>The label \<^verbatim>\<open>bad\<close>, with the inode when it is still locked.\<close>

definition exec_bad :: "uint \<Rightarrow> nat option \<Rightarrow> int kern" where
  "exec_bad pgdir ip = andthen (if pgdir \<noteq> 0 then freevm pgdir else ret ())
     (andthen (case ip of None \<Rightarrow> ret () | Some ip \<Rightarrow> andthen (iunlockput ip) end_op) (ret (-1)))"

text \<open>The loop over the program headers gives the size of the image.\<close>

definition exec_segment :: "uint \<Rightarrow> nat \<Rightarrow> elfhdr \<Rightarrow> nat \<times> uint \<times> uint \<Rightarrow> ((nat \<times> uint \<times> uint) + uint option) kern" where
  "exec_segment pgdir ip elf x = (case x of (i, off, sz) \<Rightarrow>
     if \<not> i < unat (elf_phnum elf) then ret (Inr (Some sz))
     else bnd (readi ip kbuf off 32) (\<lambda>(r, bs). if r \<noteq> 32 then ret (Inr None)
       else let ph = get_proghdr bs in
         if ph_type ph \<noteq> ELF_PROG_LOAD then ret (Inl (i + 1, off + 32, sz))
         else if ph_memsz ph < ph_filesz ph then ret (Inr None)
         else bnd (allocuvm pgdir sz (ph_vaddr ph + ph_memsz ph)) (\<lambda>sz. if sz = 0 then ret (Inr None)
           else bnd (loaduvm pgdir (ph_vaddr ph) ip (ph_off ph) (ph_filesz ph)) (\<lambda>r.
             if r < 0 then ret (Inr None) else ret (Inl (i + 1, off + 32, sz))))))"

definition exec_load :: "uint \<Rightarrow> nat \<Rightarrow> elfhdr \<Rightarrow> uint option kern" where
  "exec_load pgdir ip elf = loop (unat (elf_phnum elf) + 1) (exec_segment pgdir ip elf) (0, elf_phoff elf, 0)"

text \<open>
  The argument strings are pushed below \<open>sp\<close>: \<open>None\<close> is the jump to \<^verbatim>\<open>bad\<close>, otherwise
  the stack pointer and the addresses of the strings.
\<close>

fun push_args :: "uint \<Rightarrow> uchar list list \<Rightarrow> uint \<Rightarrow> uint list \<Rightarrow> (uint \<times> uint list) option kern" where
  "push_args pgdir [] sp us = ret (Some (sp, us))"
| "push_args pgdir (a # argv) sp us = (if length us \<ge> MAXARG then ret None
     else let sp = (sp - of_nat (length a + 1)) AND NOT 3 in
       bnd (copyout pgdir sp (a @ [0])) (\<lambda>r. if r < 0 then ret None else push_args pgdir argv sp (us @ [sp])))"

definition ustack :: "uint \<Rightarrow> uint list \<Rightarrow> uint list" where
  "ustack sp us = [0xFFFFFFFF, of_nat (length us), sp - of_nat (length us + 1) * 4] @ us @ [0]"

definition word_bytes :: "uint \<Rightarrow> uchar list" where
  "word_bytes v = [ucast v, ucast (drop_bit 8 v), ucast (drop_bit 16 v), ucast (drop_bit 24 v)]"

definition last_elem :: "uchar list \<Rightarrow> uchar list" where
  "last_elem path = rev (takeWhile (\<lambda>c. c \<noteq> slash) (rev path))"

definition exec_commit :: "uchar list \<Rightarrow> uint \<Rightarrow> uint \<Rightarrow> uint \<Rightarrow> uint \<Rightarrow> int kern" where
  "exec_commit path pgdir sz entry sp = bnd curproc (\<lambda>i. bnd (get_proc i) (\<lambda>p.
     andthen (upd_proc i (\<lambda>p. p\<lparr>p_name := safestrcpy (p_name p) (bytes_of (last_elem path)) 16,
       p_pgdir := pgdir, p_sz := sz, p_tf := (p_tf p)\<lparr>tf_eip := entry, tf_esp := sp\<rparr>\<rparr>))
     (andthen (switchuvm i) (andthen (freevm (p_pgdir p)) (ret 0)))))"

definition exec_stack :: "uchar list \<Rightarrow> uchar list list \<Rightarrow> uint \<Rightarrow> uint \<Rightarrow> uint \<Rightarrow> int kern" where
  "exec_stack path argv pgdir entry sz = (let sz = PGROUNDUP sz in
     bnd (allocuvm pgdir sz (sz + 2 * PGSIZE)) (\<lambda>sz. if sz = 0 then exec_bad pgdir None
     else andthen (clearpteu pgdir (sz - 2 * PGSIZE)) (bnd (push_args pgdir argv sz []) (\<lambda>r. case r of
       None \<Rightarrow> exec_bad pgdir None
     | Some (sp, us) \<Rightarrow> let sp' = sp - of_nat (3 + length us + 1) * 4 in
         bnd (copyout pgdir sp' (concat (map word_bytes (ustack sp us)))) (\<lambda>r.
         if r < 0 then exec_bad pgdir None else exec_commit path pgdir sz entry sp')))))"

text \<open>
  \<open>stk\<close> is what the stack slot of the header \<^verbatim>\<open>elf\<close> held before: a read that gives \<open>-1\<close>
  leaves it as it was, and passes the check, since \<^verbatim>\<open>readi(...) < sizeof(elf)\<close>
  compares unsigned.
\<close>

definition exec :: "uchar list \<Rightarrow> uchar list \<Rightarrow> uchar list list \<Rightarrow> int kern" where
  "exec stk path argv = andthen begin_op (bnd (namei path) (\<lambda>r. case r of
     None \<Rightarrow> andthen end_op (ret (-1))
   | Some ip \<Rightarrow> andthen (ilock ip) (bnd (readi ip kbuf 0 52) (\<lambda>(r, bs).
       let elf = get_elfhdr (bs @ drop (length bs) stk) in
       if (of_int r :: uint) < 52 then exec_bad 0 (Some ip)
       else if elf_magic elf \<noteq> ELF_MAGIC then exec_bad 0 (Some ip)
       else bnd setupkvm (\<lambda>pgdir. if pgdir = 0 then exec_bad 0 (Some ip)
         else bnd (exec_load pgdir ip elf) (\<lambda>r. case r of None \<Rightarrow> exec_bad pgdir (Some ip)
         | Some sz \<Rightarrow> andthen (iunlockput ip) (andthen end_op
             (exec_stack path argv pgdir (elf_entry elf) sz))))))))"

end
