(* ===== verification/Syscall.thy ===== *)
theory Syscall
  imports Exec
begin

text \<open>
  System calls: fetching arguments from user memory (\<^verbatim>\<open>syscall.c\<close>), the calls on processes (\<^verbatim>\<open>sysproc.c\<close>) and on files
  (\<^verbatim>\<open>sysfile.c\<close>), and the dispatcher. A string argument is its bytes up to the terminating zero; a
  fetch that fails is \<open>None\<close>.
\<close>

unbundle bit_operations_syntax

section \<open>Arguments\<close>

definition proc_sz :: "uint kern" where
  "proc_sz = bnd curproc (\<lambda>i. gets (\<lambda>s. p_sz (k_procs s ! i)))"

definition fetchint :: "uint \<Rightarrow> uint option kern" where
  "fetchint addr = bnd proc_sz (\<lambda>sz. if addr \<ge> sz \<or> addr + 4 > sz then ret None
     else bnd (load32 addr) (\<lambda>v. ret (Some v)))"

definition fetchstr_round :: "uint \<Rightarrow> uint \<times> uchar list \<Rightarrow> ((uint \<times> uchar list) + uchar list option) kern" where
  "fetchstr_round ep x = (case x of (s, acc) \<Rightarrow> if \<not> s < ep then ret (Inr None)
     else bnd (load8 s) (\<lambda>c. ret (if c = 0 then Inr (Some acc) else Inl (s + 1, acc @ [c]))))"

definition fetchstr :: "uint \<Rightarrow> uchar list option kern" where
  "fetchstr addr = bnd proc_sz (\<lambda>sz. if addr \<ge> sz then ret None
     else loop (Suc (unat (sz - addr))) (fetchstr_round sz) (addr, []))"

definition argint :: "nat \<Rightarrow> uint option kern" where
  "argint n = bnd curproc (\<lambda>i. bnd (get_proc i) (\<lambda>p. fetchint (tf_esp (p_tf p) + 4 + 4 * of_nat n)))"

definition argptr :: "nat \<Rightarrow> int \<Rightarrow> uint option kern" where
  "argptr n sz0 = bnd (argint n) (\<lambda>r. case r of None \<Rightarrow> ret None
     | Some i \<Rightarrow> bnd proc_sz (\<lambda>sz. ret (if i \<ge> sz \<or> i + of_int sz0 > sz then None else Some i)))"

definition argstr :: "nat \<Rightarrow> uchar list option kern" where
  "argstr n = bnd (argint n) (\<lambda>r. case r of None \<Rightarrow> ret None | Some addr \<Rightarrow> fetchstr addr)"

section \<open>Processes (sysproc.c)\<close>

definition sys_fork :: "int kern" where
  "sys_fork = fork"

definition sys_exit :: "int kern" where
  "sys_exit = andthen exit (ret 0)"

definition sys_wait :: "int kern" where
  "sys_wait = wait"

definition sys_kill :: "int kern" where
  "sys_kill = bnd (argint 0) (\<lambda>r. case r of None \<Rightarrow> ret (-1) | Some pid \<Rightarrow> kill (sint pid))"

definition sys_getpid :: "int kern" where
  "sys_getpid = getpid"

definition sys_sbrk :: "int kern" where
  "sys_sbrk = bnd (argint 0) (\<lambda>r. case r of None \<Rightarrow> ret (-1)
     | Some n \<Rightarrow> bnd proc_sz (\<lambda>addr. bnd (growproc (sint n)) (\<lambda>r. ret (if r < 0 then -1 else sint addr))))"

text \<open>
  The loop of \<^verbatim>\<open>sys_sleep\<close> with the lock held. The comparison is unsigned, as both
  operands of the C expression are converted to \<^verbatim>\<open>uint\<close>.
\<close>

definition sys_sleep_loop :: "uint \<Rightarrow> uint \<Rightarrow> int kern" where
  "sys_sleep_loop ticks0 n = bnd (gets k_ticks) (\<lambda>t. if t - ticks0 < n then bnd proc_killed (\<lambda>killed.
       if killed then andthen (release TicksLk) (ret (-1)) else block_on ChTicks TicksLk)
     else andthen (release TicksLk) (ret 0))"

definition sys_sleep :: "int kern" where
  "sys_sleep = bnd (argint 0) (\<lambda>r. case r of None \<Rightarrow> ret (-1)
     | Some n \<Rightarrow> andthen (acquire TicksLk) (bnd (gets k_ticks) (\<lambda>t. sys_sleep_loop t n)))"

definition sys_uptime :: "int kern" where
  "sys_uptime = andthen (acquire TicksLk) (bnd (gets k_ticks) (\<lambda>t. andthen (release TicksLk) (ret (sint t))))"

text \<open>The word written to port 0xB004, byte by byte.\<close>

definition sys_halt :: "int kern" where
  "sys_halt = andthen (outb 0xB004 0x00) (andthen (outb 0xB005 0x20) (ret 0))"

definition sys_thread_create :: "int kern" where
  "sys_thread_create = bnd (argint 0) (\<lambda>a0. case a0 of None \<Rightarrow> ret (-1) | Some func \<Rightarrow>
     bnd (argint 1) (\<lambda>a1. case a1 of None \<Rightarrow> ret (-1) | Some priority \<Rightarrow>
     bnd (argint 2) (\<lambda>a2. case a2 of None \<Rightarrow> ret (-1) | Some arg \<Rightarrow>
     bnd (argint 3) (\<lambda>a3. case a3 of None \<Rightarrow> ret (-1) | Some stack \<Rightarrow>
       thread_create func (sint priority) arg stack))))"

definition sys_thread_exit :: "int kern" where
  "sys_thread_exit = bnd (argint 0) (\<lambda>a0. case a0 of None \<Rightarrow> ret (-1)
     | Some retval \<Rightarrow> andthen (thread_exit retval) (ret 0))"

definition sys_thread_join :: "int kern" where
  "sys_thread_join = bnd (argint 0) (\<lambda>a0. case a0 of None \<Rightarrow> ret (-1) | Some tid \<Rightarrow>
     bnd (argint 1) (\<lambda>a1. case a1 of None \<Rightarrow> ret (-1) | Some retval \<Rightarrow> thread_join (sint tid) retval))"

definition sys_gettid :: "int kern" where
  "sys_gettid = gettid"

definition sys_clone :: "int kern" where
  "sys_clone = bnd (argint 0) (\<lambda>a0. case a0 of None \<Rightarrow> ret (-1) | Some func \<Rightarrow>
     bnd (argint 1) (\<lambda>a1. case a1 of None \<Rightarrow> ret (-1) | Some arg \<Rightarrow>
     bnd (argint 2) (\<lambda>a2. case a2 of None \<Rightarrow> ret (-1) | Some stack \<Rightarrow> clone func arg stack)))"

section \<open>Files (sysfile.c)\<close>

definition argfd :: "nat \<Rightarrow> (nat \<times> nat) option kern" where
  "argfd n = bnd (argint n) (\<lambda>r. case r of None \<Rightarrow> ret None
     | Some v \<Rightarrow> if sint v < 0 \<or> sint v \<ge> int NOFILE then ret None
       else bnd curproc (\<lambda>i. bnd (get_proc i) (\<lambda>p. let fd = nat (sint v) in
         ret (map_option (\<lambda>f. (fd, f)) (p_ofile p ! fd)))))"

definition fdalloc :: "nat \<Rightarrow> int kern" where
  "fdalloc f = bnd curproc (\<lambda>i. bnd (get_proc i) (\<lambda>p.
     case find_idx (\<lambda>x. x = None) (p_ofile p) of
       Some fd \<Rightarrow> andthen (upd_proc i (\<lambda>p. p\<lparr>p_ofile := (p_ofile p)[fd := Some f]\<rparr>)) (ret (int fd))
     | None \<Rightarrow> ret (-1)))"

definition sys_dup :: "int kern" where
  "sys_dup = bnd (argfd 0) (\<lambda>r. case r of None \<Rightarrow> ret (-1)
     | Some (_, f) \<Rightarrow> bnd (fdalloc f) (\<lambda>fd. if fd < 0 then ret (-1) else andthen (filedup f) (ret fd)))"

definition sys_read :: "int kern" where
  "sys_read = bnd (argfd 0) (\<lambda>r. case r of None \<Rightarrow> ret (-1) | Some (_, f) \<Rightarrow>
     bnd (argint 2) (\<lambda>r. case r of None \<Rightarrow> ret (-1) | Some n \<Rightarrow>
     bnd (argptr 1 (sint n)) (\<lambda>r. case r of None \<Rightarrow> ret (-1) | Some p \<Rightarrow>
       bnd (fileread f (ubuf p) (sint n)) (\<lambda>(r, _). ret r))))"

definition write_problem :: "int kern" where
  "write_problem = andthen (cprintf (''this is a problem'' @ [CHR 0x0A]) (args [])) (ret (-1))"

definition sys_write :: "int kern" where
  "sys_write = bnd (argfd 0) (\<lambda>r. case r of None \<Rightarrow> write_problem | Some (_, f) \<Rightarrow>
     bnd (argint 2) (\<lambda>r. case r of None \<Rightarrow> write_problem | Some n \<Rightarrow>
     bnd (argptr 1 (sint n)) (\<lambda>r. case r of None \<Rightarrow> write_problem | Some p \<Rightarrow>
       filewrite f (ubytes p) (sint n))))"

definition sys_close :: "int kern" where
  "sys_close = bnd (argfd 0) (\<lambda>r. case r of None \<Rightarrow> ret (-1) | Some (fd, f) \<Rightarrow> bnd curproc (\<lambda>i.
     andthen (upd_proc i (\<lambda>p. p\<lparr>p_ofile := (p_ofile p)[fd := None]\<rparr>)) (andthen (fileclose f) (ret 0))))"

text \<open>The bytes of a \<^verbatim>\<open>struct stat\<close>: two of padding follow the type and the link count.\<close>

definition stat_store :: "uint \<Rightarrow> stat \<Rightarrow> unit kern" where
  "stat_store a st = andthen (store_bytes a [ucast (st_type st), ucast (drop_bit 8 (st_type st))])
     (andthen (store32 (a + 4) (st_dev st)) (andthen (store32 (a + 8) (st_ino st))
     (andthen (store_bytes (a + 12) [ucast (st_nlink st), ucast (drop_bit 8 (st_nlink st))])
     (store32 (a + 16) (st_size st)))))"

definition sys_fstat :: "int kern" where
  "sys_fstat = bnd (argfd 0) (\<lambda>r. case r of None \<Rightarrow> ret (-1) | Some (_, f) \<Rightarrow>
     bnd (argptr 1 20) (\<lambda>r. case r of None \<Rightarrow> ret (-1) | Some a \<Rightarrow>
       bnd (filestat f) (\<lambda>(r, st). andthen (case st of None \<Rightarrow> ret () | Some st \<Rightarrow> stat_store a st) (ret r))))"

abbreviation fail_op :: "int kern" where
  "fail_op \<equiv> andthen end_op (ret (-1))"

abbreviation add_link :: "nat \<Rightarrow> unit kern" where
  "add_link ip \<equiv> andthen (upd_inode ip (\<lambda>i. i\<lparr>i_nlink := i_nlink i + 1\<rparr>)) (iupdate ip)"

abbreviation drop_link :: "nat \<Rightarrow> unit kern" where
  "drop_link ip \<equiv> andthen (upd_inode ip (\<lambda>i. i\<lparr>i_nlink := i_nlink i - 1\<rparr>)) (iupdate ip)"

definition link_bad :: "nat \<Rightarrow> int kern" where
  "link_bad ip = andthen (ilock ip) (andthen (drop_link ip) (andthen (iunlockput ip) fail_op))"

definition sys_link :: "int kern" where
  "sys_link = bnd (argstr 0) (\<lambda>r. case r of None \<Rightarrow> ret (-1) | Some old \<Rightarrow>
     bnd (argstr 1) (\<lambda>r. case r of None \<Rightarrow> ret (-1) | Some new \<Rightarrow>
     andthen begin_op (bnd (namei old) (\<lambda>r. case r of None \<Rightarrow> fail_op | Some ip \<Rightarrow>
     andthen (ilock ip) (bnd (get_inode ip) (\<lambda>ino.
     if i_type ino = T_DIR then andthen (iunlockput ip) fail_op
     else andthen (add_link ip) (andthen (iunlock ip)
       (bnd (nameiparent new) (\<lambda>r. case r of None \<Rightarrow> link_bad ip | Some (dp, name) \<Rightarrow>
       andthen (ilock dp) (bnd (get_inode dp) (\<lambda>dino. bnd (get_inode ip) (\<lambda>ino.
       bnd (if i_dev dino \<noteq> i_dev ino then ret (-1) else dirlink dp name (i_inum ino)) (\<lambda>r.
       if r < 0 then andthen (iunlockput dp) (link_bad ip)
       else andthen (iunlockput dp) (andthen (iput ip) (andthen end_op (ret 0))))))))))))))))"

definition isdirempty_round :: "nat \<Rightarrow> uint \<Rightarrow> (uint + bool) kern" where
  "isdirempty_round dp off = bnd (get_inode dp) (\<lambda>ip. if \<not> off < i_size ip then ret (Inr True)
     else bnd (read_dirent dp off ''isdirempty: readi'') (\<lambda>de.
       ret (if de_inum de \<noteq> 0 then Inr False else Inl (off + 16))))"

definition isdirempty :: "nat \<Rightarrow> bool kern" where
  "isdirempty dp = loop (2 ^ 28) (isdirempty_round dp) 32"

definition dot :: "uchar list" where "dot = [0x2E, 0]"
definition dotdot :: "uchar list" where "dotdot = [0x2E, 0x2E, 0]"

definition unlink_bad :: "nat \<Rightarrow> int kern" where
  "unlink_bad dp = andthen (iunlockput dp) fail_op"

definition sys_unlink :: "int kern" where
  "sys_unlink = bnd (argstr 0) (\<lambda>r. case r of None \<Rightarrow> ret (-1) | Some path \<Rightarrow>
     andthen begin_op (bnd (nameiparent path) (\<lambda>r. case r of None \<Rightarrow> fail_op | Some (dp, name) \<Rightarrow>
     andthen (ilock dp)
     (if namecmp (bytes_of name) (bytes_of dot) = 0 \<or> namecmp (bytes_of name) (bytes_of dotdot) = 0 then unlink_bad dp
      else bnd (dirlookup dp name) (\<lambda>r. case r of None \<Rightarrow> unlink_bad dp | Some (ip, off) \<Rightarrow>
        andthen (ilock ip) (bnd (get_inode ip) (\<lambda>ino.
        if sint (i_nlink ino) < 1 then panic ''unlink: nlink < 1''
        else bnd (if i_type ino = T_DIR then isdirempty ip else ret True) (\<lambda>empty.
        if \<not> empty then andthen (iunlockput ip) (unlink_bad dp)
        else bnd (writei dp (kbytes (replicate 16 0)) off 16) (\<lambda>r.
          if r \<noteq> 16 then panic ''unlink: writei''
          else bnd (get_inode ip) (\<lambda>ino. andthen (if i_type ino = T_DIR then drop_link dp else ret ())
            (andthen (iunlockput dp) (andthen (drop_link ip) (andthen (iunlockput ip)
            (andthen end_op (ret 0)))))))))))))))"

definition create_dots :: "nat \<Rightarrow> nat \<Rightarrow> unit kern" where
  "create_dots ip dp = andthen (add_link dp) (bnd (get_inode ip) (\<lambda>ino. bnd (dirlink ip dot (i_inum ino)) (\<lambda>r.
     if r < 0 then panic ''create dots''
     else bnd (get_inode dp) (\<lambda>dino. bnd (dirlink ip dotdot (i_inum dino)) (\<lambda>r.
       if r < 0 then panic ''create dots'' else ret ())))))"

definition create :: "uchar list \<Rightarrow> ushort \<Rightarrow> ushort \<Rightarrow> ushort \<Rightarrow> nat option kern" where
  "create path ty major minor = bnd (nameiparent path) (\<lambda>r. case r of None \<Rightarrow> ret None | Some (dp, name) \<Rightarrow>
     andthen (ilock dp) (bnd (dirlookup dp name) (\<lambda>r. case r of
       Some (ip, _) \<Rightarrow> andthen (iunlockput dp) (andthen (ilock ip) (bnd (get_inode ip) (\<lambda>ino.
         if ty = T_FILE \<and> i_type ino = T_FILE then ret (Some ip) else andthen (iunlockput ip) (ret None))))
     | None \<Rightarrow> bnd (get_inode dp) (\<lambda>dino. bnd (ialloc (i_dev dino) ty) (\<lambda>ip. andthen (ilock ip)
         (andthen (upd_inode ip (\<lambda>i. i\<lparr>i_major := major, i_minor := minor, i_nlink := 1\<rparr>)) (andthen (iupdate ip)
         (andthen (if ty = T_DIR then create_dots ip dp else ret ())
         (bnd (get_inode ip) (\<lambda>ino. bnd (dirlink dp name (i_inum ino)) (\<lambda>r.
         if r < 0 then panic ''create: dirlink''
         else andthen (iunlockput dp) (ret (Some ip)))))))))))))"

definition O_WRONLY :: uint where "O_WRONLY = 1"
definition O_RDWR :: uint where "O_RDWR = 2"
definition O_CREATE :: uint where "O_CREATE = 0x200"

definition open_inode :: "uchar list \<Rightarrow> uint \<Rightarrow> nat option kern" where
  "open_inode path omode = (if omode AND O_CREATE \<noteq> 0 then create path T_FILE 0 0
     else bnd (namei path) (\<lambda>r. case r of None \<Rightarrow> ret None | Some ip \<Rightarrow>
       andthen (ilock ip) (bnd (get_inode ip) (\<lambda>ino.
       if i_type ino = T_DIR \<and> omode \<noteq> 0 then andthen (iunlockput ip) (ret None) else ret (Some ip)))))"

definition sys_open :: "int kern" where
  "sys_open = bnd (argstr 0) (\<lambda>r. case r of None \<Rightarrow> ret (-1) | Some path \<Rightarrow>
     bnd (argint 1) (\<lambda>r. case r of None \<Rightarrow> ret (-1) | Some omode \<Rightarrow>
     andthen begin_op (bnd (open_inode path omode) (\<lambda>r. case r of None \<Rightarrow> fail_op | Some ip \<Rightarrow>
     bnd filealloc (\<lambda>r. case r of None \<Rightarrow> andthen (iunlockput ip) fail_op | Some f \<Rightarrow>
     bnd (fdalloc f) (\<lambda>fd. if fd < 0 then andthen (fileclose f) (andthen (iunlockput ip) fail_op)
     else andthen (iunlock ip) (andthen end_op
       (andthen (upd_file f (\<lambda>f. f\<lparr>f_type := FD_INODE, f_ip := Some ip, f_off := 0,
         f_readable := (omode AND O_WRONLY = 0),
         f_writable := (omode AND O_WRONLY \<noteq> 0 \<or> omode AND O_RDWR \<noteq> 0)\<rparr>)) (ret fd)))))))))"

definition sys_mkdir :: "int kern" where
  "sys_mkdir = andthen begin_op (bnd (argstr 0) (\<lambda>r. case r of None \<Rightarrow> fail_op | Some path \<Rightarrow>
     bnd (create path T_DIR 0 0) (\<lambda>r. case r of None \<Rightarrow> fail_op
     | Some ip \<Rightarrow> andthen (iunlockput ip) (andthen end_op (ret 0)))))"

definition sys_mknod :: "int kern" where
  "sys_mknod = andthen begin_op (bnd (argstr 0) (\<lambda>r. case r of None \<Rightarrow> fail_op | Some path \<Rightarrow>
     bnd (argint 1) (\<lambda>r. case r of None \<Rightarrow> fail_op | Some major \<Rightarrow>
     bnd (argint 2) (\<lambda>r. case r of None \<Rightarrow> fail_op | Some minor \<Rightarrow>
     bnd (create path T_DEV (ucast major) (ucast minor)) (\<lambda>r. case r of None \<Rightarrow> fail_op
     | Some ip \<Rightarrow> andthen (iunlockput ip) (andthen end_op (ret 0)))))))"

definition sys_chdir :: "int kern" where
  "sys_chdir = andthen begin_op (bnd (argstr 0) (\<lambda>r. case r of None \<Rightarrow> fail_op | Some path \<Rightarrow>
     bnd (namei path) (\<lambda>r. case r of None \<Rightarrow> fail_op | Some ip \<Rightarrow>
     andthen (ilock ip) (bnd (get_inode ip) (\<lambda>ino.
     if i_type ino \<noteq> T_DIR then andthen (iunlockput ip) fail_op
     else andthen (iunlock ip) (bnd curproc (\<lambda>i. bnd (get_proc i) (\<lambda>p. bnd (nonnull (p_cwd p)) (\<lambda>c.
       andthen (iput c) (andthen end_op
       (andthen (upd_proc i (\<lambda>p. p\<lparr>p_cwd := Some ip\<rparr>)) (ret 0))))))))))))"

definition sys_pipe :: "int kern" where
  "sys_pipe = bnd (argptr 0 8) (\<lambda>r. case r of None \<Rightarrow> ret (-1) | Some a \<Rightarrow>
     bnd pipealloc (\<lambda>(r, rf, wf). if r < 0 then ret (-1)
     else bnd (nonnull rf) (\<lambda>rf. bnd (nonnull wf) (\<lambda>wf. bnd (fdalloc rf) (\<lambda>fd0.
       if fd0 < 0 then andthen (fileclose rf) (andthen (fileclose wf) (ret (-1)))
       else bnd (fdalloc wf) (\<lambda>fd1. if fd1 < 0 then bnd curproc (\<lambda>i.
           andthen (upd_proc i (\<lambda>p. p\<lparr>p_ofile := (p_ofile p)[nat fd0 := None]\<rparr>))
           (andthen (fileclose rf) (andthen (fileclose wf) (ret (-1)))))
         else andthen (store32 a (of_int fd0)) (andthen (store32 (a + 4) (of_int fd1)) (ret 0))))))))"

fun fetch_argv :: "nat \<Rightarrow> uint \<Rightarrow> uchar list list option kern" where
  "fetch_argv 0 uargv = ret None"
| "fetch_argv (Suc n) uargv = bnd (fetchint uargv) (\<lambda>r. case r of None \<Rightarrow> ret None
   | Some uarg \<Rightarrow> if uarg = 0 then ret (Some [])
     else bnd (fetchstr uarg) (\<lambda>r. case r of None \<Rightarrow> ret None
     | Some a \<Rightarrow> bnd (fetch_argv n (uargv + 4)) (\<lambda>r. ret (map_option (\<lambda>as. a # as) r))))"

definition sys_exec :: "uchar list \<Rightarrow> int kern" where
  "sys_exec stk = bnd (argstr 0) (\<lambda>r. case r of None \<Rightarrow> ret (-1) | Some path \<Rightarrow>
     bnd (argint 1) (\<lambda>r. case r of None \<Rightarrow> ret (-1) | Some uargv \<Rightarrow>
     bnd (fetch_argv MAXARG uargv) (\<lambda>r. case r of None \<Rightarrow> ret (-1) | Some argv \<Rightarrow> exec stk path argv)))"

section \<open>The dispatcher\<close>

text \<open>The table \<^verbatim>\<open>syscalls\<close>, indexed by the numbers of \<^verbatim>\<open>syscall.h\<close> from 1 on.\<close>

definition syscalls :: "uchar list \<Rightarrow> int kern list" where
  "syscalls stk = [sys_fork, sys_exit, sys_wait, sys_pipe, sys_read, sys_kill, sys_exec stk, sys_fstat,
     sys_chdir, sys_dup, sys_getpid, sys_sbrk, sys_sleep, sys_uptime, sys_open, sys_write, sys_mknod,
     sys_unlink, sys_link, sys_mkdir, sys_close, sys_halt, sys_thread_create, sys_thread_exit,
     sys_thread_join, sys_gettid, sys_clone]"

definition set_eax :: "nat \<Rightarrow> int \<Rightarrow> unit kern" where
  "set_eax i v = upd_proc i (\<lambda>p. p\<lparr>p_tf := (p_tf p)\<lparr>tf_eax := of_int v\<rparr>\<rparr>)"

definition syscall :: "uchar list \<Rightarrow> unit kern" where
  "syscall stk = bnd curproc (\<lambda>i. bnd (get_proc i) (\<lambda>p. let num = sint (tf_eax (p_tf p)) in
     if num > 0 \<and> num < 28 then bnd (syscalls stk ! nat (num - 1)) (set_eax i)
     else andthen (cprintf (''%d %s: unknown sys call %d'' @ [CHR 0x0A])
         (args [Word (of_int (p_pid p)), Str KERNBASE (cname (p_name p)), Word (of_int num)]))
       (set_eax i (-1))))"

end
