(* ===== verification/Boot.thy ===== *)
theory Boot
  imports Syscall
begin

text \<open>
  Traps (\<^verbatim>\<open>trap.c\<close>), the search for the multiprocessor tables (\<^verbatim>\<open>mp.c\<close>) and the start of the
  kernel (\<^verbatim>\<open>main.c\<close>). What the devices deliver is a parameter.
\<close>

unbundle bit_operations_syntax

section \<open>Traps\<close>

text \<open>The gates of the descriptor table are the same for every run; the lock is what changes.\<close>

definition tvinit :: "unit kern" where
  "tvinit = initlock TicksLk ''time''"

text \<open>What a trap reads from outside: the fault address, and the data of the interrupting device.\<close>

record trap_input =
  in_cr2 :: uint
  in_ide :: "bool \<times> block"
  in_kbd :: "(uchar \<times> uchar) list"
  in_uart :: "(uchar \<times> uchar) list"
  in_stack :: "uchar list"

definition cur :: "nat option kern" where
  "cur = gets (\<lambda>s. c_proc (k_cpu s))"

definition exit_if_killed :: "unit kern" where
  "exit_if_killed = bnd proc_killed (\<lambda>k. if k then exit else ret ())"

definition trap_syscall :: "trap_input \<Rightarrow> trapframe \<Rightarrow> unit kern" where
  "trap_syscall inp tf = andthen exit_if_killed (bnd curproc (\<lambda>i.
     andthen (upd_proc i (\<lambda>p. p\<lparr>p_tf := tf\<rparr>)) (andthen (syscall (in_stack inp)) exit_if_killed)))"

definition from_user :: "trapframe \<Rightarrow> bool" where
  "from_user tf \<longleftrightarrow> tf_cs tf AND 3 = 3"

definition trap_timer :: "unit kern" where
  "trap_timer = andthen (bnd (gets (\<lambda>s. c_id (k_cpu s))) (\<lambda>c. if c = 0
       then andthen (acquire TicksLk) (andthen (modify (\<lambda>s. s\<lparr>k_ticks := k_ticks s + 1\<rparr>))
         (andthen (wakeup ChTicks) (release TicksLk))) else ret ()))
     lapiceoi"

definition trap_fault :: "trap_input \<Rightarrow> trapframe \<Rightarrow> unit kern" where
  "trap_fault inp tf = bnd cur (\<lambda>p. bnd (gets (\<lambda>s. c_id (k_cpu s))) (\<lambda>c. case p of
     Some i \<Rightarrow> if tf_cs tf AND 3 \<noteq> 0 then bnd (get_proc i) (\<lambda>p.
         andthen (cprintf (''pid %d %s: trap %d err %d on cpu %d eip 0x%x addr 0x%x--kill proc'' @ [CHR 0x0A])
           (args [Word (of_int (p_pid p)), Str KERNBASE (cname (p_name p)), Word (tf_trapno tf), Word (tf_err tf),
             Word (of_nat c), Word (tf_eip tf), Word (in_cr2 inp)]))
         (upd_proc i (\<lambda>p. p\<lparr>p_killed := True\<rparr>)))
       else andthen (cprintf (''unexpected trap %d from cpu %d eip %x (cr2=0x%x)'' @ [CHR 0x0A])
         (args [Word (tf_trapno tf), Word (of_nat c), Word (tf_eip tf), Word (in_cr2 inp)])) (panic ''trap'')
   | None \<Rightarrow> andthen (cprintf (''unexpected trap %d from cpu %d eip %x (cr2=0x%x)'' @ [CHR 0x0A])
         (args [Word (tf_trapno tf), Word (of_nat c), Word (tf_eip tf), Word (in_cr2 inp)])) (panic ''trap'')))"

definition trap_dispatch :: "trap_input \<Rightarrow> trapframe \<Rightarrow> unit kern" where
  "trap_dispatch inp tf = (let n = tf_trapno tf in
     if n = T_IRQ0 + IRQ_TIMER then trap_timer
     else if n = T_IRQ0 + IRQ_IDE then andthen (ideintr (fst (in_ide inp)) (snd (in_ide inp))) lapiceoi
     else if n = T_IRQ0 + IRQ_IDE + 1 then ret ()
     else if n = T_IRQ0 + IRQ_KBD then andthen (kbdintr (in_kbd inp)) lapiceoi
     else if n = T_IRQ0 + IRQ_COM1 then andthen (uartintr (in_uart inp)) lapiceoi
     else if n = T_IRQ0 + 7 \<or> n = T_IRQ0 + IRQ_SPURIOUS then bnd (gets (\<lambda>s. c_id (k_cpu s))) (\<lambda>c.
       andthen (cprintf (''cpu%d: spurious interrupt at %x:%x'' @ [CHR 0x0A])
         (args [Word (of_nat c), Word (ucast (tf_cs tf)), Word (tf_eip tf)])) lapiceoi)
     else trap_fault inp tf)"

text \<open>
  The exit of a killed process that was interrupted in user space. It is also what remains to do
  when a process that yielded runs again and has released the lock of the process table.
\<close>

definition trap_tail :: "trapframe \<Rightarrow> unit kern" where
  "trap_tail tf = bnd cur (\<lambda>p. case p of None \<Rightarrow> ret ()
     | Some i \<Rightarrow> bnd (get_proc i) (\<lambda>p. if p_killed p \<and> from_user tf then exit else ret ()))"

definition trap_yield :: "trapframe \<Rightarrow> unit kern" where
  "trap_yield tf = bnd cur (\<lambda>p. case p of None \<Rightarrow> ret ()
     | Some i \<Rightarrow> bnd (get_proc i) (\<lambda>p.
         if p_state p = RUNNING \<and> tf_trapno tf = T_IRQ0 + IRQ_TIMER then yield else ret ()))"

definition trap :: "trap_input \<Rightarrow> trapframe \<Rightarrow> unit kern" where
  "trap inp tf = (if tf_trapno tf = T_SYSCALL then trap_syscall inp tf
     else andthen (trap_dispatch inp tf) (andthen (trap_tail tf) (andthen (trap_yield tf) (trap_tail tf))))"

section \<open>The multiprocessor tables\<close>

definition mpbcpu :: "nat kern" where
  "mpbcpu = gets k_bcpu"

definition sum :: "memory \<Rightarrow> uint \<Rightarrow> nat \<Rightarrow> uchar" where
  "sum m addr len = fold (\<lambda>i acc. acc + m (addr + of_nat i)) [0..<len] 0"

definition at :: "memory \<Rightarrow> uint \<Rightarrow> bytes" where
  "at m a = (\<lambda>i. m (a + of_nat i))"

definition mp_valid :: "memory \<Rightarrow> uint \<Rightarrow> bool" where
  "mp_valid m p \<longleftrightarrow> memcmp (at m p) (bytes_of (map of_char ''_MP_'')) 4 = 0 \<and> sum m p 16 = 0"

definition mpsearch1 :: "memory \<Rightarrow> uint \<Rightarrow> nat \<Rightarrow> uint option" where
  "mpsearch1 m a len = map_option (\<lambda>i. p2v a + 16 * of_nat i)
     (find_idx (\<lambda>i. mp_valid m (p2v a + 16 * of_nat i)) [0..<len div 16])"

definition get16m :: "memory \<Rightarrow> uint \<Rightarrow> ushort" where
  "get16m m a = ucast (m a) OR push_bit 8 (ucast (m (a + 1)))"

definition mpsearch :: "memory \<Rightarrow> uint option" where
  "mpsearch m = (let bda = p2v 0x400; p = push_bit 4 (ucast (get16m m (bda + 0x0E))) :: uint in
     case (if p \<noteq> 0 then mpsearch1 m p 1024
       else mpsearch1 m (ucast (get16m m (bda + 0x13)) * 1024 - 1024) 1024) of
       Some mp \<Rightarrow> Some mp
     | None \<Rightarrow> mpsearch1 m 0xF0000 0x10000)"

text \<open>The addresses of the floating pointer and of the configuration table.\<close>

definition mpconfig :: "memory \<Rightarrow> (uint \<times> uint) option" where
  "mpconfig m = (case mpsearch m of None \<Rightarrow> None
     | Some mp \<Rightarrow> let conf = p2v (ld32 m (mp + 4)) in
         if ld32 m (mp + 4) = 0 then None
         else if memcmp (at m conf) (bytes_of (map of_char ''PCMP'')) 4 \<noteq> 0 then None
         else if m (conf + 6) \<noteq> 1 \<and> m (conf + 6) \<noteq> 4 then None
         else if sum m conf (unat (get16m m (conf + 4))) \<noteq> 0 then None
         else Some (mp, conf))"

definition NCPU :: nat where "NCPU = 8"

text \<open>
  One entry of the table at \<open>p\<close>: the address of the next. The ids of the processors are their
  indices in \<^verbatim>\<open>cpus\<close>; a processor past the end of that array would be written outside
  it, where the model stops.
\<close>

definition mp_entry :: "uint \<Rightarrow> uint kern" where
  "mp_entry p = bnd (gets k_mem) (\<lambda>m.
     if m p = 0 then bnd (gets k_ncpu) (\<lambda>n.
       if n \<ge> NCPU then panic ''cpus overrun''
       else andthen (if n \<noteq> unat (m (p + 1))
           then andthen (cprintf (''mpinit: ncpu=%d apicid=%d'' @ [CHR 0x0A])
               (args [Word (of_nat n), Word (ucast (m (p + 1)))]))
             (modify (\<lambda>s. s\<lparr>k_ismp := False\<rparr>)) else ret ())
         (andthen (if m (p + 3) AND 2 \<noteq> 0 then modify (\<lambda>s. s\<lparr>k_bcpu := n\<rparr>) else ret ())
         (andthen (modify (\<lambda>s. s\<lparr>k_ncpu := n + 1\<rparr>)) (ret (p + 20)))))
     else if m p = 2 then andthen (modify (\<lambda>s. s\<lparr>k_ioapicid := m (p + 1)\<rparr>)) (ret (p + 8))
     else if m p = 1 \<or> m p = 3 \<or> m p = 4 then ret (p + 8)
     else andthen (cprintf (''mpinit: unknown config type %x'' @ [CHR 0x0A]) (args [Word (ucast (m p))]))
       (andthen (modify (\<lambda>s. s\<lparr>k_ismp := False\<rparr>)) (ret p)))"

definition mp_table_round :: "uint \<Rightarrow> uint \<Rightarrow> (uint + unit) kern" where
  "mp_table_round e p = (if \<not> p < e then ret (Inr ()) else bnd (mp_entry p) (\<lambda>p. ret (Inl p)))"

text \<open>
  Every known entry is at least eight bytes and the table at most \<open>2^16\<close>, so the fuel is
  used up only when the loop does not end. \<open>imcr\<close> is what port 0x23 reads.
\<close>

definition mpinit :: "uchar \<Rightarrow> unit kern" where
  "mpinit imcr = andthen (modify (\<lambda>s. s\<lparr>k_bcpu := 0\<rparr>)) (bnd (gets (\<lambda>s. mpconfig (k_mem s))) (\<lambda>r.
     case r of None \<Rightarrow> ret () | Some (mp, conf) \<Rightarrow>
       andthen (modify (\<lambda>s. s\<lparr>k_ismp := True, k_lapic := ld32 (k_mem s) (conf + 36)\<rparr>))
       (bnd (gets (\<lambda>s. conf + ucast (get16m (k_mem s) (conf + 4)))) (\<lambda>e.
       andthen (loop (2 ^ 13 + 2) (mp_table_round e) (conf + 44))
       (bnd (gets k_ismp) (\<lambda>ismp. if \<not> ismp
         then modify (\<lambda>s. s\<lparr>k_ncpu := 1, k_lapic := 0, k_ioapicid := 0\<rparr>)
         else bnd (gets (\<lambda>s. k_mem s (mp + 12))) (\<lambda>i. if i \<noteq> 0
           then andthen (outb 0x22 0x70) (outb 0x23 (imcr OR 1)) else ret ())))))))"

section \<open>Start of the kernel\<close>

text \<open>
  What the machine delivers while the kernel starts: the registers the code reads, and for
  each other processor whether it reports that it has started.
\<close>

record boot_input =
  bi_imcr :: uchar
  bi_apicver :: uint
  bi_icr :: "uint list"
  bi_apicid :: uint
  bi_ioapicver :: uint
  bi_lsr :: uchar
  bi_ideready :: "uchar list"
  bi_disk1 :: "uchar list"
  bi_started :: "nat \<Rightarrow> bool"

text \<open>\<open>code\<close> is the image of \<^verbatim>\<open>entryother.S\<close>, \<open>mpenter\<close> and \<open>entrypgdir\<close> the addresses the linker gave.\<close>

definition start_cpu :: "boot_input \<Rightarrow> uint \<Rightarrow> uint \<Rightarrow> nat \<Rightarrow> unit kern" where
  "start_cpu bi mpenter entrypgdir c = bnd (cpunum (bi_apicid bi)) (\<lambda>me. if c = unat me then ret ()
     else bnd kalloc (\<lambda>stack. let code = p2v 0x7000 in
       andthen (modify (\<lambda>s. s\<lparr>k_mem := st32 (st32 (st32 (k_mem s) (code - 4) (stack + KSTACKSIZE))
         (code - 8) mpenter) (code - 12) (v2p entrypgdir)\<rparr>))
       (andthen (lapicstartap (of_nat c) (v2p code)) (if bi_started bi c then ret () else (\<lambda>s. Spin)))))"

definition startothers :: "boot_input \<Rightarrow> uchar list \<Rightarrow> uint \<Rightarrow> uint \<Rightarrow> unit kern" where
  "startothers bi code mpenter entrypgdir =
     andthen (modify (\<lambda>s. s\<lparr>k_mem := put_bytes (k_mem s) (p2v 0x7000) code\<rparr>))
     (bnd (gets k_ncpu) (\<lambda>n. for_each [0..<n] (start_cpu bi mpenter entrypgdir)))"

text \<open>\<^verbatim>\<open>main\<close> up to the scheduler; \<^verbatim>\<open>seginit\<close> and \<^verbatim>\<open>idtinit\<close> load constant tables.\<close>

definition main :: "boot_input \<Rightarrow> uchar list \<Rightarrow> uint \<Rightarrow> uint \<Rightarrow> uchar list \<Rightarrow> unit kern" where
  "main bi code mpenter entrypgdir initcode = bnd (gets k_end) (\<lambda>vend.
     andthen (kinit1 vend (p2v (4 * 1024 * 1024))) (andthen kvmalloc (andthen (mpinit (bi_imcr bi))
     (andthen (lapicinit (bi_apicver bi) (bi_icr bi)) (andthen picinit (andthen (ioapicinit (bi_ioapicver bi))
     (andthen consoleinit (andthen (uartinit (bi_lsr bi)) (andthen pinit (andthen tvinit (andthen binit
     (andthen fileinit (andthen (ideinit (bi_ideready bi) (bi_disk1 bi))
     (andthen (bnd (gets k_ismp) (\<lambda>ismp. if \<not> ismp then timerinit else ret ()))
     (andthen (startothers bi code mpenter entrypgdir) (andthen (kinit2 (p2v (4 * 1024 * 1024)) (p2v PHYSTOP))
     (userinit initcode)))))))))))))))))"

end
