(* ===== verification/Preserve.thy ===== *)
theory Preserve
  imports Prelude
begin

text \<open>
  Invariants of kernel code: a calculus of weakest liberal preconditions in which code may
  panic or never end, and must leave the invariant in place when it returns and when it
  gives up the CPU. The rules in \<open>wlp\<close> take a program apart by \<open>intro\<close>; the contract of
  an operation enters them through \<open>maintains_wlp\<close>.
\<close>

definition wlp :: "('s \<Rightarrow> bool) \<Rightarrow> ('s, 'a) comp \<Rightarrow> ('a \<Rightarrow> 's \<Rightarrow> bool) \<Rightarrow> 's \<Rightarrow> bool" where
  "wlp I m Q s = (case m s of Ret a s' \<Rightarrow> Q a s' | Switch s' \<Rightarrow> I s' | _ \<Rightarrow> True)"

text \<open>Every run from a state with \<open>I\<close> keeps \<open>I\<close>, and a result has \<open>P\<close>.\<close>

definition maintains :: "('s \<Rightarrow> bool) \<Rightarrow> ('s, 'a) comp \<Rightarrow> ('a \<Rightarrow> bool) \<Rightarrow> bool" where
  "maintains I m P \<longleftrightarrow> (\<forall>s. I s \<longrightarrow> wlp I m (\<lambda>a s'. I s' \<and> P a) s)"

named_theorems wlp

lemma maintainsI: "(\<And>s. I s \<Longrightarrow> wlp I m (\<lambda>a s'. I s' \<and> P a) s) \<Longrightarrow> maintains I m P"
  by (simp add: maintains_def)

lemma maintains_wlp:
  assumes "maintains I m P" "I s" "\<And>a s'. I s' \<Longrightarrow> P a \<Longrightarrow> Q a s'"
  shows "wlp I m Q s"
proof -
  have "wlp I m (\<lambda>a s'. I s' \<and> P a) s" using assms(1,2) unfolding maintains_def by blast
  then show ?thesis using assms(3) unfolding wlp_def by (cases "m s") auto
qed

lemma maintains_Ret: "maintains I m P \<Longrightarrow> I s \<Longrightarrow> m s = Ret a s' \<Longrightarrow> I s' \<and> P a"
  using maintains_wlp [of I m P s "\<lambda>a s'. I s' \<and> P a"] by (simp add: wlp_def)

lemma maintains_Switch: "maintains I m P \<Longrightarrow> I s \<Longrightarrow> m s = Switch s' \<Longrightarrow> I s'"
  using maintains_wlp [of I m P s "\<lambda>a s'. I s' \<and> P a"] by (simp add: wlp_def)

lemma wlp_ret [wlp]: "Q a s \<Longrightarrow> wlp I (ret a) Q s"
  by (simp add: wlp_def)

lemma wlp_panic [wlp]: "wlp I (panic m) Q s"
  by (simp add: wlp_def)

lemma wlp_spin [wlp]: "wlp I (\<lambda>s. Spin) Q s"
  by (simp add: wlp_def)

lemma wlp_gets [wlp]: "Q (f s) s \<Longrightarrow> wlp I (gets f) Q s"
  by (simp add: wlp_def)

lemma wlp_modify [wlp]: "I (g s) \<Longrightarrow> (\<And>s'. I s' \<Longrightarrow> Q () s') \<Longrightarrow> wlp I (modify g) Q s"
  by (simp add: wlp_def)

lemma wlp_bnd [wlp]: "wlp I m (\<lambda>a s'. wlp I (f a) Q s') s \<Longrightarrow> wlp I (bnd m f) Q s"
  by (auto simp: wlp_def bnd_def split: outcome.splits)

lemma wlp_andthen [wlp]: "wlp I m (\<lambda>a s'. wlp I k Q s') s \<Longrightarrow> wlp I (andthen m k) Q s"
  by (simp add: andthen_def wlp_bnd)

lemma wlp_if [wlp]:
  "(b \<Longrightarrow> wlp I m Q s) \<Longrightarrow> (\<not> b \<Longrightarrow> wlp I k Q s) \<Longrightarrow> wlp I (if b then m else k) Q s"
  by simp

lemma wlp_option [wlp]:
  "(x = None \<Longrightarrow> wlp I m Q s) \<Longrightarrow> (\<And>a. x = Some a \<Longrightarrow> wlp I (f a) Q s) \<Longrightarrow> wlp I (case_option m f x) Q s"
  by (cases x) simp_all

lemma wlp_sum [wlp]:
  "(\<And>a. x = Inl a \<Longrightarrow> wlp I (f a) Q s) \<Longrightarrow> (\<And>a. x = Inr a \<Longrightarrow> wlp I (g a) Q s) \<Longrightarrow> wlp I (case_sum f g x) Q s"
  by (cases x) simp_all

lemma wlp_prod [wlp]:
  "(\<And>a b. x = (a, b) \<Longrightarrow> wlp I (f a b) Q s) \<Longrightarrow> wlp I (case_prod f x) Q s"
  by (cases x) simp_all

lemma wlp_Let [wlp]: "wlp I (f x) Q s \<Longrightarrow> wlp I (Let x f) Q s"
  by simp

text \<open>Loops: a property of the loop variables that every round keeps.\<close>

lemma maintains_loop:
  assumes "\<And>x. J x \<Longrightarrow> maintains I (body x) (case_sum J P)" "J x"
  shows "maintains I (loop n body x) P"
  using assms(2)
proof (induction n arbitrary: x)
  case 0
  show ?case by (simp add: maintainsI wlp_spin)
next
  case (Suc n)
  show ?case unfolding loop.simps
  proof (intro maintainsI wlp_bnd maintains_wlp [OF assms(1) [OF Suc.prems]] wlp_sum)
    fix s a s' x'
    assume "I s'" "case_sum J P a" "a = Inl x'"
    then show "wlp I (loop n body x') (\<lambda>a s'. I s' \<and> P a) s'"
      using Suc.IH [of x'] by (simp add: maintains_def)
  qed (auto intro: wlp_ret)
qed

lemma maintains_for_each:
  assumes "\<And>x. x \<in> set xs \<Longrightarrow> maintains I (f x) (\<lambda>_. True)"
  shows "maintains I (for_each xs f) (\<lambda>_. True)"
  using assms
proof (induction xs)
  case Nil
  show ?case by (simp add: maintainsI wlp_ret)
next
  case (Cons x xs)
  have "maintains I (f x) (\<lambda>_. True)" "maintains I (for_each xs f) (\<lambda>_. True)"
    using Cons by auto
  then show ?case by (auto intro!: maintainsI wlp_andthen elim!: maintains_wlp)
qed

lemma maintains_weaken: "maintains I m P \<Longrightarrow> (\<And>a. P a \<Longrightarrow> R a) \<Longrightarrow> maintains I m R"
  by (rule maintainsI, erule maintains_wlp) auto

section \<open>Tables\<close>

text \<open>A table of fixed size whose entries all have a property; a pointer into one.\<close>

definition table :: "nat \<Rightarrow> ('a \<Rightarrow> bool) \<Rightarrow> 'a list \<Rightarrow> bool" where
  "table n P xs \<longleftrightarrow> length xs = n \<and> (\<forall>x\<in>set xs. P x)"

abbreviation ptr :: "nat \<Rightarrow> nat option \<Rightarrow> bool" where
  "ptr n p \<equiv> pred_option (\<lambda>i. i < n) p"

lemma pred_option_map: "pred_option P x \<Longrightarrow> (\<And>a. P a \<Longrightarrow> P (f a)) \<Longrightarrow> pred_option P (map_option f x)"
  by (cases x) auto

lemma table_nth: "table n P xs \<Longrightarrow> i < n \<Longrightarrow> P (xs ! i)"
  by (auto simp: table_def)

lemma table_length: "table n P xs \<Longrightarrow> length xs = n"
  by (simp add: table_def)

lemma table_upd_at: "table n P xs \<Longrightarrow> (\<And>x. P x \<Longrightarrow> P (f x)) \<Longrightarrow> table n P (upd_at i f xs)"
  by (auto simp: table_def upd_at_def dest!: set_update_subset_insert [THEN subsetD])

lemma table_update: "table n P xs \<Longrightarrow> P x \<Longrightarrow> table n P (xs[i := x])"
  by (auto simp: table_def dest!: set_update_subset_insert [THEN subsetD])

lemma table_map: "table n P xs \<Longrightarrow> (\<And>x. P x \<Longrightarrow> P (f x)) \<Longrightarrow> table n P (map f xs)"
  by (auto simp: table_def)

lemma table_replicate: "P x \<Longrightarrow> table n P (replicate n x)"
  by (simp add: table_def)

lemma table_find_idx: "table n P xs \<Longrightarrow> find_idx Q xs = Some i \<Longrightarrow> i < n"
  by (auto simp: table_def dest: find_idx_SomeD)

end
