(* ===== verification/Wellformed.thy ===== *)
theory Wellformed
  imports Boot Preserve
begin

text \<open>
  Well-formed kernel states: every table has its size, every pointer stored in a table, a
  CPU or a global variable points into the table it is meant for, every block and ring
  buffer has its length, and the cursor is on the screen. Each operation of the kernel,
  from the locks up to the system calls and the trap handler, leaves the state well-formed,
  and the pointers it returns are valid.
\<close>

section \<open>The invariant\<close>

definition wf_proc :: "proc \<Rightarrow> bool" where
  "wf_proc p \<longleftrightarrow> table NOFILE (ptr NFILE) (p_ofile p) \<and> ptr NINODE (p_cwd p) \<and> ptr NPROC (p_parent p)"

definition wf_file :: "file_t \<Rightarrow> bool" where
  "wf_file f \<longleftrightarrow> ptr NINODE (f_ip f)"

definition wf_inode :: "inode \<Rightarrow> bool" where
  "wf_inode i \<longleftrightarrow> length (i_addrs i) = NDIRECT + 1"

definition wf_buf :: "buf \<Rightarrow> bool" where
  "wf_buf b \<longleftrightarrow> b_prev b < Suc NBUF \<and> b_next b < Suc NBUF \<and> ptr (Suc NBUF) (b_qnext b) \<and> length (b_data b) = BSIZE"

definition wf_pipe :: "pipe \<Rightarrow> bool" where
  "wf_pipe pi \<longleftrightarrow> length (pi_data pi) = PIPESIZE"

definition wf_kernel :: "kernel \<Rightarrow> bool" where
  "wf_kernel s \<longleftrightarrow> table NPROC wf_proc (k_procs s) \<and> table NFILE wf_file (k_ftable s)
     \<and> table NINODE wf_inode (k_icache s) \<and> table (Suc NBUF) wf_buf (k_bcache s)
     \<and> (\<forall>n. length (k_disk s n) = BSIZE) \<and> length (lh_block (lg_lh (k_log s))) = LOGSIZE
     \<and> (\<forall>p. pred_option wf_pipe (k_pipes s p)) \<and> length (in_buf (k_input s)) = INPUT_BUF
     \<and> ptr NPROC (c_proc (k_cpu s)) \<and> ptr NPROC (k_initproc s) \<and> ptr (Suc NBUF) (k_idequeue s)
     \<and> screen_ok s"

lemmas wf_defs = wf_proc_def wf_file_def wf_inode_def wf_buf_def wf_pipe_def

text \<open>Operations that keep the invariant, with a property of what they return.\<close>

abbreviation keeps :: "'a kern \<Rightarrow> ('a \<Rightarrow> bool) \<Rightarrow> bool" where
  "keeps m P \<equiv> maintains wf_kernel m P"

abbreviation safe :: "'a kern \<Rightarrow> bool" where
  "safe m \<equiv> keeps m (\<lambda>_. True)"

subsection \<open>What the invariant gives\<close>

lemma wf_procs: "wf_kernel s \<Longrightarrow> i < NPROC \<Longrightarrow> wf_proc (k_procs s ! i)"
  by (auto simp: wf_kernel_def intro: table_nth)

lemma wf_procs_find: "wf_kernel s \<Longrightarrow> find_idx P (k_procs s) = Some i \<Longrightarrow> i < NPROC"
  by (auto simp: wf_kernel_def dest: table_find_idx)

lemma wf_ofile: "wf_proc p \<Longrightarrow> fd < NOFILE \<Longrightarrow> p_ofile p ! fd = Some f \<Longrightarrow> f < NFILE"
  using table_nth [of NOFILE "ptr NFILE" "p_ofile p" fd] by (simp add: wf_proc_def)

lemma wf_cwd: "wf_proc p \<Longrightarrow> p_cwd p = Some i \<Longrightarrow> i < NINODE"
  by (simp add: wf_proc_def)

lemma wf_proc_ofile:
  "wf_kernel s \<Longrightarrow> i < NPROC \<Longrightarrow> fd < NOFILE \<Longrightarrow> p_ofile (k_procs s ! i) ! fd = Some f \<Longrightarrow> f < NFILE"
  using wf_procs wf_ofile by blast

lemma wf_files: "wf_kernel s \<Longrightarrow> i < NFILE \<Longrightarrow> wf_file (k_ftable s ! i)"
  by (auto simp: wf_kernel_def intro: table_nth)

lemma wf_files_find: "wf_kernel s \<Longrightarrow> find_idx P (k_ftable s) = Some i \<Longrightarrow> i < NFILE"
  by (auto simp: wf_kernel_def dest: table_find_idx)

lemma wf_inodes: "wf_kernel s \<Longrightarrow> i < NINODE \<Longrightarrow> wf_inode (k_icache s ! i)"
  by (auto simp: wf_kernel_def intro: table_nth)

lemma wf_inodes_find: "wf_kernel s \<Longrightarrow> find_idx P (k_icache s) = Some i \<Longrightarrow> i < NINODE"
  by (auto simp: wf_kernel_def dest: table_find_idx)

lemma wf_bufs: "wf_kernel s \<Longrightarrow> i < Suc NBUF \<Longrightarrow> wf_buf (k_bcache s ! i)"
  by (auto simp: wf_kernel_def intro: table_nth)

lemma wf_data: "wf_kernel s \<Longrightarrow> i < Suc NBUF \<Longrightarrow> length (b_data (k_bcache s ! i)) = BSIZE"
  using wf_bufs [of s i] by (simp add: wf_buf_def)

lemma wf_cur: "wf_kernel s \<Longrightarrow> c_proc (k_cpu s) = Some i \<Longrightarrow> i < NPROC"
  by (simp add: wf_kernel_def)

subsection \<open>What keeps it\<close>

lemma wf_upd_procs: "wf_kernel s \<Longrightarrow> (\<And>p. wf_proc p \<Longrightarrow> wf_proc (f p)) \<Longrightarrow> wf_kernel (update_procs (upd_at i f) s)"
  by (auto simp: wf_kernel_def screen_ok_def intro: table_upd_at)

lemma wf_upd_files: "wf_kernel s \<Longrightarrow> (\<And>x. wf_file x \<Longrightarrow> wf_file (f x)) \<Longrightarrow> wf_kernel (s\<lparr>k_ftable := upd_at i f (k_ftable s)\<rparr>)"
  by (auto simp: wf_kernel_def screen_ok_def intro: table_upd_at)

lemma wf_upd_inodes:
  "wf_kernel s \<Longrightarrow> (\<And>x. wf_inode x \<Longrightarrow> wf_inode (f x)) \<Longrightarrow> wf_kernel (s\<lparr>k_icache := upd_at i f (k_icache s)\<rparr>)"
  by (auto simp: wf_kernel_def screen_ok_def intro: table_upd_at)

lemma wf_upd_bufs: "wf_kernel s \<Longrightarrow> (\<And>x. wf_buf x \<Longrightarrow> wf_buf (f x)) \<Longrightarrow> wf_kernel (s\<lparr>k_bcache := upd_at i f (k_bcache s)\<rparr>)"
  by (auto simp: wf_kernel_def screen_ok_def intro: table_upd_at)

lemma wf_upd_log:
  "wf_kernel s \<Longrightarrow> length (lh_block (lg_lh (f (k_log s)))) = length (lh_block (lg_lh (k_log s))) \<Longrightarrow>
    wf_kernel (s\<lparr>k_log := f (k_log s)\<rparr>)"
  by (auto simp: wf_kernel_def screen_ok_def)

lemma wf_upd_input:
  "wf_kernel s \<Longrightarrow> length (in_buf (f (k_input s))) = length (in_buf (k_input s)) \<Longrightarrow> wf_kernel (s\<lparr>k_input := f (k_input s)\<rparr>)"
  by (auto simp: wf_kernel_def screen_ok_def)

lemma wf_upd_cpu: "wf_kernel s \<Longrightarrow> c_proc c = c_proc (k_cpu s) \<Longrightarrow> wf_kernel (s\<lparr>k_cpu := c\<rparr>)"
  by (auto simp: wf_kernel_def screen_ok_def)

lemma wf_upd_pipes: "wf_kernel s \<Longrightarrow> (\<And>x. wf_pipe x \<Longrightarrow> wf_pipe (f x)) \<Longrightarrow>
    wf_kernel (s\<lparr>k_pipes := (k_pipes s)(p := map_option f (k_pipes s p))\<rparr>)"
  by (auto simp: wf_kernel_def screen_ok_def intro: pred_option_map)

lemmas wf_updates = wf_upd_procs wf_upd_files wf_upd_inodes wf_upd_bufs wf_upd_log wf_upd_input wf_upd_cpu
  wf_upd_pipes

lemmas [wlp] = wf_updates

text \<open>The variables the invariant does not mention.\<close>

lemma wf_other [simp]:
  "wf_kernel (s\<lparr>k_lks := a\<rparr>) = wf_kernel s" "wf_kernel (s\<lparr>k_mem := b\<rparr>) = wf_kernel s" "wf_kernel (s\<lparr>k_kpgdir := c\<rparr>) = wf_kernel s"
  "wf_kernel (s\<lparr>k_kmem := d\<rparr>) = wf_kernel s" "wf_kernel (s\<lparr>k_numfreepages := e\<rparr>) = wf_kernel s" "wf_kernel (s\<lparr>k_nextpid := f\<rparr>) = wf_kernel s"
  "wf_kernel (s\<lparr>k_ticks := g\<rparr>) = wf_kernel s" "wf_kernel (s\<lparr>k_thrlock := h\<rparr>) = wf_kernel s" "wf_kernel (s\<lparr>k_writes := i\<rparr>) = wf_kernel s"
  "wf_kernel (s\<lparr>k_sb := j\<rparr>) = wf_kernel s" "wf_kernel (s\<lparr>k_out := k\<rparr>) = wf_kernel s" "wf_kernel (s\<lparr>k_havedisk1 := l\<rparr>) = wf_kernel s"
  "wf_kernel (s\<lparr>k_idecmd := m\<rparr>) = wf_kernel s" "wf_kernel (s\<lparr>k_kbdshift := n\<rparr>) = wf_kernel s" "wf_kernel (s\<lparr>k_consdev := q\<rparr>) = wf_kernel s"
  "wf_kernel (s\<lparr>k_conslocking := r\<rparr>) = wf_kernel s" "wf_kernel (s\<lparr>k_panicked := t\<rparr>) = wf_kernel s" "wf_kernel (s\<lparr>k_uart := u\<rparr>) = wf_kernel s"
  "wf_kernel (s\<lparr>k_irqmask := v\<rparr>) = wf_kernel s" "wf_kernel (s\<lparr>k_ports := w\<rparr>) = wf_kernel s" "wf_kernel (s\<lparr>k_lapic := x\<rparr>) = wf_kernel s"
  "wf_kernel (s\<lparr>k_lapicw := y\<rparr>) = wf_kernel s" "wf_kernel (s\<lparr>k_ioapicw := z\<rparr>) = wf_kernel s" "wf_kernel (s\<lparr>k_ismp := aa\<rparr>) = wf_kernel s"
  "wf_kernel (s\<lparr>k_ncpu := ab\<rparr>) = wf_kernel s" "wf_kernel (s\<lparr>k_bcpu := ac\<rparr>) = wf_kernel s" "wf_kernel (s\<lparr>k_ioapicid := ad\<rparr>) = wf_kernel s"
  by (simp_all add: wf_kernel_def screen_ok_def)

section \<open>Locks, memory, processes\<close>

lemma initlock_wf [THEN maintains_wlp, wlp]: "safe (initlock l nm)"
  unfolding initlock_def by (rule maintainsI, intro wlp) simp_all

lemma curproc_wf [THEN maintains_wlp, wlp]: "keeps curproc (\<lambda>i. i < NPROC)"
  by (rule maintainsI) (auto simp: wlp_def curproc_def dest: wf_cur split: option.splits)

lemma pushcli_wf [THEN maintains_wlp, wlp]: "safe pushcli"
  unfolding pushcli_def by (rule maintainsI, intro wlp) (simp_all add: pushcli_cpu_def Let_def wf_upd_cpu)

lemma popcli_wf [THEN maintains_wlp, wlp]: "safe popcli"
  by (rule maintainsI) (auto simp: wlp_def popcli_def Let_def intro!: wf_upd_cpu)

lemma acquire_wf [THEN maintains_wlp, wlp]: "safe (acquire l)"
  unfolding acquire_eq by (rule maintainsI, intro wlp) (simp_all add: wlp_def)

lemma release_wf [THEN maintains_wlp, wlp]: "safe (release l)"
proof (rule maintainsI)
  fix s
  assume "wf_kernel s"
  then have "wlp wf_kernel popcli (\<lambda>a s'. wf_kernel s' \<and> True) (s\<lparr>k_lks := (k_lks s)(l := (k_lks s l)\<lparr>l_cpu := None, l_locked := 0\<rparr>)\<rparr>)"
    by (intro popcli_wf) simp_all
  then show "wlp wf_kernel (release l) (\<lambda>a s'. wf_kernel s' \<and> True) s" by (simp add: wlp_def release_eq)
qed

lemma with_lock_wf:
  assumes "keeps m P"
  shows "keeps (with_lock l m) P"
  unfolding with_lock_def by (rule maintainsI, intro wlp maintains_wlp [OF assms]) simp_all

lemma wakeup1_wf [THEN maintains_wlp, wlp]: "safe (wakeup1 c)"
  unfolding wakeup1_def wakeup1_procs_def
  by (rule maintainsI, intro wlp) (auto simp: wf_kernel_def screen_ok_def wf_proc_def intro!: table_map)

lemma wakeup_wf [THEN maintains_wlp, wlp]: "safe (wakeup c)"
  unfolding wakeup_def wakeup_stmts_def for_each.simps by (rule maintainsI, intro wlp) simp_all

lemma sched_wf [THEN maintains_wlp, wlp]: "safe sched"
  by (rule maintainsI) (auto simp: wlp_def sched_def bnd_def curproc_def split: option.splits)

lemma sleep_wf [THEN maintains_wlp, wlp]: "safe (sleep c lk)"
proof -
  have stmts: "safe (run_stmts (sleep_stmts c l))" for l
  proof (cases "l = PtableLk")
    case True
    then show ?thesis unfolding sleep_stmts_def append.simps for_each.simps
      by (simp, intro maintainsI wlp) (simp_all add: wf_defs)
  next
    case False
    then show ?thesis unfolding sleep_stmts_def append.simps for_each.simps
      by (simp, intro maintainsI wlp) (simp_all add: wf_defs)
  qed
  have e: "sleep c lk = bnd (gets (\<lambda>s. c_proc (k_cpu s))) (\<lambda>p. if p = None then panic ''sleep''
      else case lk of None \<Rightarrow> panic ''sleep without lk'' | Some l \<Rightarrow> andthen (run_stmts (sleep_stmts c l)) (sleep_tail l))"
    by (simp add: fun_eq_iff sleep_def split: option.split)
  show ?thesis unfolding e sleep_tail_def
    by (rule maintainsI, intro wlp maintains_wlp [OF stmts]) (simp_all add: wf_defs)
qed

lemma block_on_wf [THEN maintains_wlp, wlp]: "keeps (block_on c l) P"
proof (rule maintainsI)
  fix s
  assume "wf_kernel s"
  then have "wlp wf_kernel (sleep c (Some l)) (\<lambda>_ _. True) s" by (intro sleep_wf)
  then show "wlp wf_kernel (block_on c l) (\<lambda>a s'. wf_kernel s' \<and> P a) s"
    by (simp add: wlp_def block_on_def split: outcome.splits)
qed

lemma yield_wf [THEN maintains_wlp, wlp]: "safe yield"
  unfolding yield_def by (rule maintainsI, intro wlp) (simp_all add: wf_defs)

lemma kill_wf [THEN maintains_wlp, wlp]: "safe (kill pid)"
  unfolding kill_def by (rule with_lock_wf, rule maintainsI, intro wlp) (simp_all add: wf_defs)

lemma getpid_wf [THEN maintains_wlp, wlp]: "safe getpid"
  unfolding getpid_def by (rule maintainsI, intro wlp) simp_all

lemma kmem_section_wf:
  assumes "keeps m P"
  shows "keeps (kmem_section m) P"
proof -
  have e: "kmem_section m = bnd (gets (\<lambda>s. km_use_lock (k_kmem s))) (\<lambda>b. if b then with_lock KmemLk m else m)"
    by (simp add: fun_eq_iff kmem_section_def)
  show ?thesis unfolding e
    by (rule maintainsI, intro wlp maintains_wlp [OF assms] maintains_wlp [OF with_lock_wf [OF assms]]) simp_all
qed

lemma kfree_wf [THEN maintains_wlp, wlp]: "safe (kfree v)"
proof -
  have e: "kfree v = bnd (gets (\<lambda>s. v mod PGSIZE \<noteq> 0 \<or> v < k_end s \<or> v2p v \<ge> PHYSTOP)) (\<lambda>b. if b then panic ''kfree''
      else andthen (modify (\<lambda>s. s\<lparr>k_mem := memset (k_mem s) v 1 PGSIZE\<rparr>))
        (kmem_section (modify (\<lambda>s. s\<lparr>k_numfreepages := k_numfreepages s + 1,
            k_mem := st32 (k_mem s) v (km_freelist (k_kmem s)),
            k_kmem := (k_kmem s)\<lparr>km_freelist := v\<rparr>\<rparr>))))"
    by (simp add: fun_eq_iff kfree_def)
  have "safe (modify (\<lambda>s. s\<lparr>k_numfreepages := k_numfreepages s + 1,
            k_mem := st32 (k_mem s) v (km_freelist (k_kmem s)), k_kmem := (k_kmem s)\<lparr>km_freelist := v\<rparr>\<rparr>))"
    by (rule maintainsI, intro wlp) simp_all
  note k = kmem_section_wf [OF this, THEN maintains_wlp]
  show ?thesis unfolding e by (rule maintainsI, intro wlp k) simp_all
qed

lemma kalloc_wf [THEN maintains_wlp, wlp]: "safe kalloc"
  unfolding kalloc_def by (rule kmem_section_wf, rule maintainsI, intro wlp) simp_all

lemma allocproc_wf [THEN maintains_wlp, wlp]: "keeps allocproc (ptr NPROC)"
  unfolding allocproc_def
  by (rule maintainsI, intro wlp) (auto simp: wf_defs wf_procs_find intro!: wf_updates)

lemma freerange_loop_wlp: "wf_kernel s \<Longrightarrow> wlp wf_kernel (freerange_loop p vend) (\<lambda>_. wf_kernel) s"
proof (induction p vend s rule: freerange_loop.induct)
  case (1 p vend s)
  have "wlp wf_kernel (kfree p) (\<lambda>_. wf_kernel) s" using "1.prems" by (intro wlp)
  then show ?case using 1
    by (subst wlp_def, subst freerange_loop.simps) (auto simp: wlp_def split: outcome.splits)
qed

lemma freerange_wf [THEN maintains_wlp, wlp]: "safe (freerange vstart vend)"
  unfolding freerange_def by (rule maintainsI) (simp add: freerange_loop_wlp)

section \<open>Virtual memory\<close>

lemma walkpgdir_wf [THEN maintains_wlp, wlp]: "safe (walkpgdir pgdir va alloc)"
  unfolding walkpgdir_def by (rule maintainsI, intro wlp) simp_all

lemma mappages_wf [THEN maintains_wlp, wlp]: "safe (mappages pgdir va sz pa perm)"
  unfolding mappages_def Let_def
  by (rule maintains_loop [where J = "\<lambda>_. True"], rule maintainsI, intro wlp) (simp_all split: sum.split)

lemma map_kmap_wf [THEN maintains_wlp, wlp]: "safe (map_kmap pgdir ks)"
proof (induction pgdir ks rule: map_kmap.induct)
  case (2 pgdir virt ps pe perm ks)
  show ?case
  proof (rule maintainsI, unfold map_kmap.simps, intro wlp)
    fix s a s'
    assume "wf_kernel s'" "\<not> a < (0::int)"
    then show "wlp wf_kernel (map_kmap pgdir ks) (\<lambda>a s'. wf_kernel s' \<and> True) s'"
      using 2 by (auto simp: maintains_def)
  qed simp_all
qed (rule maintainsI, simp, intro wlp, simp)

lemma setupkvm_wf [THEN maintains_wlp, wlp]: "safe setupkvm"
  unfolding setupkvm_def by (rule maintainsI, intro wlp) simp_all

lemma inituvm_wf [THEN maintains_wlp, wlp]: "safe (inituvm pgdir init)"
  unfolding inituvm_def by (rule maintainsI, intro wlp) simp_all

lemma deallocuvm_wf [THEN maintains_wlp, wlp]: "safe (deallocuvm pgdir oldsz newsz)"
proof -
  have "safe (loop n (\<lambda>a.
        if \<not> a < oldsz then ret (Inr newsz)
        else bnd (walkpgdir pgdir a False) (\<lambda>pte.
          if pte = 0 then ret (Inl (a + (NPTENTRIES - 1) * PGSIZE + PGSIZE))
          else bnd (rd32 pte) (\<lambda>e.
            if e AND PTE_P \<noteq> 0 then
              let pa = PTE_ADDR e in
              if pa = 0 then panic ''kfree''
              else andthen (kfree (p2v pa)) (andthen (wr32 pte 0) (ret (Inl (a + PGSIZE))))
            else ret (Inl (a + PGSIZE))))) x)" for n x
    by (rule maintains_loop [where J = "\<lambda>_. True"], rule maintainsI, intro wlp) (simp_all split: sum.split)
  note l = this [THEN maintains_wlp]
  show ?thesis unfolding deallocuvm_def by (rule maintainsI, intro wlp l) simp_all
qed

lemma allocuvm_wf [THEN maintains_wlp, wlp]: "safe (allocuvm pgdir oldsz newsz)"
proof -
  have "safe (loop n (allocuvm_body pgdir oldsz newsz) x)" for n x
    unfolding allocuvm_body_def
    by (rule maintains_loop [where J = "\<lambda>_. True"], rule maintainsI, intro wlp) (simp_all split: sum.split)
  note l = this [THEN maintains_wlp]
  show ?thesis unfolding allocuvm_def by (rule maintainsI, intro wlp l) simp_all
qed

lemma freevm_wf [THEN maintains_wlp, wlp]: "safe (freevm pgdir)"
proof -
  have "safe (for_each ns (\<lambda>i. bnd (rd32 (pgdir + 4 * of_nat i)) (\<lambda>e.
      if e AND PTE_P \<noteq> 0 then kfree (p2v (PTE_ADDR e)) else ret ())))" for ns
    by (rule maintains_for_each, rule maintainsI, intro wlp) simp_all
  note l = this [THEN maintains_wlp]
  show ?thesis unfolding freevm_def by (rule maintainsI, intro wlp l) simp_all
qed

lemma clearpteu_wf [THEN maintains_wlp, wlp]: "safe (clearpteu pgdir uva)"
  unfolding clearpteu_def by (rule maintainsI, intro wlp) simp_all

lemma copyuvm_wf [THEN maintains_wlp, wlp]: "safe (copyuvm pgdir sz)"
proof -
  have "safe (loop n (\<lambda>i.
       if \<not> i < sz then ret (Inr d)
       else bnd (walkpgdir pgdir i False) (\<lambda>pte.
         if pte = 0 then panic ''copyuvm: pte should exist''
         else bnd (rd32 pte) (\<lambda>e.
           if e AND PTE_P = 0 then panic ''copyuvm: page not present''
           else bnd kalloc (\<lambda>mem.
             if mem = 0 then andthen (freevm d) (ret (Inr 0))
             else andthen (modify (\<lambda>s. s\<lparr>k_mem := memmove (k_mem s) mem (p2v (PTE_ADDR e)) PGSIZE\<rparr>))
               (bnd (mappages d i PGSIZE (v2p mem) (PTE_FLAGS e)) (\<lambda>r.
                if r < 0 then andthen (freevm d) (ret (Inr 0))
                else ret (Inl (i + PGSIZE)))))))) x)" for n d x
    by (rule maintains_loop [where J = "\<lambda>_. True"], rule maintainsI, intro wlp) (simp_all split: sum.split)
  note l = this [THEN maintains_wlp]
  show ?thesis unfolding copyuvm_def by (rule maintainsI, intro wlp l) simp_all
qed

lemma uva2ka_wf [THEN maintains_wlp, wlp]: "safe (uva2ka pgdir uva)"
  unfolding uva2ka_def by (rule maintainsI, intro wlp) simp_all

lemma copyout_wf [THEN maintains_wlp, wlp]: "safe (copyout pgdir va buf)"
  unfolding copyout_def
  by (rule maintains_loop [where J = "\<lambda>_. True"], rule maintainsI, intro wlp) (simp_all split: sum.split)

lemma switchkvm_wf [THEN maintains_wlp, wlp]: "safe switchkvm"
  unfolding switchkvm_def by (rule maintainsI, intro wlp) simp_all

lemma switchuvm_wf [THEN maintains_wlp, wlp]: "safe (switchuvm j)"
  unfolding switchuvm_def by (rule maintainsI, intro wlp) simp_all

lemma kvmalloc_wf [THEN maintains_wlp, wlp]: "safe kvmalloc"
  unfolding kvmalloc_def by (rule maintainsI, intro wlp) simp_all

lemma load8_wf [THEN maintains_wlp, wlp]: "safe (load8 va)"
  by (rule maintainsI) (simp add: wlp_def load8_def split: option.split)

lemma store8_wf [THEN maintains_wlp, wlp]: "safe (store8 va v)"
  by (rule maintainsI) (simp add: wlp_def store8_def split: option.split)

lemma load_bytes_wf [THEN maintains_wlp, wlp]: "keeps (load_bytes va n) (\<lambda>bs. length bs = n)"
proof (induction n arbitrary: va)
  case (Suc n)
  show ?case unfolding load_bytes.simps by (rule maintainsI, intro wlp maintains_wlp [OF Suc]) simp_all
qed (rule maintainsI, simp, intro wlp, simp)

lemma store_bytes_wf [THEN maintains_wlp, wlp]: "safe (store_bytes va bs)"
proof (induction bs arbitrary: va)
  case (Cons b bs)
  show ?case unfolding store_bytes.simps by (rule maintainsI, intro wlp maintains_wlp [OF Cons]) simp_all
qed (rule maintainsI, simp, intro wlp, simp)

lemma load32_wf [THEN maintains_wlp, wlp]: "safe (load32 va)"
  unfolding load32_def by (rule maintainsI, intro wlp) simp_all

lemma store32_wf [THEN maintains_wlp, wlp]: "safe (store32 va v)"
  unfolding store32_def by (rule maintainsI, intro wlp) simp_all

section \<open>Devices\<close>

lemma outb_wf [THEN maintains_wlp, wlp]: "safe (outb port v)"
  unfolding outb_def by (rule maintainsI, intro wlp) simp_all

lemma lapicw_wf [THEN maintains_wlp, wlp]: "safe (lapicw i v)"
  unfolding lapicw_def by (rule maintainsI, intro wlp) simp_all

lemma ioapicwrite_wf [THEN maintains_wlp, wlp]: "safe (ioapicwrite reg v)"
  unfolding ioapicwrite_def by (rule maintainsI, intro wlp) simp_all

text \<open>Sequences of writes to ports and registers.\<close>

lemma outbs_wf [THEN maintains_wlp, wlp]: "safe (for_each ps (\<lambda>(p, v). outb p v))"
  by (rule maintains_for_each, rule maintainsI, intro wlp) simp_all

lemma lapicws_wf [THEN maintains_wlp, wlp]: "safe (for_each ps (\<lambda>(i, v). lapicw i v))"
  by (rule maintains_for_each, rule maintainsI, intro wlp) simp_all

lemma picenable_wf [THEN maintains_wlp, wlp]: "safe (picenable irq)"
  unfolding picenable_def picsetmask_def by (rule maintainsI, intro wlp) simp_all

lemma picinit_wf [THEN maintains_wlp, wlp]: "safe picinit"
  unfolding picinit_def picsetmask_def by (rule maintainsI, intro wlp) simp_all

lemma ioapicinit_wf [THEN maintains_wlp, wlp]: "safe (ioapicinit ver)"
proof -
  have "safe (for_each ns (\<lambda>i. andthen (ioapicwrite (0x10 + 2 * of_nat i) (0x10000 OR (T_IRQ0 + of_nat i)))
      (ioapicwrite (0x10 + 2 * of_nat i + 1) 0)))" for ns
    by (rule maintains_for_each, rule maintainsI, intro wlp) simp_all
  note l = this [THEN maintains_wlp]
  show ?thesis unfolding ioapicinit_def by (rule maintainsI, intro wlp l) simp_all
qed

lemma ioapicenable_wf [THEN maintains_wlp, wlp]: "safe (ioapicenable irq c)"
  unfolding ioapicenable_def by (rule maintainsI, intro wlp) simp_all

lemma timerinit_wf [THEN maintains_wlp, wlp]: "safe timerinit"
  unfolding timerinit_def by (rule maintainsI, intro wlp) simp_all

lemma uartinit_wf [THEN maintains_wlp, wlp]: "safe (uartinit lsr)"
  unfolding uartinit_def by (rule maintainsI, intro wlp) simp_all

lemma uartputc_wf [THEN maintains_wlp, wlp]: "safe (uartputc c)"
  unfolding uartputc_def by (rule maintainsI, intro wlp) simp_all

lemma uartgetc_wf: "safe (uartgetc lsr d)"
  unfolding uartgetc_def by (rule maintainsI, intro wlp) simp_all

lemma delivered_wf [THEN maintains_wlp, wlp]: "safe (delivered vs)"
  by (induction vs) (auto simp: maintains_def intro!: wlp)

lemma lapicinit_wf [THEN maintains_wlp, wlp]: "safe (lapicinit ver icr)"
  unfolding lapicinit_def by (rule maintainsI, intro wlp) simp_all

lemma lapiceoi_wf [THEN maintains_wlp, wlp]: "safe lapiceoi"
  unfolding lapiceoi_def by (rule maintainsI, intro wlp) simp_all

lemma cpunum_wf [THEN maintains_wlp, wlp]: "safe (cpunum idr)"
  unfolding cpunum_def by (rule maintainsI, intro wlp) simp_all

lemma lapicstartap_wf [THEN maintains_wlp, wlp]: "safe (lapicstartap apicid addr)"
  unfolding lapicstartap_def by (rule maintainsI, intro wlp) simp_all


section \<open>Disks and buffers\<close>

lemma wf_disk: "wf_kernel s \<Longrightarrow> length (k_disk s n) = BSIZE"
  by (simp add: wf_kernel_def)

lemma wf_disk_write: "wf_kernel s \<Longrightarrow> length d = BSIZE \<Longrightarrow> wf_kernel (disk_write n d s)"
  by (simp add: wf_kernel_def disk_write_def screen_ok_def)

lemma memide_iderw_wf [THEN maintains_wlp, wlp]: "i < Suc NBUF \<Longrightarrow> safe (memide_iderw i)"
  unfolding memide_iderw_def by (rule maintainsI, intro wlp) (simp_all add: wf_buf_def wf_disk_write wf_data wf_disk)

lemma ideinit_wf [THEN maintains_wlp, wlp]: "safe (ideinit ready st)"
  unfolding ideinit_def by (rule maintainsI, intro wlp) simp_all

lemma idestart_wf [THEN maintains_wlp, wlp]: "safe (idestart p)"
  unfolding idestart_def by (rule maintainsI, intro wlp) simp_all

lemma ideintr_wf [THEN maintains_wlp, wlp]: "length d = BSIZE \<Longrightarrow> safe (ideintr ok d)"
  unfolding ideintr_def
proof (rule maintainsI, intro wlp)
  fix s s' i
  assume "wf_kernel s'" "k_idequeue s' = Some i"
  moreover from this have "i < Suc NBUF" by (simp add: wf_kernel_def)
  ultimately have "ptr (Suc NBUF) (b_qnext (k_bcache s' ! i))" using wf_bufs [of s' i] by (simp add: wf_buf_def)
  then show "wf_kernel (s'\<lparr>k_idequeue := b_qnext (k_bcache s' ! i)\<rparr>)"
    using \<open>wf_kernel s'\<close> by (simp add: wf_kernel_def screen_ok_def)
qed (simp_all add: wf_buf_def)

lemma unlink_wf: "table (Suc NBUF) wf_buf bs \<Longrightarrow> i < Suc NBUF \<Longrightarrow> table (Suc NBUF) wf_buf (unlink i bs)"
  unfolding unlink_def Let_def
  by (intro table_upd_at) (auto simp: wf_buf_def nth_upd_at table_length dest!: table_nth [where i = i])

lemma insert_head_wf: "table (Suc NBUF) wf_buf bs \<Longrightarrow> i < Suc NBUF \<Longrightarrow> table (Suc NBUF) wf_buf (insert_head i bs)"
  unfolding insert_head_def Let_def
  by (intro table_upd_at) (auto simp: wf_buf_def dest!: table_nth [where i = NBUF])

lemma wf_bcache: "wf_kernel s \<Longrightarrow> table (Suc NBUF) wf_buf bs \<Longrightarrow> wf_kernel (s\<lparr>k_bcache := bs\<rparr>)"
  by (simp add: wf_kernel_def screen_ok_def)

lemma wf_bcache_table: "wf_kernel s \<Longrightarrow> table (Suc NBUF) wf_buf (k_bcache s)"
  by (simp add: wf_kernel_def)

lemma binit_wf [THEN maintains_wlp, wlp]: "safe binit"
proof -
  have "safe (for_each [0..<NBUF] (\<lambda>i. modify (\<lambda>s. s\<lparr>k_bcache :=
        insert_head i (upd_at i (\<lambda>b. b\<lparr>b_dev := - 1\<rparr>) (k_bcache s))\<rparr>)))"
    by (rule maintains_for_each, rule maintainsI, intro wlp)
      (auto simp: wf_buf_def intro!: wf_bcache insert_head_wf table_upd_at wf_bcache_table)
  note l = this [THEN maintains_wlp]
  show ?thesis unfolding binit_def by (rule maintainsI, intro wlp l) (simp_all add: wf_buf_def)
qed

lemma bfind_wf [THEN maintains_wlp, wlp]:
  assumes "\<And>b. wf_buf b \<Longrightarrow> nxt b < Suc NBUF"
  shows "keeps (bfind nxt P) (ptr NBUF)"
  unfolding bfind_def
proof (rule maintainsI, intro wlp)
  fix s
  assume s: "wf_kernel s"
  let ?body = "\<lambda>i. if i = NBUF then ret (Inr None)
       else if P (k_bcache s ! i) then ret (Inr (Some i)) else ret (Inl (nxt (k_bcache s ! i)))"
  have "keeps (loop n ?body (nxt (k_bcache s ! NBUF))) (ptr NBUF)" for n
  proof (rule maintains_loop [where J = "\<lambda>i. i < Suc NBUF"])
    fix i
    assume "i < Suc NBUF"
    then have "nxt (k_bcache s ! i) < Suc NBUF" using assms s wf_bufs by blast
    with \<open>i < Suc NBUF\<close> show "keeps (?body i) (case_sum (\<lambda>i. i < Suc NBUF) (ptr NBUF))"
      by (intro maintainsI wlp) simp_all
  next
    show "nxt (k_bcache s ! NBUF) < Suc NBUF" using assms s wf_bufs by blast
  qed
  then show "wlp wf_kernel (loop (Suc (Suc NBUF)) ?body (nxt (k_bcache s ! NBUF))) (\<lambda>a s'. wf_kernel s' \<and> ptr NBUF a) s"
    using s unfolding maintains_def by blast
qed

lemma bread_wf [THEN maintains_wlp, wlp]: "keeps (bread dev blockno) (\<lambda>i. i < NBUF)"
  unfolding bread_def bget_def bget_loop_def
  by (rule maintainsI, intro wlp) (simp_all add: wf_buf_def)

lemma bwrite_wf [THEN maintains_wlp, wlp]: "i < NBUF \<Longrightarrow> safe (bwrite i)"
  unfolding bwrite_def by (rule maintainsI, intro wlp) (simp_all add: wf_buf_def)

lemma brelse_wf [THEN maintains_wlp, wlp]: "i < NBUF \<Longrightarrow> safe (brelse i)"
  unfolding brelse_def
  by (rule maintainsI, intro wlp) (simp_all add: wf_buf_def wf_bcache insert_head_wf unlink_wf wf_bcache_table)

section \<open>The log\<close>

lemma readsb_wf [THEN maintains_wlp, wlp]: "safe (readsb dev)"
  unfolding readsb_def by (rule maintainsI, intro wlp) simp_all

lemma install_trans_wf [THEN maintains_wlp, wlp]: "safe install_trans"
proof -
  have "safe (for_each ns install_block)" for ns
    unfolding install_block_def
    by (rule maintains_for_each, rule maintainsI, intro wlp) (simp_all add: wf_buf_def wf_data)
  note l = this [THEN maintains_wlp]
  show ?thesis unfolding install_trans_def by (rule maintainsI, intro wlp l) simp_all
qed

lemma write_log_wf [THEN maintains_wlp, wlp]: "safe write_log"
proof -
  have "safe (for_each ns write_log_block)" for ns
    unfolding write_log_block_def
    by (rule maintains_for_each, rule maintainsI, intro wlp) (simp_all add: wf_buf_def wf_data)
  note l = this [THEN maintains_wlp]
  show ?thesis unfolding write_log_def by (rule maintainsI, intro wlp l) simp_all
qed

lemma read_head_wf [THEN maintains_wlp, wlp]: "safe read_head"
  unfolding read_head_def
  by (rule maintainsI, intro wlp) (simp_all add: dec_head_def Let_def get32s_def min_def)

lemma write_head_wf [THEN maintains_wlp, wlp]: "safe write_head"
  unfolding write_head_def by (rule maintainsI, intro wlp) (simp_all add: wf_buf_def wf_data)

lemma initlog_wf [THEN maintains_wlp, wlp]: "safe (initlog dev)"
  unfolding initlog_def recover_from_log_def by (rule maintainsI, intro wlp) simp_all

lemma begin_op_wf [THEN maintains_wlp, wlp]: "safe begin_op"
  unfolding begin_op_def begin_op_loop_def by (rule maintainsI, intro wlp) simp_all

lemma end_op_wf [THEN maintains_wlp, wlp]: "safe end_op"
  unfolding end_op_def commit_def by (rule maintainsI, intro wlp) simp_all

lemma log_write_wf [THEN maintains_wlp, wlp]: "i < NBUF \<Longrightarrow> safe (log_write i)"
  unfolding log_write_def by (rule maintainsI, intro wlp) (simp_all add: wf_buf_def Let_def)

section \<open>Inodes\<close>

lemma bzero_wf [THEN maintains_wlp, wlp]: "safe (bzero dev n)"
  unfolding bzero_def by (rule maintainsI, intro wlp) (simp_all add: wf_buf_def)

lemma balloc_wf [THEN maintains_wlp, wlp]: "safe (balloc dev)"
  unfolding balloc_def balloc_round_def
  by (rule maintains_loop [where J = "\<lambda>_. True"], rule maintainsI, intro wlp) (simp_all add: wf_buf_def wf_data)

lemma bfree_wf [THEN maintains_wlp, wlp]: "safe (bfree dev b)"
  unfolding bfree_def by (rule maintainsI, intro wlp) (simp_all add: wf_buf_def wf_data)

lemma iinit_wf [THEN maintains_wlp, wlp]: "safe (iinit dev)"
  unfolding iinit_def by (rule maintainsI, intro wlp) simp_all

lemma iget_wf [THEN maintains_wlp, wlp]: "keeps (iget dev inum) (\<lambda>i. i < NINODE)"
  unfolding iget_def by (rule maintainsI, intro wlp) (simp_all add: wf_inode_def wf_inodes_find)

lemma ialloc_wf [THEN maintains_wlp, wlp]: "keeps (ialloc dev ty) (\<lambda>i. i < NINODE)"
proof -
  have "keeps (loop n (ialloc_round dev ty) x) (\<lambda>i. i < NINODE)" for n x
    unfolding ialloc_round_def
    by (rule maintains_loop [where J = "\<lambda>_. True"], rule maintainsI, intro wlp) (simp_all add: wf_buf_def wf_data)
  note l = this [THEN maintains_wlp]
  show ?thesis unfolding ialloc_def by (rule maintainsI, intro wlp l) simp_all
qed

lemma iupdate_wf [THEN maintains_wlp, wlp]: "safe (iupdate i)"
  unfolding iupdate_def by (rule maintainsI, intro wlp) (simp_all add: wf_buf_def wf_data)

lemma idup_wf [THEN maintains_wlp, wlp]: "keeps (idup i) (\<lambda>j. j = i)"
  unfolding idup_def by (rule maintainsI, intro wlp) (simp_all add: wf_inode_def)

lemma ilock_wf [THEN maintains_wlp, wlp]: "safe (ilock i)"
  unfolding ilock_def ilock_load_def
  by (rule maintainsI, intro wlp) (simp_all add: wf_inode_def from_dinode_def get_dinode_def get32s_def)

lemma iunlock_wf [THEN maintains_wlp, wlp]: "safe (iunlock i)"
  unfolding iunlock_def by (rule maintainsI, intro wlp) (simp_all add: wf_inode_def)

lemma bmap_wf [THEN maintains_wlp, wlp]: "safe (bmap i bn)"
  unfolding bmap_def by (rule maintainsI, intro wlp) (simp_all add: wf_inode_def wf_buf_def)

lemma itrunc_wf [THEN maintains_wlp, wlp]: "safe (itrunc i)"
proof -
  have "safe (for_each ks (\<lambda>k. bnd (get_inode i) (\<lambda>ip.
        if i_addrs ip ! k \<noteq> 0 then andthen (bfree (i_dev ip) (i_addrs ip ! k))
          (upd_inode i (\<lambda>ip. ip\<lparr>i_addrs := (i_addrs ip)[k := 0]\<rparr>))
        else ret ())))" for ks
    by (rule maintains_for_each, rule maintainsI, intro wlp) (simp_all add: wf_inode_def)
  note direct = this [THEN maintains_wlp]
  have "safe (for_each js (\<lambda>j. bnd (get_data bp) (\<lambda>d.
      if get32 d (4 * j) \<noteq> 0 then bfree dev (get32 d (4 * j)) else ret ())))" for js bp dev
    by (rule maintains_for_each, rule maintainsI, intro wlp) simp_all
  note indirect = this [THEN maintains_wlp]
  show ?thesis unfolding itrunc_def
    by (rule maintainsI, intro wlp direct indirect) (simp_all add: wf_inode_def)
qed

lemma iput_wf [THEN maintains_wlp, wlp]: "safe (iput i)"
  unfolding iput_def by (rule maintainsI, intro wlp) (simp_all add: wf_inode_def)

lemma iunlockput_wf [THEN maintains_wlp, wlp]: "safe (iunlockput i)"
  unfolding iunlockput_def by (rule maintainsI, intro wlp) simp_all

lemma stati_wf [THEN maintains_wlp, wlp]: "safe (stati i)"
  unfolding stati_def by (rule maintainsI, intro wlp) simp_all

section \<open>The console and pipes\<close>

lemma cgaputc_wf [THEN maintains_wlp, wlp]: "safe (cgaputc c)"
proof (rule maintainsI)
  fix s
  assume s: "wf_kernel s"
  then have "screen_ok s" by (simp add: wf_kernel_def)
  then obtain crt pos where e: "cgaputc c s = Ret () (s\<lparr>k_crt := crt, k_crtpos := pos\<rparr>)"
      "0 \<le> pos" "pos < 1920" "length crt = 2000" by (rule cgaputc_screen)
  then show "wlp wf_kernel (cgaputc c) (\<lambda>a s'. wf_kernel s' \<and> True) s"
    using s by (simp add: wlp_def wf_kernel_def screen_ok_def)
qed

lemma consputc_wf [THEN maintains_wlp, wlp]: "safe (consputc c)"
  unfolding consputc_def by (rule maintainsI, intro wlp) simp_all

lemma consputs_wf [THEN maintains_wlp, wlp]: "safe (for_each cs consputc)"
  by (rule maintains_for_each, rule maintainsI, intro wlp) simp_all

lemma printint_wf [THEN maintains_wlp, wlp]: "safe (printint xx base sign)"
  unfolding printint_def by (rule maintainsI, intro wlp) simp_all

lemma print_str_wf [THEN maintains_wlp, wlp]: "safe (print_str a)"
  unfolding print_str_def
  by (rule maintains_loop [where J = "\<lambda>_. True"], rule maintainsI, intro wlp) simp_all

lemma print_arg_wf [THEN maintains_wlp, wlp]: "safe (print_arg a)"
proof (cases a)
  case (Word w)
  show ?thesis unfolding Word print_arg.simps by (rule maintainsI, intro wlp) simp_all
next
  case (Str b cs)
  show ?thesis unfolding Str print_arg.simps by (rule maintainsI, intro wlp) simp_all
qed

lemma fmt_loop_wf [THEN maintains_wlp, wlp]: "safe (fmt_loop fmt argp k)"
proof (induction fmt argp k rule: fmt_loop.induct)
  case (1 argp k)
  show ?case unfolding fmt_loop.simps by (rule maintainsI, intro wlp) simp_all
next
  case (2 c argp k)
  show ?case unfolding fmt_loop.simps by (rule maintainsI, intro wlp) simp_all
next
  case (3 c d cs argp k)
  show ?case unfolding fmt_loop.simps
    by (rule maintainsI, intro wlp 3 [THEN maintains_wlp]) simp_all
qed

lemma cprintf_wf [THEN maintains_wlp, wlp]: "safe (cprintf fmt argp)"
  unfolding cprintf_def by (rule maintainsI, intro wlp) simp_all

lemma cprintfs_wf [THEN maintains_wlp, wlp]: "safe (for_each pcs (\<lambda>pc. cprintf fmt (args [Word pc])))"
  by (rule maintains_for_each, rule maintainsI, intro wlp) simp_all

lemma procdump_wf [THEN maintains_wlp, wlp]: "safe procdump"
proof -
  have "safe (for_each ps (\<lambda>p. if p_state p = UNUSED then ret ()
     else andthen (cprintf ''%d %s %s'' (args [Word (of_int (p_pid p)), Str KERNBASE (state_name (p_state p)),
           Str KERNBASE (cname (p_name p))]))
       (andthen (if p_state p = SLEEPING then bnd (getcallerpcs (cx_ebp (p_context p) + 8)) (\<lambda>pcs.
           for_each (takeWhile (\<lambda>pc. pc \<noteq> 0) pcs) (\<lambda>pc. cprintf '' %p'' (args [Word pc]))) else ret ())
       (cprintf [CHR 0x0A] (args [])))))" for ps
    unfolding getcallerpcs_def by (rule maintains_for_each, rule maintainsI, intro wlp) simp_all
  note l = this [THEN maintains_wlp]
  show ?thesis unfolding procdump_def by (rule maintainsI, intro wlp l) simp_all
qed

lemma kill_line_wf [THEN maintains_wlp, wlp]: "safe kill_line"
proof -
  have "safe (loop n kill_char x)" for n x
    unfolding kill_char_def
    by (rule maintains_loop [where J = "\<lambda>_. True"], rule maintainsI, intro wlp) (simp_all add: in_unput_def)
  note l = this [THEN maintains_wlp]
  show ?thesis unfolding kill_line_def by (rule maintainsI, intro wlp l) simp_all
qed

lemma console_char_wf [THEN maintains_wlp, wlp]: "safe (console_char c)"
  unfolding console_char_def by (rule maintainsI, intro wlp) (simp_all add: in_unput_def in_put_def)


lemma consoleintr_loop_wf:
  assumes "\<And>g. g \<in> set gs \<Longrightarrow> safe g"
  shows "safe (consoleintr_loop gs dump)"
  using assms
proof (induction gs arbitrary: dump)
  case Nil
  show ?case unfolding consoleintr_loop.simps by (rule maintainsI, intro wlp)
next
  case (Cons g gs)
  have "safe g" "safe (consoleintr_loop gs d)" for d using Cons by auto
  note l = this [THEN maintains_wlp]
  show ?case unfolding consoleintr_loop.simps by (rule maintainsI, intro wlp l) simp_all
qed

lemma consoleintr_wf:
  assumes "\<And>g. g \<in> set gs \<Longrightarrow> safe g"
  shows "safe (consoleintr gs)"
  unfolding consoleintr_def
  by (rule maintainsI, intro wlp maintains_wlp [OF consoleintr_loop_wf [OF assms]]) simp_all

lemma kbdgetc_wf: "safe (kbdgetc st data)"
  unfolding kbdgetc_def by (rule maintainsI, intro wlp) simp_all

lemma kbdintr_wf [THEN maintains_wlp, wlp]: "safe (kbdintr reads)"
  unfolding kbdintr_def by (rule consoleintr_wf) (auto simp: kbdgetc_wf)

lemma uartintr_wf [THEN maintains_wlp, wlp]: "safe (uartintr reads)"
  unfolding uartintr_def by (rule consoleintr_wf) (auto simp: uartgetc_wf)

lemma consoleinit_wf [THEN maintains_wlp, wlp]: "safe consoleinit"
  unfolding consoleinit_def by (rule maintainsI, intro wlp) simp_all

text \<open>Where data goes to and comes from.\<close>

definition safe_sink :: "sink \<Rightarrow> bool" where
  "safe_sink put \<longleftrightarrow> (\<forall>off bs. safe (put off bs))"

definition safe_source :: "source \<Rightarrow> bool" where
  "safe_source src \<longleftrightarrow> (\<forall>off n. keeps (src off n) (\<lambda>bs. length bs \<le> n))"

lemma safe_sinkD: "safe_sink put \<Longrightarrow> safe (put off bs)"
  by (simp add: safe_sink_def)

lemma safe_sourceD: "safe_source src \<Longrightarrow> keeps (src off n) (\<lambda>bs. length bs \<le> n)"
  by (simp add: safe_source_def)

lemma safe_sinks [simp]: "safe_sink kbuf" "safe_sink (ubuf a)" "safe_sink (kmem_buf a)"
  unfolding safe_sink_def kbuf_def ubuf_def kmem_buf_def by (intro allI maintainsI wlp; simp)+

lemma safe_sources [simp]: "safe_source (kbytes bs)" "safe_source (ubytes a)"
  unfolding safe_source_def kbytes_def ubytes_def by (intro allI maintainsI wlp; simp)+

lemma safe_source_shift: "safe_source src \<Longrightarrow> safe_source (\<lambda>off. src (i + off))"
  by (simp add: safe_source_def)

lemma consoleread_loop_wf:
  assumes "safe_sink put"
  shows "safe (consoleread_loop ip put target n acc)"
proof (induction n arbitrary: acc)
  case 0
  show ?case unfolding consoleread_loop.simps by (rule maintainsI, intro wlp) simp_all
next
  case (Suc n)
  note l = Suc [THEN maintains_wlp] safe_sinkD [OF assms, THEN maintains_wlp]
  show ?case unfolding consoleread_loop.simps by (rule maintainsI, intro wlp l) (simp_all add: in_take_def)
qed

lemma consoleread_wf [THEN maintains_wlp, wlp]: "safe_sink put \<Longrightarrow> safe (consoleread ip put n)"
  unfolding consoleread_def
  by (rule maintainsI, intro wlp maintains_wlp [OF consoleread_loop_wf]) simp_all

lemma consolewrite_wf [THEN maintains_wlp, wlp]:
  assumes "safe_source src"
  shows "safe (consolewrite ip src n)"
proof -
  have "safe (for_each ns (\<lambda>i. bnd (src (of_nat i) 1) (\<lambda>bs. consputc (uint (bs ! 0)))))" for ns
    by (rule maintains_for_each, rule maintainsI, intro wlp maintains_wlp [OF safe_sourceD [OF assms]]) simp_all
  note l = this [THEN maintains_wlp]
  show ?thesis unfolding consolewrite_def by (rule maintainsI, intro wlp l) simp_all
qed

lemma upd_pipe_wf [THEN maintains_wlp, wlp]: "(\<And>x. wf_pipe x \<Longrightarrow> wf_pipe (f x)) \<Longrightarrow> safe (upd_pipe p f)"
  unfolding upd_pipe_def by (rule maintainsI, intro wlp) simp_all

lemma get_pipe_wf [THEN maintains_wlp, wlp]: "safe (get_pipe p)"
  unfolding get_pipe_def by (rule maintainsI, intro wlp) simp_all

lemma proc_killed_wf [THEN maintains_wlp, wlp]: "safe proc_killed"
  unfolding proc_killed_def by (rule maintainsI, intro wlp) simp_all

lemma wf_pipes: "wf_kernel s \<Longrightarrow> pred_option wf_pipe x \<Longrightarrow> wf_kernel (s\<lparr>k_pipes := (k_pipes s)(p := x)\<rparr>)"
  by (simp add: wf_kernel_def screen_ok_def)

lemma pipeclose_wf [THEN maintains_wlp, wlp]: "safe (pipeclose p writable)"
  unfolding pipeclose_def by (rule maintainsI, intro wlp) (simp_all add: wf_pipe_def wf_pipes)

lemma pipewrite_loop_wf:
  assumes "safe_source src"
  shows "safe (pipewrite_loop p src n k)"
proof (induction k)
  case 0
  show ?case unfolding pipewrite_loop.simps by (rule maintainsI, intro wlp) simp_all
next
  case (Suc k)
  note l = Suc [THEN maintains_wlp] safe_sourceD [OF assms, THEN maintains_wlp]
  show ?case unfolding pipewrite_loop.simps
    by (rule maintainsI, intro wlp l) (simp_all add: wf_pipe_def pi_put_def)
qed

lemma pipewrite_wf [THEN maintains_wlp, wlp]: "safe_source src \<Longrightarrow> safe (pipewrite p src n)"
  unfolding pipewrite_def by (rule maintainsI, intro wlp maintains_wlp [OF pipewrite_loop_wf]) simp_all

lemma piperead_loop_wf:
  assumes "safe_sink put"
  shows "safe (piperead_loop p put k acc)"
proof (induction k arbitrary: acc)
  case 0
  show ?case unfolding piperead_loop.simps by (rule maintainsI, intro wlp) simp_all
next
  case (Suc k)
  note l = Suc [THEN maintains_wlp] safe_sinkD [OF assms, THEN maintains_wlp]
  show ?case unfolding piperead_loop.simps
    by (rule maintainsI, intro wlp l) (simp_all add: wf_pipe_def pi_take_def)
qed

lemma piperead_wf [THEN maintains_wlp, wlp]: "safe_sink put \<Longrightarrow> safe (piperead p put n)"
  unfolding piperead_def piperead_wait_def
  by (rule maintainsI, intro wlp maintains_wlp [OF piperead_loop_wf]) simp_all


section \<open>Files and directories\<close>

lemma devsw_wf [THEN maintains_wlp, wlp]: "safe (devsw major)"
  unfolding devsw_def by (rule maintainsI, intro wlp) simp_all

lemma readi_wf [THEN maintains_wlp, wlp]:
  assumes "safe_sink put"
  shows "safe (readi i put off n)"
proof -
  have "safe (loop k (readi_round i put n') x)" for k n' x
    unfolding readi_round_def
    by (rule maintains_loop [where J = "\<lambda>_. True"], rule maintainsI,
        intro wlp maintains_wlp [OF safe_sinkD [OF assms]]) simp_all
  note l = this [THEN maintains_wlp]
  show ?thesis unfolding readi_def by (rule maintainsI, intro wlp l) (simp_all add: assms)
qed

lemma length_overwrite:
  assumes "length d = BSIZE" "length bs \<le> unat (chunk rest off)"
  shows "length (overwrite d (unat (off mod of_nat BSIZE)) bs) = BSIZE"
proof -
  have m: "off mod of_nat BSIZE < of_nat BSIZE" by (rule word_mod_less_divisor) (simp add: BSIZE_def)
  have "unat (chunk rest off) \<le> unat (of_nat BSIZE - off mod of_nat BSIZE)"
    unfolding chunk_def by (simp add: min_def word_le_nat_alt)
  also have "\<dots> = 512 - unat (off mod of_nat BSIZE)"
    using m by (subst unat_sub) (simp_all add: BSIZE_def order_less_imp_le)
  finally have "unat (chunk rest off) \<le> 512 - unat (off mod of_nat BSIZE)" .
  moreover have "unat (off mod of_nat BSIZE) < 512" using m by (simp add: word_less_nat_alt BSIZE_def)
  ultimately show ?thesis using assms by (simp add: overwrite_def BSIZE_def min_def)
qed

lemma writei_wf [THEN maintains_wlp, wlp]:
  assumes "safe_source src"
  shows "safe (writei i src off n)"
proof -
  have "safe (loop k (writei_round i src n) x)" for k x
    unfolding writei_round_def
    by (rule maintains_loop [where J = "\<lambda>_. True"], rule maintainsI,
        intro wlp maintains_wlp [OF safe_sourceD [OF assms]])
      (simp_all add: wf_buf_def length_overwrite wf_data)
  note l = this [THEN maintains_wlp]
  show ?thesis unfolding writei_def by (rule maintainsI, intro wlp l) (simp_all add: assms wf_inode_def)
qed

lemma read_dirent_wf [THEN maintains_wlp, wlp]: "safe (read_dirent dp off msg)"
  unfolding read_dirent_def by (rule maintainsI, intro wlp) simp_all

lemma dirlookup_wf [THEN maintains_wlp, wlp]:
  "keeps (dirlookup dp name) (pred_option (\<lambda>(j, off). j < NINODE))"
proof -
  have "keeps (loop n (dirlookup_round dp name) x) (pred_option (\<lambda>(j, off). j < NINODE))" for n x
    unfolding dirlookup_round_def
    by (rule maintains_loop [where J = "\<lambda>_. True"], rule maintainsI, intro wlp) simp_all
  note l = this [THEN maintains_wlp]
  show ?thesis unfolding dirlookup_def by (rule maintainsI, intro wlp l) simp_all
qed

lemma dirlink_wf [THEN maintains_wlp, wlp]: "safe (dirlink dp name inum)"
proof -
  have "safe (loop n (dirlink_round dp) x)" for n x
    unfolding dirlink_round_def
    by (rule maintains_loop [where J = "\<lambda>_. True"], rule maintainsI, intro wlp) (simp_all split: sum.split)
  note l = this [THEN maintains_wlp]
  show ?thesis unfolding dirlink_def by (rule maintainsI, intro wlp l) simp_all
qed

lemma nonnull_wf [THEN maintains_wlp, wlp]: "keeps (nonnull p) (\<lambda>a. p = Some a)"
  unfolding nonnull_def by (rule maintainsI, intro wlp) simp_all

lemma namex_wf [THEN maintains_wlp, wlp]:
  "keeps (namex path parent name) (pred_option (\<lambda>(ip, name). ip < NINODE))"
proof -
  have "keeps (loop n (namex_round parent) (path, ip, name)) (pred_option (\<lambda>(ip, name). ip < NINODE))"
    if "ip < NINODE" for n ip
    unfolding namex_round_def
    by (rule maintains_loop [where J = "\<lambda>(path, ip, name). ip < NINODE"], rule maintainsI, intro wlp) (auto simp: that)
  note l = this [THEN maintains_wlp]
  have "keeps (namex_start path) (\<lambda>ip. ip < NINODE)"
    unfolding namex_start_def by (rule maintainsI, intro wlp) (auto dest: wf_procs wf_cwd)
  note st = this [THEN maintains_wlp]
  show ?thesis unfolding namex_def by (rule maintainsI, intro wlp l st) simp_all
qed

lemma namei_wf [THEN maintains_wlp, wlp]: "keeps (namei path) (ptr NINODE)"
  unfolding namei_def by (rule maintainsI, intro wlp) (simp_all add: option.pred_map comp_def case_prod_unfold)

lemma nameiparent_wf [THEN maintains_wlp, wlp]:
  "keeps (nameiparent path) (pred_option (\<lambda>(ip, name). ip < NINODE))"
  unfolding nameiparent_def by (rule maintainsI, intro wlp) simp_all

section \<open>Open files\<close>

lemma filealloc_wf [THEN maintains_wlp, wlp]: "keeps filealloc (ptr NFILE)"
  unfolding filealloc_def by (rule maintainsI, intro wlp) (simp_all add: wf_file_def wf_files_find)

lemma filedup_wf [THEN maintains_wlp, wlp]: "keeps (filedup f) (\<lambda>g. g = f)"
  unfolding filedup_def by (rule maintainsI, intro wlp) (simp_all add: wf_file_def)

lemma wlp_ftype [wlp]:
  "(t = FD_NONE \<Longrightarrow> wlp I m Q s) \<Longrightarrow> (t = FD_PIPE \<Longrightarrow> wlp I p Q s) \<Longrightarrow> (t = FD_INODE \<Longrightarrow> wlp I n Q s) \<Longrightarrow>
    wlp I (case_ftype m p n t) Q s"
  by (cases t) simp_all

lemma fileclose_wf [THEN maintains_wlp, wlp]: "safe (fileclose f)"
  unfolding fileclose_def by (rule maintainsI, intro wlp) (simp_all add: wf_file_def)

lemma filestat_wf [THEN maintains_wlp, wlp]: "safe (filestat f)"
  unfolding filestat_def by (rule maintainsI, intro wlp) simp_all

lemma fileread_wf [THEN maintains_wlp, wlp]: "safe_sink put \<Longrightarrow> safe (fileread f put n)"
  unfolding fileread_def by (rule maintainsI, intro wlp) (simp_all add: wf_file_def)

lemma filewrite_wf [THEN maintains_wlp, wlp]:
  assumes "safe_source src"
  shows "safe (filewrite f src n)"
proof -
  have "safe (loop k (filewrite_round f ip src n) x)" for k ip x
    unfolding filewrite_round_def
    by (rule maintains_loop [where J = "\<lambda>_. True"], rule maintainsI, intro wlp)
      (simp_all add: wf_file_def safe_source_shift assms)
  note l = this [THEN maintains_wlp]
  show ?thesis unfolding filewrite_def by (rule maintainsI, intro wlp l) (simp_all add: assms)
qed

lemma pipe_bad_wf [THEN maintains_wlp, wlp]:
  "ptr NFILE f0 \<Longrightarrow> ptr NFILE f1 \<Longrightarrow> keeps (pipe_bad p f0 f1) (\<lambda>(r, rf, wf). ptr NFILE rf \<and> ptr NFILE wf)"
  unfolding pipe_bad_def by (rule maintainsI, intro wlp) simp_all

lemma pipealloc_wf [THEN maintains_wlp, wlp]: "keeps pipealloc (\<lambda>(r, rf, wf). ptr NFILE rf \<and> ptr NFILE wf)"
  unfolding pipealloc_def
  by (rule maintainsI, intro wlp) (simp_all add: wf_file_def wf_pipe_def wf_pipes)


section \<open>Processes and threads\<close>

lemma wf_initproc: "wf_kernel s \<Longrightarrow> ptr NPROC p \<Longrightarrow> wf_kernel (s\<lparr>k_initproc := p\<rparr>)"
  by (simp add: wf_kernel_def screen_ok_def)

lemma wf_init: "wf_kernel s \<Longrightarrow> ptr NPROC (k_initproc s)"
  by (simp add: wf_kernel_def)

lemma userinit_wf [THEN maintains_wlp, wlp]: "safe (userinit initcode)"
  unfolding userinit_def by (rule maintainsI, intro wlp) (simp_all add: wf_proc_def wf_initproc)

lemma growproc_wf [THEN maintains_wlp, wlp]: "safe (growproc n)"
  unfolding growproc_def by (rule maintainsI, intro wlp) (simp_all add: wf_proc_def)

lemma dup_files_wf [THEN maintains_wlp, wlp]:
  assumes "i < NPROC"
  shows "safe (dup_files i np)"
proof -
  have "safe (for_each [0..<NOFILE] (\<lambda>fd. bnd (get_proc i) (\<lambda>p.
       case p_ofile p ! fd of None \<Rightarrow> ret ()
       | Some f \<Rightarrow> bnd (filedup f) (\<lambda>f. upd_proc np (\<lambda>q. q\<lparr>p_ofile := (p_ofile q)[fd := Some f]\<rparr>)))))"
    by (rule maintains_for_each, rule maintainsI, intro wlp)
      (auto simp: wf_proc_def intro!: table_update dest: wf_proc_ofile [OF _ assms])
  note l = this [THEN maintains_wlp]
  show ?thesis unfolding dup_files_def
    by (rule maintainsI, intro wlp l) (auto simp: wf_proc_def dest: wf_procs [OF _ assms] wf_cwd)
qed

lemma fork_wf [THEN maintains_wlp, wlp]: "safe fork"
  unfolding fork_def by (rule maintainsI, intro wlp) (simp_all add: wf_proc_def)

lemma new_tid_wf [THEN maintains_wlp, wlp]: "safe (new_tid i tid)"
  unfolding new_tid_def by (rule maintainsI, intro wlp) (simp_all add: wf_proc_def)

lemma clone_wf [THEN maintains_wlp, wlp]: "safe (clone func arg stack)"
  unfolding clone_def clone_tail_def by (rule maintainsI, intro wlp) (simp_all add: wf_proc_def)

lemma close_files_wf [THEN maintains_wlp, wlp]: "safe (close_files i)"
  unfolding close_files_def
  by (rule maintains_for_each, rule maintainsI, intro wlp) (auto simp: wf_proc_def intro!: table_update)

lemma exit_siblings_wf [THEN maintains_wlp, wlp]: "safe (exit_siblings i)"
  unfolding exit_siblings_def
  by (rule maintains_for_each, rule maintainsI, intro wlp) (simp_all add: wf_proc_def)

lemma exit_children_wf [THEN maintains_wlp, wlp]: "safe (exit_children i)"
  unfolding exit_children_def
  by (rule maintains_for_each, rule maintainsI, intro wlp) (simp_all add: wf_proc_def wf_init)

lemma exit_wf [THEN maintains_wlp, wlp]: "safe exit"
  unfolding exit_def by (rule maintainsI, intro wlp) (simp_all add: wf_proc_def)

lemma orphan_children_wf [THEN maintains_wlp, wlp]: "safe (orphan_children i)"
  unfolding orphan_children_def
  by (rule maintains_for_each, rule maintainsI, intro wlp) (simp_all add: wf_proc_def wf_init)

lemma exit_thread_wf [THEN maintains_wlp, wlp]: "safe (exit_thread retval)"
  unfolding exit_thread_def by (rule maintainsI, intro wlp) (simp_all add: wf_proc_def)

lemma wait_wf [THEN maintains_wlp, wlp]: "safe wait"
  unfolding wait_def wait_loop_def by (rule maintainsI, intro wlp) (simp_all add: wf_proc_def)

lemma wait_thread_wf [THEN maintains_wlp, wlp]: "safe (wait_thread tid retval)"
  unfolding wait_thread_def wait_thread_loop_def by (rule maintainsI, intro wlp) (simp_all add: wf_proc_def)

lemma forkret_wf [THEN maintains_wlp, wlp]: "safe (forkret first)"
  unfolding forkret_def by (rule maintainsI, intro wlp) simp_all

lemma thread_join_wf [THEN maintains_wlp, wlp]: "safe (thread_join tid retval)"
  unfolding thread_join_def lock_acquire_def lock_release_def by (rule maintainsI, intro wlp) simp_all

lemma scheduler_dispatch_wf [THEN maintains_wlp, wlp]: "j < NPROC \<Longrightarrow> safe (scheduler_dispatch j)"
  unfolding scheduler_dispatch_def set_cpu_proc_def
  by (rule maintainsI, intro wlp_andthen wlp_modify switchuvm_wf)
    (auto simp: wf_kernel_def screen_ok_def wf_proc_def intro: table_upd_at)

section \<open>Programs\<close>

lemma loaduvm_wf [THEN maintains_wlp, wlp]: "safe (loaduvm pgdir addr ip offset sz)"
proof -
  have "safe (loop n (loaduvm_round pgdir addr ip offset sz) x)" for n x
    unfolding loaduvm_round_def
    by (rule maintains_loop [where J = "\<lambda>_. True"], rule maintainsI, intro wlp) (simp_all split: sum.split)
  note l = this [THEN maintains_wlp]
  show ?thesis unfolding loaduvm_def by (rule maintainsI, intro wlp l) simp_all
qed

lemma exec_load_wf [THEN maintains_wlp, wlp]: "safe (exec_load pgdir ip elf)"
  unfolding exec_load_def exec_segment_def
  by (rule maintains_loop [where J = "\<lambda>_. True"], rule maintainsI, intro wlp) simp_all

lemma exec_bad_wf [THEN maintains_wlp, wlp]: "safe (exec_bad pgdir ip)"
  unfolding exec_bad_def by (rule maintainsI, intro wlp) simp_all

lemma push_args_wf [THEN maintains_wlp, wlp]: "safe (push_args pgdir argv sp us)"
proof (induction argv arbitrary: sp us)
  case Nil
  show ?case unfolding push_args.simps by (rule maintainsI, intro wlp) simp_all
next
  case (Cons a argv)
  show ?case unfolding push_args.simps
    by (rule maintainsI, intro wlp Cons [THEN maintains_wlp]) simp_all
qed

lemma exec_stack_wf [THEN maintains_wlp, wlp]: "safe (exec_stack path argv pgdir entry sz)"
  unfolding exec_stack_def exec_commit_def by (rule maintainsI, intro wlp) (simp_all add: wf_proc_def)

lemma exec_wf [THEN maintains_wlp, wlp]: "safe (exec stk path argv)"
  unfolding exec_def by (rule maintainsI, intro wlp) simp_all

section \<open>System calls\<close>

lemma proc_sz_wf [THEN maintains_wlp, wlp]: "safe proc_sz"
  unfolding proc_sz_def by (rule maintainsI, intro wlp) simp_all

lemma fetchint_wf [THEN maintains_wlp, wlp]: "safe (fetchint addr)"
  unfolding fetchint_def by (rule maintainsI, intro wlp) simp_all

lemma fetchstr_wf [THEN maintains_wlp, wlp]: "safe (fetchstr addr)"
proof -
  have "safe (loop n (fetchstr_round sz) x)" for n sz x
    unfolding fetchstr_round_def
    by (rule maintains_loop [where J = "\<lambda>_. True"], rule maintainsI, intro wlp) (simp_all split: sum.split)
  note l = this [THEN maintains_wlp]
  show ?thesis unfolding fetchstr_def by (rule maintainsI, intro wlp l) simp_all
qed

lemma argint_wf [THEN maintains_wlp, wlp]: "safe (argint n)"
  unfolding argint_def by (rule maintainsI, intro wlp) simp_all

lemma argptr_wf [THEN maintains_wlp, wlp]: "safe (argptr n sz)"
  unfolding argptr_def by (rule maintainsI, intro wlp) simp_all

lemma argstr_wf [THEN maintains_wlp, wlp]: "safe (argstr n)"
  unfolding argstr_def by (rule maintainsI, intro wlp) simp_all


lemma argfd_wf [THEN maintains_wlp, wlp]: "keeps (argfd n) (pred_option (\<lambda>(fd, f). fd < NOFILE \<and> f < NFILE))"
proof -
  have f: "pred_option (\<lambda>(fd, f). fd < NOFILE \<and> f < NFILE) (map_option (\<lambda>f. (nat v, f)) (p_ofile (k_procs s ! i) ! nat v))"
    if "wf_kernel s" "i < NPROC" "\<not> (v < 0 \<or> v \<ge> int NOFILE)" for s i v
  proof -
    have "nat v < NOFILE" using that(3) by linarith
    then show ?thesis
      using wf_proc_ofile [OF that(1,2)] by (cases "p_ofile (k_procs s ! i) ! nat v") auto
  qed
  show ?thesis unfolding argfd_def by (rule maintainsI, intro wlp) (simp_all add: f)
qed

lemma fdalloc_wf [THEN maintains_wlp, wlp]: "f < NFILE \<Longrightarrow> safe (fdalloc f)"
  unfolding fdalloc_def by (rule maintainsI, intro wlp) (simp_all add: wf_proc_def table_update)

lemma write_problem_wf [THEN maintains_wlp, wlp]: "safe write_problem"
  unfolding write_problem_def by (rule maintainsI, intro wlp) simp_all

lemma stat_store_wf [THEN maintains_wlp, wlp]: "safe (stat_store a st)"
  unfolding stat_store_def by (rule maintainsI, intro wlp) simp_all

lemma link_bad_wf [THEN maintains_wlp, wlp]: "safe (link_bad ip)"
  unfolding link_bad_def by (rule maintainsI, intro wlp) (simp_all add: wf_inode_def)

lemma isdirempty_wf [THEN maintains_wlp, wlp]: "safe (isdirempty dp)"
  unfolding isdirempty_def isdirempty_round_def
  by (rule maintains_loop [where J = "\<lambda>_. True"], rule maintainsI, intro wlp) (simp_all split: sum.split)

lemma create_dots_wf [THEN maintains_wlp, wlp]: "safe (create_dots ip dp)"
  unfolding create_dots_def by (rule maintainsI, intro wlp) (simp_all add: wf_inode_def)

lemma create_wf [THEN maintains_wlp, wlp]: "keeps (create path ty major minor) (ptr NINODE)"
  unfolding create_def by (rule maintainsI, intro wlp) (simp_all add: wf_inode_def)

lemma open_inode_wf [THEN maintains_wlp, wlp]: "keeps (open_inode path omode) (ptr NINODE)"
  unfolding open_inode_def by (rule maintainsI, intro wlp) simp_all

lemma fetch_argv_wf [THEN maintains_wlp, wlp]: "safe (fetch_argv n uargv)"
proof (induction n arbitrary: uargv)
  case 0
  show ?case unfolding fetch_argv.simps by (rule maintainsI, intro wlp) simp_all
next
  case (Suc n)
  show ?case unfolding fetch_argv.simps by (rule maintainsI, intro wlp Suc [THEN maintains_wlp]) simp_all
qed

lemma process_calls_wf:
  "safe sys_fork" "safe sys_exit" "safe sys_wait" "safe sys_kill" "safe sys_getpid" "safe sys_sbrk" "safe sys_sleep"
  "safe sys_uptime" "safe sys_halt" "safe sys_thread_create" "safe sys_thread_exit" "safe sys_thread_join"
  "safe sys_gettid" "safe sys_clone"
  unfolding sys_fork_def sys_exit_def sys_wait_def sys_kill_def sys_getpid_def sys_sbrk_def sys_sleep_def
    sys_sleep_loop_def sys_uptime_def sys_halt_def sys_thread_create_def thread_create_def sys_thread_exit_def
    thread_exit_def sys_thread_join_def sys_gettid_def gettid_def sys_clone_def
  by (rule maintainsI, intro wlp, simp_all)+

lemma file_calls_wf:
  "safe sys_dup" "safe sys_read" "safe sys_write" "safe sys_close" "safe sys_fstat" "safe sys_open" "safe sys_pipe"
  unfolding sys_dup_def sys_read_def sys_write_def sys_close_def sys_fstat_def sys_open_def sys_pipe_def
  by (rule maintainsI, intro wlp, simp_all add: wf_proc_def wf_file_def table_update)+

lemma directory_calls_wf:
  "safe sys_link" "safe sys_unlink" "safe sys_mkdir" "safe sys_mknod" "safe sys_chdir" "safe (sys_exec stk)"
  unfolding sys_link_def sys_unlink_def unlink_bad_def sys_mkdir_def sys_mknod_def sys_chdir_def sys_exec_def
  by (rule maintainsI, intro wlp, simp_all add: wf_inode_def wf_proc_def)+

lemma syscalls_wf: "c \<in> set (syscalls stk) \<Longrightarrow> safe c"
  unfolding syscalls_def using process_calls_wf file_calls_wf directory_calls_wf by auto

lemma syscall_wf [THEN maintains_wlp, wlp]: "safe (syscall stk)"
proof -
  have "safe (syscalls stk ! nat (n - 1))" if "n > 0 \<and> n < 28" for n
  proof (rule syscalls_wf, rule nth_mem)
    show "nat (n - 1) < length (syscalls stk)" using that by (simp add: syscalls_def) linarith
  qed
  note l = this [THEN maintains_wlp]
  show ?thesis unfolding syscall_def set_eax_def by (rule maintainsI, intro wlp l) (simp_all add: wf_proc_def)
qed

section \<open>Traps and start-up\<close>

lemma cur_wf [THEN maintains_wlp, wlp]: "keeps cur (ptr NPROC)"
  unfolding cur_def by (rule maintainsI, intro wlp) (simp_all add: wf_kernel_def)

lemma exit_if_killed_wf [THEN maintains_wlp, wlp]: "safe exit_if_killed"
  unfolding exit_if_killed_def by (rule maintainsI, intro wlp) simp_all

lemma trap_wf:
  assumes "length (snd (in_ide inp)) = BSIZE"
  shows "safe (trap inp tf)"
  unfolding trap_def trap_syscall_def trap_dispatch_def trap_timer_def trap_fault_def trap_tail_def trap_yield_def
  by (rule maintainsI, intro wlp) (simp_all add: wf_proc_def assms)

lemma mpinit_wf [THEN maintains_wlp, wlp]: "safe (mpinit imcr)"
proof -
  have "safe (loop n (mp_table_round e) x)" for n e x
    unfolding mp_table_round_def mp_entry_def
    by (rule maintains_loop [where J = "\<lambda>_. True"], rule maintainsI, intro wlp) simp_all
  note l = this [THEN maintains_wlp]
  show ?thesis unfolding mpinit_def by (rule maintainsI, intro wlp l) simp_all
qed

lemma startothers_wf [THEN maintains_wlp, wlp]: "safe (startothers bi code mpenter entrypgdir)"
proof -
  have "safe (for_each cs (start_cpu bi mpenter entrypgdir))" for cs
    unfolding start_cpu_def by (rule maintains_for_each, rule maintainsI, intro wlp) simp_all
  note l = this [THEN maintains_wlp]
  show ?thesis unfolding startothers_def by (rule maintainsI, intro wlp l) simp_all
qed

lemma main_wf: "safe (main bi code mpenter entrypgdir initcode)"
  unfolding main_def kinit1_def kinit2_def pinit_def tvinit_def fileinit_def
  by (rule maintainsI, intro wlp) simp_all

lemma wf_boot: "wf_kernel boot"
  by (simp add: wf_kernel_def boot_def proc0_def file0_def inode0_def buf0_def wf_defs screen_ok_def table_def)

lemma main_from_boot: "main bi code mpenter entrypgdir initcode boot = Ret () s \<Longrightarrow> wf_kernel s"
  using maintains_Ret [OF main_wf wf_boot] by simp

text \<open>
  C5: Every entry into the kernel keeps its state well-formed. Whatever the trap is (any of
  the 27 system calls with any arguments, a timer, disk, keyboard or serial interrupt, a
  fault) and whatever a user program or a device supplies, when the handler returns or gives
  up the CPU, all tables have their sizes and all descriptors, directories, parents, list
  links and queue heads point into the tables they are meant for, blocks and buffers have
  their lengths, and the cursor is on the screen.
\<close>

theorem trap_keeps_well_formed:
  assumes "wf_kernel s" and "length (snd (in_ide inp)) = BSIZE"
    and "trap inp tf s = Ret () t \<or> trap inp tf s = Switch t"
  shows "wf_kernel t"
  using assms(3) maintains_Ret [OF trap_wf [OF assms(2)] assms(1)]
    maintains_Switch [OF trap_wf [OF assms(2)] assms(1)] by auto

definition quiet_input :: trap_input where
  "quiet_input = \<lparr>in_cr2 = 0, in_ide = (True, replicate BSIZE 0), in_kbd = [], in_uart = [], in_stack = []\<rparr>"

text \<open>A process with pid 5 runs and calls \<^verbatim>\<open>getpid\<close>.\<close>

definition caller :: kernel where
  "caller = boot\<lparr>k_cpu := (k_cpu boot)\<lparr>c_proc := Some 0\<rparr>,
     k_procs := (k_procs boot)[0 := proc0\<lparr>p_pid := 5, p_state := RUNNING\<rparr>]\<rparr>"

definition getpid_frame :: trapframe where
  "getpid_frame = tf0\<lparr>tf_trapno := 64, tf_eax := 11\<rparr>"

lemma wf_caller: "wf_kernel caller"
  by (auto simp: wf_kernel_def caller_def boot_def proc0_def file0_def inode0_def buf0_def wf_defs screen_ok_def
      NPROC_def table_def dest!: set_update_subset_insert [THEN subsetD])

theorem trap_keeps_well_formed_witness:
  "\<exists>t. trap quiet_input getpid_frame caller = Ret () t \<and> wf_kernel t \<and> tf_eax (p_tf (k_procs t ! 0)) = 5"
proof -
  have p: "c_proc (k_cpu caller) = Some 0" "length (k_procs caller) = 64"
    "k_procs caller ! 0 = proc0\<lparr>p_pid := 5, p_state := RUNNING\<rparr>"
    by (simp_all add: caller_def boot_def NPROC_def)
  have "wp (trap quiet_input getpid_frame) (\<lambda>_ t. tf_eax (p_tf (k_procs t ! 0)) = 5) caller"
    using p by (simp add: trap_def trap_syscall_def exit_if_killed_def proc_killed_def proc0_def getpid_frame_def
        T_SYSCALL_def syscall_def syscalls_def sys_getpid_def getpid_def set_eax_def wp_simps Let_def)
  then show ?thesis using trap_keeps_well_formed [OF wf_caller, of quiet_input getpid_frame]
    by (auto simp: quiet_input_def wp_Ret_iff)
qed

end
