(* ===== verification/Usermem.thy ===== *)
theory Usermem
  imports Vm
begin

text \<open>
  Accesses of the kernel to the memory of the running process: where a user page is mapped
  writable, words stored through its user address arrive in the page that backs it and can
  be read back.
\<close>

unbundle bit_operations_syntax

text \<open>
  \<open>umapped s va q\<close>: in the address space the CPU runs in, the page of \<open>va\<close> is present and
  writable, the page at kernel address \<open>q\<close> backs it, and this page is not one of the two
  pages of the table through which it is found.
\<close>

definition umapped :: "kernel \<Rightarrow> uint \<Rightarrow> uint \<Rightarrow> bool" where
  "umapped s va q \<longleftrightarrow> (let m = k_mem s; d = p2v (c_cr3 (k_cpu s)); e = pde m d (PDX va); e' = pte m d va in
     va < KERNBASE \<and> page_aligned d \<and> page_aligned q \<and> page_aligned (pgtable m d (PDX va))
     \<and> present e \<and> e AND PTE_W \<noteq> 0 \<and> present e' \<and> e' AND PTE_W \<noteq> 0
     \<and> p2v (PTE_ADDR e') = q \<and> q \<noteq> d \<and> q \<noteq> pgtable m d (PDX va))"

lemma umappedD:
  assumes "umapped s va q"
  shows "va < KERNBASE" "page_aligned (p2v (c_cr3 (k_cpu s)))" "page_aligned q"
    "page_aligned (pgtable (k_mem s) (p2v (c_cr3 (k_cpu s))) (PDX va))"
    "q \<noteq> p2v (c_cr3 (k_cpu s))" "q \<noteq> pgtable (k_mem s) (p2v (c_cr3 (k_cpu s))) (PDX va)"
  using assms unfolding umapped_def Let_def by blast+

lemma unat_offset: "unat (va AND 0xFFF :: uint) = unat va mod 4096"
proof -
  have "va AND 0xFFF = take_bit 12 va" by (simp add: take_bit_eq_mask mask_eq_exp_minus_1)
  then show ?thesis by (simp add: take_bit_eq_mod unat_mod_distrib)
qed

lemma unat_add_small: "va < KERNBASE \<Longrightarrow> k < 4096 \<Longrightarrow> unat (va + of_nat k) = unat va + k"
  by (simp add: unat_word_ariths unat_of_nat word_less_nat_alt KERNBASE_def)

lemma page_arith:
  assumes "(x :: nat) mod 4096 + k < 4096"
  shows "(x + k) div 4096 = x div 4096" "(x + k) mod 4096 = x mod 4096 + k"
proof -
  have "x + k = x div 4096 * 4096 + (x mod 4096 + k)" using div_mult_mod_eq [of x 4096] by linarith
  moreover have "(b * 4096 + r) div 4096 = b" "(b * 4096 + r) mod 4096 = r" if "r < 4096" for b r :: nat
    using that by simp_all
  ultimately show "(x + k) div 4096 = x div 4096" "(x + k) mod 4096 = x mod 4096 + k" using assms by metis+
qed

lemma same_page_offset:
  assumes "va < KERNBASE" "unat va mod 4096 + k < 4096"
  shows "PGROUNDDOWN (va + of_nat k) = PGROUNDDOWN va" "(va + of_nat k) AND 0xFFF = (va AND 0xFFF) + of_nat k"
proof -
  have k: "k < 4096" using assms(2) by simp
  note d = page_arith [OF assms(2)]
  show "PGROUNDDOWN (va + of_nat k) = PGROUNDDOWN va"
    unfolding word_unat_eq_iff unat_PGROUNDDOWN unat_add_small [OF assms(1) k] d by simp
  have "unat (of_nat k :: uint) = k" using k by (simp add: unat_of_nat)
  then have "unat ((va AND 0xFFF) + of_nat k) = unat va mod 4096 + k"
    using assms(2) by (subst unat_add_lem [THEN iffD1]) (simp_all add: unat_offset)
  then show "(va + of_nat k) AND 0xFFF = (va AND 0xFFF) + of_nat k"
    by (simp only: word_unat_eq_iff unat_offset unat_add_small [OF assms(1) k] d)
qed

lemma umapped_offset:
  assumes "umapped s va q" "unat va mod 4096 + k < 4096"
  shows "umapped s (va + of_nat k) q"
proof -
  have va: "va < KERNBASE" using assms(1) by (rule umappedD)
  then have "unat va div 4096 < 2 ^ 19" by (simp add: word_less_nat_alt KERNBASE_def less_mult_imp_div_less)
  moreover have "unat va + k < (unat va div 4096 + 1) * 4096"
    using assms(2) div_mult_mod_eq [of "unat va" 4096] by (simp only: distrib_right)
  ultimately have "unat va + k < 2 ^ 31" by simp
  then have b: "va + of_nat k < KERNBASE"
    using unat_add_small [OF va, of k] assms(2) by (simp add: word_less_nat_alt KERNBASE_def)
  have "PDX (va + of_nat k) = PDX va"
    using same_page [of "va + of_nat k" va] same_page_offset(1) [OF va assms(2)] by simp
  then show ?thesis
    using assms(1) b pte_same_page [OF same_page_offset(1) [OF va assms(2)]] by (simp add: umapped_def Let_def)
qed

lemma translate_umapped:
  assumes "umapped s va q"
  shows "translate s wr va = Some (q + (va AND 0xFFF))"
  using assms by (auto simp: umapped_def Let_def translate_def pde_def pte_def pgtable_def present_def)

text \<open>A change of memory outside the two table pages keeps the mapping.\<close>

lemma umapped_cong:
  assumes "umapped s va q" "c_cr3 (k_cpu t) = c_cr3 (k_cpu s)"
    and "\<And>x. in_page (p2v (c_cr3 (k_cpu s))) x \<Longrightarrow> k_mem t x = k_mem s x"
    and "\<And>x. in_page (pgtable (k_mem s) (p2v (c_cr3 (k_cpu s))) (PDX va)) x \<Longrightarrow> k_mem t x = k_mem s x"
  shows "umapped t va q"
proof -
  let ?d = "p2v (c_cr3 (k_cpu s))"
  have a: "page_aligned ?d" "page_aligned (pgtable (k_mem s) ?d (PDX va))"
    using assms(1) by (simp_all add: umapped_def Let_def)
  have d: "pde (k_mem t) ?d (PDX va) = pde (k_mem s) ?d (PDX va)"
    unfolding pde_def by (rule ld32_entry_cong) (simp_all add: a assms(3))
  then have g: "pgtable (k_mem t) ?d (PDX va) = pgtable (k_mem s) ?d (PDX va)" by (simp add: pgtable_def)
  have "ld32 (k_mem t) (pgtable (k_mem s) ?d (PDX va) + 4 * PTX va)
      = ld32 (k_mem s) (pgtable (k_mem s) ?d (PDX va) + 4 * PTX va)"
    by (rule ld32_entry_cong) (simp_all add: a assms(4))
  then have "pte (k_mem t) ?d va = pte (k_mem s) ?d va" by (simp add: pte_def d g)
  then show ?thesis using assms(1,2) d g by (simp add: umapped_def Let_def)
qed

lemma umapped_store:
  assumes "umapped s va q" "in_page q a"
  shows "umapped (s\<lparr>k_mem := (k_mem s)(a := b)\<rparr>) va q"
proof (rule umapped_cong [OF assms(1)])
  note q = umappedD(3,2,5,4,6) [OF assms(1)]
  show "k_mem (s\<lparr>k_mem := (k_mem s)(a := b)\<rparr>) x = k_mem s x" if "in_page (p2v (c_cr3 (k_cpu s))) x" for x
    using in_page_disjoint [OF q(1,2,3) that] assms(2) by auto
  show "k_mem (s\<lparr>k_mem := (k_mem s)(a := b)\<rparr>) x = k_mem s x"
    if "in_page (pgtable (k_mem s) (p2v (c_cr3 (k_cpu s))) (PDX va)) x" for x
    using in_page_disjoint [OF q(1,4,5) that] assms(2) by auto
qed simp

lemma in_page_offset: "unat (va :: uint) mod 4096 + k < 4096 \<Longrightarrow> in_page q (q + (va AND 0xFFF) + of_nat k)"
  by (simp add: in_page_def add.assoc unat_word_ariths unat_offset unat_of_nat)

text \<open>Bytes inside a page, stored and loaded through the user address.\<close>

lemma put_bytes_Nil [simp]: "put_bytes m a [] = m"
  by (simp add: put_bytes_def)

lemma put_bytes_Cons:
  assumes "length bs < 4096"
  shows "put_bytes m a (b # bs) = put_bytes (m(a := b)) (a + 1) bs"
proof
  fix x
  show "put_bytes m a (b # bs) x = put_bytes (m(a := b)) (a + 1) bs x"
  proof (cases "x = a")
    case True
    then show ?thesis using assms by (simp add: put_bytes_def unsigned_minus_1_eq_mask mask_eq_exp_minus_1)
  next
    case False
    then have "x - a \<noteq> 0" by simp
    then have "unat (x - a) = Suc (unat (x - a - 1))"
      using unat_gt_0 [of "x - a"] by (simp add: unat_minus_one)
    then show ?thesis using False by (simp add: put_bytes_def diff_diff_eq)
  qed
qed

lemma store_bytes_umapped:
  assumes "umapped s va q" "unat va mod 4096 + length bs \<le> 4096"
  shows "store_bytes va bs s = Ret () (s\<lparr>k_mem := put_bytes (k_mem s) (q + (va AND 0xFFF)) bs\<rparr>)"
  using assms
proof (induction bs arbitrary: va s)
  case Nil
  then show ?case by simp
next
  case (Cons b bs)
  let ?a = "q + (va AND 0xFFF)"
  let ?s = "s\<lparr>k_mem := (k_mem s)(?a := b)\<rparr>"
  have va: "va < KERNBASE" using Cons.prems by (simp add: umapped_def Let_def)
  have st: "store8 va b s = Ret () ?s" using translate_umapped [OF Cons.prems(1)] by (simp add: store8_def)
  show ?case
  proof (cases "bs = []")
    case True
    then show ?thesis using st by (simp add: put_bytes_Cons fun_upd_def)
  next
    case False
    then have l: "length bs > 0" by simp
    moreover have "unat va mod 4096 + (length bs + 1) \<le> 4096" using Cons.prems(2) by simp
    ultimately have l: "length bs > 0" "unat va mod 4096 + 1 < 4096" by linarith+
    have o: "(va + 1) AND 0xFFF = (va AND 0xFFF) + 1" "unat (va + 1) = unat va + 1"
      using same_page_offset(2) [OF va, of 1] unat_add_small [OF va, of 1] l by simp_all
    have m: "unat (va + 1) mod 4096 = unat va mod 4096 + 1"
      using arg_cong [OF o(1), of unat] l(2) by (simp add: unat_offset unat_word_ariths o(2))
    have "umapped ?s va q" using Cons.prems in_page_offset [of va 0 q] l by (intro umapped_store) simp_all
    then have "umapped ?s (va + 1) q"
      using umapped_offset [of ?s va q 1] l by simp
    then show ?thesis using st Cons.IH [of ?s "va + 1"] Cons.prems(2) m o put_bytes_Cons [of bs "k_mem s" ?a b]
      by (simp add: add.assoc fun_upd_def)
  qed
qed

lemma store32_umapped:
  assumes "umapped s va q" "unat va mod 4096 \<le> 4092"
  shows "store32 va v s = Ret () (s\<lparr>k_mem := st32 (k_mem s) (q + (va AND 0xFFF)) v\<rparr>)"
  unfolding store32_def
  using store_bytes_umapped [OF assms(1), of "[ucast v, ucast (drop_bit 8 v), ucast (drop_bit 16 v), ucast (drop_bit 24 v)]"]
    assms(2) by (simp add: put_bytes_Cons st32_def add.assoc)

lemma load_bytes_umapped:
  assumes "umapped s va q" "unat va mod 4096 + n \<le> 4096"
  shows "load_bytes va n s = Ret (map (\<lambda>k. k_mem s (q + (va AND 0xFFF) + of_nat k)) [0..<n]) s"
  using assms
proof (induction n arbitrary: va)
  case (Suc n)
  have va: "va < KERNBASE" using Suc.prems by (simp add: umapped_def Let_def)
  have ld: "load8 va s = Ret (k_mem s (q + (va AND 0xFFF))) s"
    using translate_umapped [OF Suc.prems(1)] by (simp add: load8_def)
  have e: "map (\<lambda>k. f (a + of_nat k)) [0..<Suc n] = f a # map (\<lambda>k. f (a + 1 + of_nat k)) [0..<n]"
    for f :: "uint \<Rightarrow> uchar" and a
    by (simp add: upt_conv_Cons map_Suc_upt [symmetric] comp_def add.assoc del: upt_Suc)
  show ?case
  proof (cases "n = 0")
    case True
    then show ?thesis using ld by simp
  next
    case False
    then have l: "unat va mod 4096 + 1 < 4096" using Suc.prems(2) by linarith
    have o: "(va + 1) AND 0xFFF = (va AND 0xFFF) + 1" "unat (va + 1) = unat va + 1"
      using same_page_offset(2) [OF va, of 1] unat_add_small [OF va, of 1] l by simp_all
    have "umapped s (va + 1) q" using umapped_offset [OF Suc.prems(1), of 1] l by simp
    moreover have "unat (va + 1) mod 4096 + n \<le> 4096"
      using page_arith(2) [OF l] Suc.prems(2) by (simp add: o(2))
    ultimately show ?thesis using ld Suc.IH [of "va + 1"]
      by (simp add: o(1) e [of "k_mem s" "q + (va AND 0xFFF)", simplified add.assoc] add.assoc del: upt_Suc)
  qed
qed simp

lemma load32_umapped:
  assumes "umapped s va q" "unat va mod 4096 \<le> 4092"
  shows "load32 va s = Ret (ld32 (k_mem s) (q + (va AND 0xFFF))) s"
  using load_bytes_umapped [OF assms(1), of 4] assms(2) by (simp add: load32_def ld32_def upt_rec)

lemma st32_user_elsewhere:
  assumes "unat va mod 4096 \<le> 4092" "\<not> in_page q x"
  shows "st32 m (q + (va AND 0xFFF)) v x = m x"
  using assms in_page_offset [of va 0 q] in_page_offset [of va 1 q] in_page_offset [of va 2 q]
    in_page_offset [of va 3 q] by (intro st32_elsewhere) auto

lemma umapped_st32:
  assumes "umapped s va q" "unat va mod 4096 \<le> 4092" "c_cr3 (k_cpu t) = c_cr3 (k_cpu s)"
    and "k_mem t = st32 (k_mem s) (q + (va AND 0xFFF)) v"
  shows "umapped t va q"
proof (rule umapped_cong [OF assms(1,3)])
  note q = umappedD(3,2,5,4,6) [OF assms(1)]
  show "k_mem t x = k_mem s x" if "in_page (p2v (c_cr3 (k_cpu s))) x" for x
    using in_page_disjoint [OF q(1,2,3) that] assms(2,4) by (simp add: st32_user_elsewhere)
  show "k_mem t x = k_mem s x" if "in_page (pgtable (k_mem s) (p2v (c_cr3 (k_cpu s))) (PDX va)) x" for x
    using in_page_disjoint [OF q(1,4,5) that] assms(2,4) by (simp add: st32_user_elsewhere)
qed

lemma ld32_user_other:
  assumes "unat va mod 4096 \<le> 4092" "page_aligned q" "page_aligned y" "y \<noteq> q"
  shows "ld32 (st32 m (q + (va AND 0xFFF)) v) y = ld32 m y"
proof -
  have "ld32 (st32 m (q + (va AND 0xFFF)) v) (y + 4 * 0) = ld32 m (y + 4 * 0)"
  proof (rule ld32_entry_cong [OF assms(3)])
    fix x
    assume "in_page y x"
    then have "\<not> in_page q x" using in_page_disjoint [OF assms(2,3)] assms(4) by blast
    then show "st32 m (q + (va AND 0xFFF)) v x = m x" by (rule st32_user_elsewhere [OF assms(1)])
  qed simp
  then show ?thesis by simp
qed

end
