(* ===== verification/Threads.thy ===== *)
theory Threads
  imports Process Usermem
begin

text \<open>
  Threads from the point of view of their creator (\<^verbatim>\<open>proc.c\<close>, \<^verbatim>\<open>thread.c\<close>): the value a thread
  exits with reaches the one that joins it, and a join that fails.
\<close>

section \<open>Children of an exiting thread\<close>

text \<open>
  \<open>handed j ps qs\<close>: from \<open>ps\<close> to \<open>qs\<close> only children of entry \<open>j\<close> changed their parent, and only
  sleeping entries changed their state, to RUNNABLE.
\<close>

definition handed :: "nat \<Rightarrow> proc list \<Rightarrow> proc list \<Rightarrow> bool" where
  "handed j ps qs \<longleftrightarrow> length qs = length ps \<and> (\<forall>k<length ps. \<exists>x y. qs ! k = (ps ! k)\<lparr>p_parent := x, p_state := y\<rparr>
     \<and> (p_parent (ps ! k) \<noteq> Some j \<longrightarrow> x = p_parent (ps ! k))
     \<and> (y = p_state (ps ! k) \<or> p_state (ps ! k) = SLEEPING \<and> y = RUNNABLE))"

lemma handedD:
  assumes "handed j ps qs" "k < length ps"
  obtains x y where "qs ! k = (ps ! k)\<lparr>p_parent := x, p_state := y\<rparr>"
    "p_parent (ps ! k) \<noteq> Some j \<Longrightarrow> x = p_parent (ps ! k)"
    "y = p_state (ps ! k) \<or> p_state (ps ! k) = SLEEPING \<and> y = RUNNABLE"
  using assms unfolding handed_def by blast

lemma handed_refl: "handed j ps ps"
  unfolding handed_def
proof (intro conjI allI impI)
  fix k
  show "\<exists>x y. ps ! k = (ps ! k)\<lparr>p_parent := x, p_state := y\<rparr> \<and> (p_parent (ps ! k) \<noteq> Some j \<longrightarrow> x = p_parent (ps ! k))
      \<and> (y = p_state (ps ! k) \<or> p_state (ps ! k) = SLEEPING \<and> y = RUNNABLE)"
    by (rule exI [of _ "p_parent (ps ! k)"], rule exI [of _ "p_state (ps ! k)"]) simp
qed simp

lemma handed_trans:
  assumes "handed j ps qs" "handed j qs rs"
  shows "handed j ps rs"
  unfolding handed_def
proof (intro conjI allI impI)
  show "length rs = length ps" using assms by (simp add: handed_def)
  fix k
  assume k: "k < length ps"
  then have k': "k < length qs" using assms(1) by (simp add: handed_def)
  obtain x y where a: "qs ! k = (ps ! k)\<lparr>p_parent := x, p_state := y\<rparr>"
      "p_parent (ps ! k) \<noteq> Some j \<Longrightarrow> x = p_parent (ps ! k)"
      "y = p_state (ps ! k) \<or> p_state (ps ! k) = SLEEPING \<and> y = RUNNABLE"
    using handedD [OF assms(1) k] by metis
  obtain x' y' where b: "rs ! k = (qs ! k)\<lparr>p_parent := x', p_state := y'\<rparr>"
      "p_parent (qs ! k) \<noteq> Some j \<Longrightarrow> x' = p_parent (qs ! k)"
      "y' = p_state (qs ! k) \<or> p_state (qs ! k) = SLEEPING \<and> y' = RUNNABLE"
    using handedD [OF assms(2) k'] by metis
  show "\<exists>x y. rs ! k = (ps ! k)\<lparr>p_parent := x, p_state := y\<rparr> \<and> (p_parent (ps ! k) \<noteq> Some j \<longrightarrow> x = p_parent (ps ! k))
      \<and> (y = p_state (ps ! k) \<or> p_state (ps ! k) = SLEEPING \<and> y = RUNNABLE)"
  proof (intro exI conjI impI)
    show "rs ! k = (ps ! k)\<lparr>p_parent := x', p_state := y'\<rparr>" using a(1) b(1) by simp
    show "x' = p_parent (ps ! k)" if "p_parent (ps ! k) \<noteq> Some j" using a b that by simp
    show "y' = p_state (ps ! k) \<or> p_state (ps ! k) = SLEEPING \<and> y' = RUNNABLE" using a b by auto
  qed
qed

lemma handed_adopt:
  assumes "p_parent (ps ! k) = Some j"
  shows "handed j ps (upd_at k (\<lambda>p. p\<lparr>p_parent := x\<rparr>) ps)"
  unfolding handed_def
proof (intro conjI allI impI)
  fix l
  assume "l < length ps"
  then show "\<exists>x' y. upd_at k (\<lambda>p. p\<lparr>p_parent := x\<rparr>) ps ! l = (ps ! l)\<lparr>p_parent := x', p_state := y\<rparr>
      \<and> (p_parent (ps ! l) \<noteq> Some j \<longrightarrow> x' = p_parent (ps ! l))
      \<and> (y = p_state (ps ! l) \<or> p_state (ps ! l) = SLEEPING \<and> y = RUNNABLE)"
    using assms by (intro exI [of _ "if k = l then x else p_parent (ps ! l)"] exI [of _ "p_state (ps ! l)"])
      (auto simp: nth_upd_at)
qed simp

lemma handed_wakeup: "handed j ps (wakeup1_procs c ps)"
  unfolding handed_def
proof (intro conjI allI impI)
  show "length (wakeup1_procs c ps) = length ps" by (simp add: wakeup1_procs_def)
  fix l
  assume "l < length ps"
  then show "\<exists>x' y. wakeup1_procs c ps ! l = (ps ! l)\<lparr>p_parent := x', p_state := y\<rparr>
      \<and> (p_parent (ps ! l) \<noteq> Some j \<longrightarrow> x' = p_parent (ps ! l))
      \<and> (y = p_state (ps ! l) \<or> p_state (ps ! l) = SLEEPING \<and> y = RUNNABLE)"
    by (intro exI [of _ "p_parent (ps ! l)"] exI [of _ "p_state (wakeup1_procs c ps ! l)"])
      (auto simp: wakeup1_procs_def)
qed

lemma orphan_children_hands:
  "\<exists>qs. orphan_children j s = Ret () (s\<lparr>k_procs := qs\<rparr>) \<and> handed j (k_procs s) qs"
proof -
  let ?I = "\<lambda>k t. \<exists>qs. t = s\<lparr>k_procs := qs\<rparr> \<and> handed j (k_procs s) qs"
  have "\<exists>t. orphan_children j s = Ret () t \<and> ?I NPROC t"
    unfolding orphan_children_def
  proof (rule for_each_upto [where I = ?I])
    show "?I 0 s" by (rule exI [of _ "k_procs s"]) (simp add: handed_refl)
    fix k t
    assume "?I k t"
    then obtain qs where t: "t = s\<lparr>k_procs := qs\<rparr>" "handed j (k_procs s) qs" by blast
    show "\<exists>u. bnd (get_proc k) (\<lambda>p. if p_parent p = Some j then bnd (gets k_initproc) (\<lambda>init.
         andthen (upd_proc k (\<lambda>p. p\<lparr>p_parent := init\<rparr>))
         (if p_state p = ZOMBIE then wakeup1 (chan_of init) else ret ())) else ret ()) t = Ret () u \<and> ?I (Suc k) u"
    proof (cases "p_parent (qs ! k) = Some j")
      case True
      let ?rs = "upd_at k (\<lambda>p. p\<lparr>p_parent := k_initproc s\<rparr>) qs"
      have r: "handed j (k_procs s) ?rs" using handed_trans [OF t(2) handed_adopt [OF True]] .
      show ?thesis using True t r handed_trans [OF r handed_wakeup]
        by (cases "p_state (qs ! k) = ZOMBIE") (auto simp: wakeup1_def)
    next
      case False
      then show ?thesis using t by auto
    qed
  qed
  then show ?thesis by blast
qed

section \<open>Exiting\<close>

lemma exit_thread_switch:
  assumes "c_proc (k_cpu s) = Some j" "c_ncli (k_cpu s) = 0" "lock_avail PtableLk s"
    and "j < length (k_procs s)" "p_parent (k_procs s ! j) = Some i" "k_initproc s \<noteq> Some j"
  shows "\<exists>qs. exit_thread v s = Switch (entered PtableLk (s\<lparr>k_procs := upd_at j (\<lambda>p. p\<lparr>p_state := ZOMBIE\<rparr>) qs\<rparr>))
    \<and> handed j (wakeup1_procs (ChProc i) (upd_at j (\<lambda>p. p\<lparr>p_exit_status := v\<rparr>) (k_procs s))) qs"
proof -
  let ?ps = "wakeup1_procs (ChProc i) (upd_at j (\<lambda>p. p\<lparr>p_exit_status := v\<rparr>) (k_procs s))"
  let ?s = "entered PtableLk (s\<lparr>k_procs := ?ps\<rparr>)"
  obtain qs where o: "orphan_children j ?s = Ret () (?s\<lparr>k_procs := qs\<rparr>)" "handed j ?ps qs"
    using orphan_children_hands [of j ?s] by auto
  have l: "j < length qs" using o(2) assms(4) by (simp add: handed_def wakeup1_procs_def)
  have "sched (entered PtableLk (s\<lparr>k_procs := upd_at j (\<lambda>p. p\<lparr>p_state := ZOMBIE\<rparr>) qs\<rparr>))
      = Switch (entered PtableLk (s\<lparr>k_procs := upd_at j (\<lambda>p. p\<lparr>p_state := ZOMBIE\<rparr>) qs\<rparr>))"
    using assms l by (intro sched_switch [of _ j]) simp_all
  then show ?thesis using assms o
    by (auto simp: exit_thread_def wakeup1_def chan_of_def lock_avail_free)
qed

section \<open>Joining\<close>

definition joinable :: "nat \<Rightarrow> int \<Rightarrow> proc \<Rightarrow> bool" where
  "joinable i tid p \<longleftrightarrow> p_parent p = Some i \<and> p_tid p = tid \<and> p_is_thread p"

text \<open>
  \<open>stack_apart s k va q\<close>: the page \<open>k\<close> is neither the page \<open>q\<close> behind the user address \<open>va\<close> nor
  one of the two table pages through which it is found.
\<close>

definition stack_apart :: "kernel \<Rightarrow> uint \<Rightarrow> uint \<Rightarrow> uint \<Rightarrow> bool" where
  "stack_apart s k va q \<longleftrightarrow> k \<noteq> q \<and> k \<noteq> p2v (c_cr3 (k_cpu s)) \<and> k \<noteq> pgtable (k_mem s) (p2v (c_cr3 (k_cpu s))) (PDX va)"

lemma umapped_free:
  assumes "umapped s va q" "stack_apart s k va q" "page_aligned k" "c_cr3 (k_cpu t) = c_cr3 (k_cpu s)"
    and "k_mem t = st32 (fill (k_mem s) k 1 4096) k w"
  shows "umapped t va q"
proof -
  have e: "k_mem t x = k_mem s x" if "in_page r x" "page_aligned r" "k \<noteq> r" for x r
  proof -
    have n: "\<not> in_page k x" using in_page_disjoint [OF assms(3) that(2,3,1)] .
    then have "st32 (fill (k_mem s) k 1 4096) (k + 4 * 0) w x = fill (k_mem s) k 1 4096 x"
      by (intro st32_entry_elsewhere assms(3)) simp_all
    then show ?thesis using n by (simp add: assms(5) fill_def in_page_def)
  qed
  note k = assms(2) [unfolded stack_apart_def]
  show ?thesis
  proof (rule umapped_cong [OF assms(1,4)])
    show "k_mem t x = k_mem s x" if "in_page (p2v (c_cr3 (k_cpu s))) x" for x
      using e [OF that umappedD(2) [OF assms(1)]] k by blast
    show "k_mem t x = k_mem s x" if "in_page (pgtable (k_mem s) (p2v (c_cr3 (k_cpu s))) (PDX va)) x" for x
      using e [OF that umappedD(4) [OF assms(1)]] k by blast
  qed
qed

lemma wait_thread_loop_joins:
  assumes i: "c_proc (k_cpu u) = Some i" and lk: "lock_avail PtableLk u" and pool: "pool u xs"
    and j: "j < length (k_procs u)" "joinable i tid (k_procs u ! j)" "p_state (k_procs u ! j) = ZOMBIE"
    and first: "\<forall>l<j. \<not> (joinable i tid (k_procs u ! l) \<and> p_state (k_procs u ! l) = ZOMBIE)"
    and k: "page_ok u (p_kstack (k_procs u ! j))" "p_kstack (k_procs u ! j) \<notin> set xs"
    and rv: "umapped u rv q" "unat rv mod 4096 \<le> 4092" "q \<notin> set xs" "stack_apart u (p_kstack (k_procs u ! j)) rv q"
  shows "\<exists>w. wait_thread_loop tid rv (entered PtableLk u) = Ret tid w
    \<and> load32 rv w = Ret (p_exit_status (k_procs u ! j)) w
    \<and> p_state (k_procs w ! j) = UNUSED \<and> pool w (p_kstack (k_procs u ! j) # xs) \<and> lock_avail PtableLk w"
proof -
  let ?k = "p_kstack (k_procs u ! j)" and ?v = "p_exit_status (k_procs u ! j)"
  let ?a = "q + (rv AND 0xFFF)"
  let ?f = "\<lambda>p. p\<lparr>p_kstack := 0, p_state := UNUSED, p_pid := 0, p_parent := None,
             p_name := (p_name p)[0 := 0], p_killed := False, p_is_thread := False\<rparr>"
  have find: "find_idx (\<lambda>p. p_parent p = Some i \<and> p_tid p = tid \<and> p_is_thread p \<and> p_state p = ZOMBIE) (k_procs u) = Some j"
    using j first by (intro find_idx_SomeI) (auto simp: joinable_def)
  define u1 where "u1 = update_procs (upd_at i (\<lambda>p. p\<lparr>p_numOfThread := p_numOfThread p - 1\<rparr>)) u"
  have e1: "pool (entered PtableLk u1) xs" "page_ok (entered PtableLk u1) ?k"
    using pool k(1) by (simp_all add: u1_def pool_def page_ok_def)
  define m where "m = st32 (fill (k_mem u) ?k 1 4096) ?k (km_freelist (k_kmem u))"
  define u2 where "u2 = u1\<lparr>k_numfreepages := k_numfreepages u + 1, k_mem := m,
    k_kmem := (k_kmem u)\<lparr>km_freelist := ?k\<rparr>\<rparr>"
  have e2: "kfree ?k (entered PtableLk u1) = Ret () (entered PtableLk u2)" "pool (entered PtableLk u2) (?k # xs)"
    using pool_kfree [OF e1 k(2)] by (simp_all add: u2_def m_def u1_def)
  define u3 where "u3 = update_procs (upd_at j ?f) u2"
  have um: "umapped t rv q" if "c_cr3 (k_cpu t) = c_cr3 (k_cpu u)" "k_mem t = m" for t
    using umapped_free [OF rv(1,4) page_ok_aligned [OF k(1)], of t] that by (simp add: m_def)
  have e3: "store32 rv ?v (entered PtableLk u3) = Ret () (entered PtableLk (u3\<lparr>k_mem := st32 m ?a ?v\<rparr>))"
    using store32_umapped [OF um rv(2), of "entered PtableLk u3" ?v] by (simp add: u3_def u2_def u1_def)
  define w where "w = update_procs (upd_at j (\<lambda>p. p\<lparr>p_exit_status := 0\<rparr>)) (u3\<lparr>k_mem := st32 m ?a ?v\<rparr>)"
  have w: "u3\<lparr>k_mem := st32 m ?a ?v, k_procs := upd_at j (\<lambda>p. p\<lparr>p_exit_status := 0\<rparr>) (k_procs u3)\<rparr> = w"
    "k_mem w = st32 m ?a ?v" "c_cr3 (k_cpu w) = c_cr3 (k_cpu u)"
    by (simp_all add: w_def u3_def u2_def u1_def)
  have av: "lock_avail PtableLk w" using lk by (simp add: w_def u3_def u2_def u1_def)
  have "wait_thread_loop tid rv (entered PtableLk u) = Ret tid w"
    using i find e2 e3 av j(2)
    by (simp add: wait_thread_loop_def u1_def [symmetric] u3_def [symmetric] w(1) joinable_def lock_avail_free)
  moreover have "load32 rv w = Ret ?v w"
  proof -
    have "umapped (u\<lparr>k_mem := m\<rparr>) rv q" by (rule um) simp_all
    then have "umapped w rv q" using umapped_st32 [of "u\<lparr>k_mem := m\<rparr>" rv q w ?v] rv(2) w(2,3) by simp
    then show ?thesis using load32_umapped [of w rv q] rv(2) w(2) by simp
  qed
  moreover have "p_state (k_procs w ! j) = UNUSED"
    using j(1) by (simp add: w_def u3_def u2_def u1_def)
  moreover have "pool w (?k # xs)"
  proof -
    have "pool (u2\<lparr>k_mem := st32 m ?a ?v\<rparr>) (?k # xs)"
    proof (rule pool_mem)
      show "pool u2 (?k # xs)" using e2(2) pool by (simp add: pool_def page_ok_def u2_def u1_def)
      fix y
      assume "y \<in> set (?k # xs)"
      then have "page_aligned y" "y \<noteq> q" using k pool rv(3,4) by (auto simp: pool_def stack_apart_def intro: page_ok_aligned)
      then show "ld32 (st32 m ?a ?v) y = ld32 (k_mem u2) y"
        using rv(2) umappedD(3) [OF rv(1)] by (simp add: ld32_user_other u2_def)
    qed
    then show ?thesis by (simp add: w_def u3_def)
  qed
  ultimately show ?thesis using av by blast
qed

section \<open>From exit to join\<close>

text \<open>The state after \<open>t\<close> in which the scheduler lets entry \<open>i\<close> go on, on CPU \<open>c\<close>.\<close>

definition resumed :: "nat \<Rightarrow> cpu \<Rightarrow> kernel \<Rightarrow> kernel" where
  "resumed i c t = t\<lparr>k_cpu := c, k_procs := upd_at i (\<lambda>p. p\<lparr>p_state := RUNNING, p_chan := NoChan\<rparr>) (k_procs t)\<rparr>"

lemma exited_entries:
  assumes h: "handed j (wakeup1_procs cn (upd_at j (\<lambda>p. p\<lparr>p_exit_status := v\<rparr>) ps)) qs"
    and ij: "i \<noteq> j" "j < length ps" and p: "joinable i tid (ps ! j)"
    and only: "\<forall>l<length ps. l \<noteq> j \<longrightarrow> \<not> joinable i tid (ps ! l) \<and> \<not> joinable j tid (ps ! l)"
  shows "length qs = length ps" "joinable i tid (qs ! j)" "p_exit_status (qs ! j) = v"
    "p_kstack (qs ! j) = p_kstack (ps ! j)"
    "l < length ps \<Longrightarrow> l \<noteq> j \<Longrightarrow> \<not> joinable i tid (qs ! l)"
proof -
  let ?ps = "wakeup1_procs cn (upd_at j (\<lambda>p. p\<lparr>p_exit_status := v\<rparr>) ps)"
  have len: "length ?ps = length ps" by (simp add: wakeup1_procs_def)
  show "length qs = length ps" using h len by (simp add: handed_def)
  obtain x y where q: "qs ! j = (?ps ! j)\<lparr>p_parent := x, p_state := y\<rparr>"
      "p_parent (?ps ! j) \<noteq> Some j \<Longrightarrow> x = p_parent (?ps ! j)"
    using handedD [OF h, of j] ij len by metis
  have "p_parent (?ps ! j) = Some i" "p_tid (?ps ! j) = tid" "p_is_thread (?ps ! j)"
      "p_exit_status (?ps ! j) = v" "p_kstack (?ps ! j) = p_kstack (ps ! j)"
    using p ij by (auto simp: wakeup1_procs_def joinable_def)
  then show "joinable i tid (qs ! j)" "p_exit_status (qs ! j) = v" "p_kstack (qs ! j) = p_kstack (ps ! j)"
    using q ij(1) by (simp_all add: joinable_def)
  show "\<not> joinable i tid (qs ! l)" if l: "l < length ps" "l \<noteq> j"
  proof -
    obtain x y where q: "qs ! l = (?ps ! l)\<lparr>p_parent := x, p_state := y\<rparr>"
        "p_parent (?ps ! l) \<noteq> Some j \<Longrightarrow> x = p_parent (?ps ! l)"
      using handedD [OF h, of l] l len by metis
    have "p_parent (?ps ! l) = p_parent (ps ! l)" "p_tid (?ps ! l) = p_tid (ps ! l)"
        "p_is_thread (?ps ! l) = p_is_thread (ps ! l)"
      using l by (auto simp: wakeup1_procs_def nth_upd_at)
    then show ?thesis using q only l by (auto simp: joinable_def)
  qed
qed

text \<open>
  C8: A thread's exit value reaches the one that joins it. When a thread calls \<^verbatim>\<open>exit_thread(v)\<close>,
  it gives up the CPU with its entry a zombie and, if its creator sleeps in \<^verbatim>\<open>thread_join\<close>, with
  the creator made runnable; when the creator goes on, its wait returns the thread's id, the
  word at the user address it passed reads \<open>v\<close>, and the thread's entry and kernel stack are
  free again.
\<close>

theorem thread_exit_join:
  assumes thread: "c_proc (k_cpu s) = Some j" "c_ncli (k_cpu s) = 0" "lock_avail PtableLk s" "j < length (k_procs s)"
      "joinable i tid (k_procs s ! j)" "k_initproc s \<noteq> Some j"
    and only: "\<forall>l<length (k_procs s). l \<noteq> j \<longrightarrow> \<not> joinable i tid (k_procs s ! l) \<and> \<not> joinable j tid (k_procs s ! l)"
    and joiner: "i < length (k_procs s)" "i \<noteq> j" "c_proc c = Some i" "cpu_ok c"
    and memory: "pool s xs" "page_ok s k" "k \<notin> set xs" "k = p_kstack (k_procs s ! j)"
      "umapped (s\<lparr>k_cpu := c\<rparr>) rv q" "unat rv mod 4096 \<le> 4092" "q \<notin> set xs" "stack_apart (s\<lparr>k_cpu := c\<rparr>) k rv q"
  shows "\<exists>t w. exit_thread v s = Switch (entered PtableLk t)
    \<and> (p_state (k_procs s ! i) = SLEEPING \<and> p_chan (k_procs s ! i) = ChProc i \<longrightarrow> p_state (k_procs t ! i) = RUNNABLE)
    \<and> wait_thread_loop tid rv (entered PtableLk (resumed i c t)) = Ret tid w
    \<and> load32 rv w = Ret v w \<and> p_state (k_procs w ! j) = UNUSED \<and> pool w (k # xs)"
proof -
  let ?ps = "wakeup1_procs (ChProc i) (upd_at j (\<lambda>p. p\<lparr>p_exit_status := v\<rparr>) (k_procs s))"
  have par: "p_parent (k_procs s ! j) = Some i" using thread(5) by (simp add: joinable_def)
  obtain qs where x: "exit_thread v s = Switch (entered PtableLk (s\<lparr>k_procs := upd_at j (\<lambda>p. p\<lparr>p_state := ZOMBIE\<rparr>) qs\<rparr>))"
      "handed j ?ps qs"
    using exit_thread_switch [OF thread(1-4) par thread(6)] by blast
  note q = exited_entries [OF x(2) joiner(2) thread(4,5) only]
  define t where "t = s\<lparr>k_procs := upd_at j (\<lambda>p. p\<lparr>p_state := ZOMBIE\<rparr>) qs\<rparr>"
  have wake: "p_state (k_procs t ! i) = RUNNABLE"
    if "p_state (k_procs s ! i) = SLEEPING" "p_chan (k_procs s ! i) = ChProc i"
  proof -
    have r: "p_state (?ps ! i) = RUNNABLE" "i < length ?ps"
      using that joiner by (simp_all add: wakeup1_procs_def nth_upd_at)
    obtain x' y where "qs ! i = (?ps ! i)\<lparr>p_parent := x', p_state := y\<rparr>"
        "y = p_state (?ps ! i) \<or> p_state (?ps ! i) = SLEEPING \<and> y = RUNNABLE"
      by (rule handedD [OF x(2) r(2)])
    then have "p_state (qs ! i) = RUNNABLE" using r(1) by auto
    then show ?thesis using joiner(2) by (simp add: t_def)
  qed
  let ?u = "resumed i c t"
  have u: "k_procs ?u ! j = (qs ! j)\<lparr>p_state := ZOMBIE\<rparr>"
    using thread(4) joiner(2) q(1) by (simp add: resumed_def t_def)
  have "\<exists>w. wait_thread_loop tid rv (entered PtableLk ?u) = Ret tid w
    \<and> load32 rv w = Ret (p_exit_status (k_procs ?u ! j)) w
    \<and> p_state (k_procs w ! j) = UNUSED \<and> pool w (p_kstack (k_procs ?u ! j) # xs) \<and> lock_avail PtableLk w"
  proof (rule wait_thread_loop_joins)
    show "c_proc (k_cpu ?u) = Some i" using joiner by (simp add: resumed_def)
    show "lock_avail PtableLk ?u" "pool ?u xs"
      using thread(3) memory(1) joiner(4)
      by (simp_all add: resumed_def t_def lock_avail_def lock_free_def pool_def page_ok_def)
    show "j < length (k_procs ?u)" using thread(4) q(1) by (simp add: resumed_def t_def)
    show "joinable i tid (k_procs ?u ! j)" "p_state (k_procs ?u ! j) = ZOMBIE"
      using q(2) by (simp_all add: u joinable_def)
    show "\<forall>l<j. \<not> (joinable i tid (k_procs ?u ! l) \<and> p_state (k_procs ?u ! l) = ZOMBIE)"
      using q(1,5) thread(4) by (auto simp: resumed_def t_def nth_upd_at joinable_def)
    show "page_ok ?u (p_kstack (k_procs ?u ! j))" "p_kstack (k_procs ?u ! j) \<notin> set xs"
      "stack_apart ?u (p_kstack (k_procs ?u ! j)) rv q"
      using memory(2,3,4,8) q(4) by (simp_all add: u) (simp_all add: resumed_def t_def page_ok_def stack_apart_def)
    show "umapped ?u rv q" using memory(5) by (simp add: resumed_def t_def umapped_def Let_def)
  qed (use memory in simp_all)
  then show ?thesis using x(1) wake q(3,4) memory(4) unfolding t_def [symmetric] by (auto simp: u)
qed

section \<open>A join that fails\<close>

text \<open>
  C26: A failed \<^verbatim>\<open>thread_join\<close> leaves the lock of \<^verbatim>\<open>thread.c\<close> taken. When the caller has no thread with the
  given id, the call returns -1 without \<^verbatim>\<open>lock_release\<close>; from then on every \<^verbatim>\<open>thread_join\<close>, by
  any process and for any thread, spins forever.
\<close>

theorem failed_join_blocks_joins:
  assumes "c_proc (k_cpu s) = Some i" "lock_avail PtableLk s" "k_thrlock s \<noteq> 0"
    and "\<forall>p\<in>set (k_procs s). \<not> joinable i tid p"
  shows "\<exists>t. thread_join tid rv s = Ret (- 1) t \<and> (\<forall>tid' rv'. thread_join tid' rv' t = Spin)"
proof -
  let ?t = "s\<lparr>k_thrlock := 0\<rparr>"
  have "find_idx (\<lambda>p. p_parent p = Some i \<and> p_tid p = tid \<and> p_is_thread p \<and> p_state p = ZOMBIE) (k_procs s) = None"
    using assms(4) by (auto simp: find_idx_None_iff joinable_def)
  then have "wait_thread_loop tid rv (entered PtableLk ?t) = Ret (- 1) ?t"
    using assms(1,2,4) by (simp add: wait_thread_loop_def joinable_def lock_avail_free)
  then have "wait_thread tid rv ?t = Ret (- 1) ?t"
    using assms(2) by (simp add: wait_thread_def lock_avail_free)
  then have "thread_join tid rv s = Ret (- 1) ?t"
    using assms(3) by (simp add: thread_join_def lock_acquire_def)
  moreover have "thread_join tid' rv' ?t = Spin" for tid' rv'
    by (simp add: thread_join_def lock_acquire_def)
  ultimately show ?thesis by blast
qed

theorem failed_join_blocks_joins_witness:
  "\<exists>t. thread_join 3 0x1000 (boot\<lparr>k_cpu := (k_cpu boot)\<lparr>c_proc := Some 0\<rparr>\<rparr>) = Ret (- 1) t \<and> thread_join 1 0x2000 t = Spin"
  using failed_join_blocks_joins [of "boot\<lparr>k_cpu := (k_cpu boot)\<lparr>c_proc := Some 0\<rparr>\<rparr>" 0 3 "0x1000"]
  by (auto simp: boot_def lock_avail_def cpu_ok_def lock_free_def joinable_def proc0_def)

section \<open>An example\<close>

text \<open>
  Entry 1 is a thread of entry 0, which sleeps in \<^verbatim>\<open>thread_join\<close>. The directory is at 0x80400000,
  the page table at 0x80401000, the first user page at 0x80402000, the thread's stack at
  0x80403000.
\<close>

definition join_start :: kernel where
  "join_start = boot\<lparr>k_cpu := (k_cpu boot)\<lparr>c_proc := Some 1\<rparr>,
     k_procs := (k_procs boot)[0 := proc0\<lparr>p_state := SLEEPING, p_chan := ChProc 0\<rparr>,
       1 := proc0\<lparr>p_state := RUNNING, p_parent := Some 0, p_is_thread := True, p_tid := 1, p_kstack := 0x80403000\<rparr>],
     k_mem := st32 (st32 (\<lambda>_. 0) 0x80400000 0x00401007) 0x80401000 0x00402007\<rparr>"

definition join_cpu :: cpu where
  "join_cpu = (k_cpu boot)\<lparr>c_proc := Some 0, c_cr3 := 0x00400000\<rparr>"

lemma join_start_memory:
  "umapped (join_start\<lparr>k_cpu := join_cpu\<rparr>) 16 0x80402000" "stack_apart (join_start\<lparr>k_cpu := join_cpu\<rparr>) 0x80403000 16 0x80402000"
  by (simp_all add: umapped_def stack_apart_def join_start_def join_cpu_def pde_def pte_def pgtable_def present_def
      page_aligned_def p2v_def KERNBASE_def PGSIZE_def PDX_def PTX_def PTE_ADDR_def PTE_P_def PTE_W_def
      ld32_def st32_def Let_def)

lemma join_start_procs:
  "length (k_procs join_start) = 64" "k_procs join_start ! 0 = proc0\<lparr>p_state := SLEEPING, p_chan := ChProc 0\<rparr>"
  "k_procs join_start ! 1 = proc0\<lparr>p_state := RUNNING, p_parent := Some 0, p_is_thread := True, p_tid := 1, p_kstack := 0x80403000\<rparr>"
  "l < 64 \<Longrightarrow> l \<noteq> 1 \<Longrightarrow> \<not> p_is_thread (k_procs join_start ! l)"
  by (simp_all add: join_start_def boot_def NPROC_def nth_list_update proc0_def)

theorem thread_exit_join_witness:
  "\<exists>t w. exit_thread 42 join_start = Switch (entered PtableLk t) \<and> p_state (k_procs t ! 0) = RUNNABLE
    \<and> wait_thread_loop 1 16 (entered PtableLk (resumed 0 join_cpu t)) = Ret 1 w \<and> load32 16 w = Ret 42 w"
proof -
  have l: "lock_avail l join_start" "c_proc (k_cpu join_start) = Some 1" "c_ncli (k_cpu join_start) = 0"
      "k_initproc join_start = None" "k_end join_start = 0x80116560" "km_freelist (k_kmem join_start) = 0" for l
    by (simp_all add: join_start_def boot_def lock_avail_def lock_free_def cpu_ok_def)
  have c: "c_proc join_cpu = Some 0" "cpu_ok join_cpu" by (simp_all add: join_cpu_def boot_def cpu_ok_def)
  have p: "pool join_start []" "page_ok join_start 0x80403000"
    using l by (simp_all add: pool_def page_ok_def v2p_def layout_defs)
  show ?thesis
    using thread_exit_join [of join_start 1 0 1 join_cpu "[]" "0x80403000" 16 "0x80402000" 42]
      l c p join_start_memory join_start_procs by (auto simp: joinable_def proc0_def)
qed

end
