(* ===== verification/Arguments.thy ===== *)
theory Arguments
  imports Syscall Threads
begin

text \<open>
  What a system call can read of its caller's memory: the argument fetchers of \<^verbatim>\<open>syscall.c\<close>
  accept a pointer exactly when what it points to lies inside the process.
\<close>

lemma proc_sz_run: "c_proc (k_cpu s) = Some i \<Longrightarrow> proc_sz s = Ret (p_sz (k_procs s ! i)) s"
  by (simp add: proc_sz_def)

lemma load8_state: "load8 a s = Ret b t \<Longrightarrow> t = s"
  by (simp add: load8_def split: option.splits)

lemma load_bytes_state: "load_bytes a n s = Ret bs t \<Longrightarrow> t = s"
  by (induction n arbitrary: a bs t) (auto simp: bnd_eq_Ret_iff dest: load8_state)

lemma load32_state: "load32 a s = Ret v t \<Longrightarrow> t = s"
  by (auto simp: load32_def bnd_eq_Ret_iff dest: load_bytes_state)

text \<open>A sum that stays below the kernel does not wrap around.\<close>

lemma unat_add_below:
  assumes "a < sz" "sz \<le> KERNBASE" "n < 2 ^ 31"
  shows "unat (a + of_nat n) = unat a + n"
proof -
  have "unat a < 2 ^ 31" using assms(1,2) by (simp add: word_less_nat_alt word_le_nat_alt KERNBASE_def)
  then show ?thesis using assms(3) by (simp add: unat_word_ariths unat_of_nat)
qed

section \<open>Words\<close>

lemma fetchint_inside:
  assumes "c_proc (k_cpu s) = Some i" "p_sz (k_procs s ! i) \<le> KERNBASE"
  shows "fetchint a s = Ret (Some v) t \<longleftrightarrow>
    t = s \<and> unat a + 4 \<le> unat (p_sz (k_procs s ! i)) \<and> load32 a s = Ret v s"
proof -
  let ?sz = "p_sz (k_procs s ! i)"
  have c: "\<not> (a \<ge> ?sz \<or> a + 4 > ?sz) \<longleftrightarrow> unat a + 4 \<le> unat ?sz"
    using unat_add_below [OF _ assms(2), of a 4] by (auto simp: word_less_nat_alt word_le_nat_alt)
  show ?thesis
  proof (cases "a \<ge> ?sz \<or> a + 4 > ?sz")
    case True
    then show ?thesis using c by (auto simp: fetchint_def proc_sz_run [OF assms(1)])
  next
    case False
    then have "fetchint a s = bnd (load32 a) (\<lambda>v. ret (Some v)) s"
      by (simp add: fetchint_def proc_sz_run [OF assms(1)])
    then show ?thesis using c False by (auto simp: bnd_eq_Ret_iff dest: load32_state)
  qed
qed

section \<open>Strings\<close>

text \<open>The bytes of a string in memory, before its terminating zero.\<close>

definition user_string :: "kernel \<Rightarrow> uint \<Rightarrow> uchar list \<Rightarrow> bool" where
  "user_string s a bs \<longleftrightarrow> 0 \<notin> set bs \<and> (\<forall>k<length bs. load8 (a + of_nat k) s = Ret (bs ! k) s)
     \<and> load8 (a + of_nat (length bs)) s = Ret 0 s"

lemma user_string_Cons:
  "user_string s a (c # bs) \<longleftrightarrow> c \<noteq> 0 \<and> load8 a s = Ret c s \<and> user_string s (a + 1) bs"
  by (auto simp: user_string_def less_Suc_eq_0_disj add.assoc)

lemma user_string_Nil: "user_string s a [] \<longleftrightarrow> load8 a s = Ret 0 s"
  by (simp add: user_string_def)

lemma fetchstr_loop_iff:
  assumes "sz \<le> KERNBASE"
  shows "unat sz < unat x + n \<Longrightarrow> loop n (fetchstr_round sz) (x, acc) s = Ret (Some bs) t \<longleftrightarrow>
    t = s \<and> (\<exists>cs. bs = acc @ cs \<and> user_string s x cs \<and> unat x + length cs < unat sz)"
proof (induction n arbitrary: x acc)
  case 0
  then show ?case by auto
next
  case (Suc n)
  show ?case
  proof (cases "x < sz")
    case False
    then have "\<not> unat x < unat sz" by (simp add: word_less_nat_alt)
    then show ?thesis using False by (auto simp: fetchstr_round_def)
  next
    case True
    have x1: "unat (x + 1) = unat x + 1" using unat_add_below [OF True assms, of 1] by simp
    show ?thesis
    proof (cases "load8 x s")
      case (Ret c s')
      then have s': "s' = s" by (rule load8_state)
      show ?thesis
      proof (cases "c = 0")
        case True
        then have "\<not> user_string s x (b # cs)" for b cs using Ret s' by (simp add: user_string_Cons)
        then have "(\<exists>cs. bs = acc @ cs \<and> user_string s x cs \<and> unat x + length cs < unat sz) \<longleftrightarrow> bs = acc"
          using Ret s' True \<open>x < sz\<close> by (metis append_Nil2 list.exhaust list.size(3) add_0_right user_string_Nil word_less_nat_alt)
        then show ?thesis using Ret s' True \<open>x < sz\<close> by (auto simp: fetchstr_round_def)
      next
        case False
        have "loop (Suc n) (fetchstr_round sz) (x, acc) s = loop n (fetchstr_round sz) (x + 1, acc @ [c]) s"
          using Ret s' False \<open>x < sz\<close> by (simp add: fetchstr_round_def)
        moreover have "unat sz < unat (x + 1) + n" using Suc.prems x1 by simp
        ultimately have "loop (Suc n) (fetchstr_round sz) (x, acc) s = Ret (Some bs) t \<longleftrightarrow>
          t = s \<and> (\<exists>cs. bs = (acc @ [c]) @ cs \<and> user_string s (x + 1) cs \<and> unat (x + 1) + length cs < unat sz)"
          using Suc.IH by simp
        also have "\<dots> \<longleftrightarrow> t = s \<and> (\<exists>cs. bs = acc @ (c # cs) \<and> user_string s x (c # cs) \<and> unat x + length (c # cs) < unat sz)"
          using Ret s' False x1 by (simp add: user_string_Cons)
        also have "\<dots> \<longleftrightarrow> t = s \<and> (\<exists>cs. bs = acc @ cs \<and> user_string s x cs \<and> unat x + length cs < unat sz)"
        proof -
          have "\<exists>ds. cs = c # ds" if "user_string s x cs" for cs
            using that Ret s' False by (cases cs) (auto simp: user_string_Cons user_string_Nil)
          then show ?thesis by blast
        qed
        finally show ?thesis .
      qed
    next
      case (Panic e)
      then have "\<not> user_string s x cs" for cs by (cases cs) (simp_all add: user_string_Cons user_string_Nil)
      then show ?thesis using Panic True by (simp add: fetchstr_round_def)
    qed (simp_all add: load8_def split: option.splits)
  qed
qed

lemma fetchstr_inside:
  assumes "c_proc (k_cpu s) = Some i" "p_sz (k_procs s ! i) \<le> KERNBASE"
  shows "fetchstr a s = Ret (Some bs) t \<longleftrightarrow>
    t = s \<and> unat a + length bs < unat (p_sz (k_procs s ! i)) \<and> user_string s a bs"
proof -
  let ?sz = "p_sz (k_procs s ! i)"
  show ?thesis
  proof (cases "a \<ge> ?sz")
    case True
    then have "unat ?sz \<le> unat a" by (simp add: word_le_nat_alt)
    then show ?thesis using True by (auto simp: fetchstr_def proc_sz_run [OF assms(1)])
  next
    case False
    then have "unat (?sz - a) = unat ?sz - unat a" by (simp add: unat_sub)
    then have "unat ?sz < unat a + Suc (unat (?sz - a))" by simp
    then have "fetchstr a s = Ret (Some bs) t \<longleftrightarrow>
        t = s \<and> (\<exists>cs. bs = [] @ cs \<and> user_string s a cs \<and> unat a + length cs < unat ?sz)"
      using fetchstr_loop_iff [OF assms(2)] False by (simp add: fetchstr_def proc_sz_run [OF assms(1)] del: loop.simps)
    then show ?thesis by auto
  qed
qed

section \<open>Buffers\<close>

lemma argint_run:
  "c_proc (k_cpu s) = Some i \<Longrightarrow> argint n s = fetchint (tf_esp (p_tf (k_procs s ! i)) + 4 + 4 * of_nat n) s"
  by (simp add: argint_def)

lemma argptr_inside:
  assumes "c_proc (k_cpu s) = Some i" "p_sz (k_procs s ! i) \<le> KERNBASE" "0 \<le> k" "k < 2 ^ 31"
  shows "argptr n k s = Ret (Some p) t \<longleftrightarrow> t = s \<and> argint n s = Ret (Some p) s
    \<and> p < p_sz (k_procs s ! i) \<and> unat p + nat k \<le> unat (p_sz (k_procs s ! i))"
proof -
  let ?sz = "p_sz (k_procs s ! i)"
  have st: "argint n s = Ret (Some x) u \<Longrightarrow> u = s" for x u
    using fetchint_inside [OF assms(1,2)] by (simp add: argint_run [OF assms(1)])
  have "nat k < 2 ^ 31" using assms(3,4) by simp
  then have k: "x < ?sz \<Longrightarrow> unat (x + of_int k) = unat x + nat k" for x
    using unat_add_below [OF _ assms(2), of x "nat k"] assms(3) by simp
  have c: "\<not> (x \<ge> ?sz \<or> x + of_int k > ?sz) \<longleftrightarrow> x < ?sz \<and> unat x + nat k \<le> unat ?sz" for x
    using k [of x] by (auto simp: word_less_nat_alt word_le_nat_alt not_le)
  show ?thesis
  proof (cases "\<exists>x. argint n s = Ret (Some x) s")
    case True
    then obtain x where x: "argint n s = Ret (Some x) s" by blast
    then have "argptr n k s = Ret (if x \<ge> ?sz \<or> x + of_int k > ?sz then None else Some x) s"
      by (simp add: argptr_def proc_sz_run [OF assms(1)])
    then show ?thesis using x c [of x] by auto
  next
    case False
    then have "argint n s \<noteq> Ret (Some x) u" for x u using st by blast
    then have "argptr n k s \<noteq> Ret (Some p) t"
      by (cases "argint n s") (auto simp: argptr_def bnd_def split: option.splits)
    then show ?thesis using False by blast
  qed
qed

text \<open>
  C16: System calls read their arguments from inside the caller. For a process below the
  kernel, \<^verbatim>\<open>fetchint\<close> accepts an address exactly when the word there lies inside the process,
  \<^verbatim>\<open>fetchstr\<close> exactly when a zero-terminated string starts there that ends inside the process, and
  \<^verbatim>\<open>argptr\<close> exactly when the argument is the address of a buffer of the given size inside the
  process; each returns what is there and changes nothing. In particular no address near the
  end of the address space passes by wrapping around.
\<close>

theorem arguments_inside_process:
  assumes "c_proc (k_cpu s) = Some i" and "p_sz (k_procs s ! i) \<le> KERNBASE" and "0 \<le> k" "k < 2 ^ 31"
  shows "(fetchint a s = Ret (Some v) t \<longleftrightarrow>
      t = s \<and> unat a + 4 \<le> unat (p_sz (k_procs s ! i)) \<and> load32 a s = Ret v s)
    \<and> (fetchstr a s = Ret (Some bs) t \<longleftrightarrow>
      t = s \<and> unat a + length bs < unat (p_sz (k_procs s ! i)) \<and> user_string s a bs)
    \<and> (argptr n k s = Ret (Some p) t \<longleftrightarrow> t = s \<and> argint n s = Ret (Some p) s
      \<and> p < p_sz (k_procs s ! i) \<and> unat p + nat k \<le> unat (p_sz (k_procs s ! i)))"
  using fetchint_inside [OF assms(1,2)] fetchstr_inside [OF assms(1,2)] argptr_inside [OF assms] by blast

text \<open>A process of one page, with the string ``hi'' at address 16 and its address on the stack.\<close>

definition arg_start :: kernel where
  "arg_start = join_start\<lparr>k_cpu := join_cpu,
     k_procs := (k_procs boot)[0 := proc0\<lparr>p_sz := 4096, p_state := RUNNING\<rparr>],
     k_mem := st32 (st32 (k_mem join_start) 0x80402010 0x00006968) 0x80402004 16\<rparr>"

lemma arg_start_umapped: "umapped arg_start 16 0x80402000" "umapped arg_start 4 0x80402000"
  by (simp_all add: umapped_def arg_start_def join_start_def join_cpu_def pde_def pte_def pgtable_def present_def
      page_aligned_def p2v_def KERNBASE_def PGSIZE_def PDX_def PTX_def PTE_ADDR_def PTE_P_def PTE_W_def
      ld32_def st32_def Let_def)

lemma arg_start_string: "user_string arg_start 16 [0x68, 0x69]"
proof -
  have b: "load8 (16 + of_nat k) arg_start = Ret (k_mem arg_start (0x80402010 + of_nat k)) arg_start" if "k < 3" for k
    using translate_umapped [OF umapped_offset [OF arg_start_umapped(1)], of k False] that
      same_page_offset(2) [of 16 k]
    by (simp add: load8_def KERNBASE_def)
  have "k_mem arg_start 0x80402010 = 0x68" "k_mem arg_start 0x80402011 = 0x69" "k_mem arg_start 0x80402012 = 0"
    by (simp_all add: arg_start_def join_start_def st32_def)
  then show ?thesis using b [of 0] b [of 1] b [of 2] by (simp add: user_string_def less_Suc_eq nth_Cons')
qed

theorem arguments_inside_process_witness:
  "fetchstr 16 arg_start = Ret (Some [0x68, 0x69]) arg_start
   \<and> argptr 0 3 arg_start = Ret (Some 16) arg_start \<and> argptr 0 5000 arg_start \<noteq> Ret (Some 16) arg_start"
proof -
  have p: "c_proc (k_cpu arg_start) = Some 0" "p_sz (k_procs arg_start ! 0) = 4096" "tf_esp (p_tf (k_procs arg_start ! 0)) = 0"
    by (simp_all add: arg_start_def join_cpu_def boot_def NPROC_def proc0_def tf0_def)
  have "load32 4 arg_start = Ret 16 arg_start"
    using load32_umapped [OF arg_start_umapped(2)] by (simp add: arg_start_def)
  then have a: "argint 0 arg_start = Ret (Some 16) arg_start"
    using arguments_inside_process [OF p(1), of 0 4 16 arg_start] p by (simp add: argint_run KERNBASE_def)
  show ?thesis
    using arguments_inside_process [OF p(1), of 3 16 _ arg_start "[0x68, 0x69]" 0 16]
      arguments_inside_process [OF p(1), of 5000 16 _ arg_start "[0x68, 0x69]" 0 16] arg_start_string a p
    by (simp add: KERNBASE_def)
qed

end
