(* ===== verification/Userio.thy ===== *)
theory Userio
  imports File Usermem
begin

text \<open>
  Reading into a buffer of the running process: the bytes that \<^verbatim>\<open>sys_read\<close> hands out arrive at the
  user addresses of the buffer, also across page boundaries.
\<close>

unbundle bit_operations_syntax

section \<open>A buffer of the process\<close>

text \<open>
  The \<open>n\<close> bytes at user address \<open>a\<close> are mapped writable: the page of each is backed by a frame
  (\<open>f\<close> gives it), different pages by different frames, and none of these frames is a page of the table
  through which the buffer is found.
\<close>

definition user_frames :: "kernel \<Rightarrow> uint \<Rightarrow> nat \<Rightarrow> (uint \<Rightarrow> uint) \<Rightarrow> bool" where
  "user_frames s a n f \<longleftrightarrow> unat a + n \<le> unat KERNBASE
     \<and> inj_on f ((\<lambda>k. PGROUNDDOWN (a + of_nat k)) ` {..<n})
     \<and> (\<forall>k<n. umapped s (a + of_nat k) (f (PGROUNDDOWN (a + of_nat k)))
         \<and> (\<forall>j<n. f (PGROUNDDOWN (a + of_nat k)) \<noteq> pgtable (k_mem s) (p2v (c_cr3 (k_cpu s))) (PDX (a + of_nat j))))"

definition user_buffer :: "kernel \<Rightarrow> uint \<Rightarrow> nat \<Rightarrow> bool" where
  "user_buffer s a n \<longleftrightarrow> (\<exists>f. user_frames s a n f)"

text \<open>Where byte \<open>k\<close> of the buffer is in memory.\<close>

definition user_byte :: "uint \<Rightarrow> (uint \<Rightarrow> uint) \<Rightarrow> nat \<Rightarrow> uint" where
  "user_byte a f k = f (PGROUNDDOWN (a + of_nat k)) + ((a + of_nat k) AND 0xFFF)"

text \<open>Memory when \<open>bs\<close> has been stored at the front of the buffer, and nothing else changed.\<close>

definition user_filled :: "uint \<Rightarrow> (uint \<Rightarrow> uint) \<Rightarrow> memory \<Rightarrow> uchar list \<Rightarrow> memory \<Rightarrow> bool" where
  "user_filled a f m0 bs m \<longleftrightarrow> (\<forall>k<length bs. m (user_byte a f k) = bs ! k)
     \<and> (\<forall>x. x \<notin> user_byte a f ` {..<length bs} \<longrightarrow> m x = m0 x)"

lemma user_byte_page: "in_page (f (PGROUNDDOWN (a + of_nat k))) (user_byte a f k)"
  using in_page_offset [of "a + of_nat k" 0] by (simp add: user_byte_def)

lemma user_frames_addr:
  assumes "user_frames s a n f" "k < n"
  shows "unat (a + of_nat k) = unat a + k"
  using assms by (simp add: user_frames_def unat_word_ariths unat_of_nat KERNBASE_def)

lemma user_byte_inj:
  assumes "user_frames s a n f"
  shows "inj_on (user_byte a f) {..<n}"
proof (rule inj_onI)
  fix j k
  assume l: "j \<in> {..<n}" "k \<in> {..<n}" and e: "user_byte a f j = user_byte a f k"
  let ?p = "\<lambda>k. PGROUNDDOWN (a + of_nat k)"
  have al: "page_aligned (f (?p j))" "page_aligned (f (?p k))"
    using assms l umappedD(3) unfolding user_frames_def by blast+
  have "f (?p j) = f (?p k)"
    using in_page_disjoint [OF al, of "user_byte a f k"] user_byte_page [of f a j] user_byte_page [of f a k] e by auto
  moreover have "inj_on f (?p ` {..<n})" using assms by (simp add: user_frames_def)
  ultimately have p: "?p j = ?p k" using l by (auto dest: inj_onD)
  then have "(a + of_nat j) AND 0xFFF = (a + of_nat k) AND 0xFFF" using e by (simp add: user_byte_def)
  then have "unat (a + of_nat j) mod 4096 = unat (a + of_nat k) mod 4096" by (metis unat_offset)
  moreover have "unat (a + of_nat j) div 4096 = unat (a + of_nat k) div 4096"
    using arg_cong [OF p, of unat] by (simp add: unat_PGROUNDDOWN)
  ultimately have "unat (a + of_nat j) = unat (a + of_nat k)" by (metis div_mult_mod_eq)
  then show "j = k" using user_frames_addr [OF assms] l by simp
qed

text \<open>Filling the buffer leaves the tables alone, so every byte stays where it is.\<close>

lemma filled_umapped:
  assumes f: "user_frames s a n f" and m: "user_filled a f (k_mem s) bs (k_mem t)" "length bs \<le> n"
    and c: "c_cr3 (k_cpu t) = c_cr3 (k_cpu s)" and k: "k < n"
  shows "umapped t (a + of_nat k) (f (PGROUNDDOWN (a + of_nat k)))"
proof (rule umapped_cong [OF _ c])
  let ?q = "\<lambda>j. f (PGROUNDDOWN (a + of_nat j))" and ?d = "p2v (c_cr3 (k_cpu s))"
  have u: "umapped s (a + of_nat j) (?q j)" if "j < n" for j using f that by (simp add: user_frames_def)
  then show "umapped s (a + of_nat k) (?q k)" using k .
  have keep: "k_mem t x = k_mem s x" if "page_aligned g" "in_page g x" "\<And>j. j < n \<Longrightarrow> ?q j \<noteq> g" for g x
  proof -
    have "x \<noteq> user_byte a f j" if "j < length bs" for j
      using in_page_disjoint [OF umappedD(3) [OF u] \<open>page_aligned g\<close>, of j x] user_byte_page [of f a j]
        \<open>in_page g x\<close> \<open>\<And>j. j < n \<Longrightarrow> ?q j \<noteq> g\<close> that m(2) by auto
    then show ?thesis using m(1) by (auto simp: user_filled_def)
  qed
  show "k_mem t x = k_mem s x" if "in_page ?d x" for x
    using keep [OF umappedD(2) [OF u [OF k]] that] umappedD(5) [OF u] by blast
  show "k_mem t x = k_mem s x" if "in_page (pgtable (k_mem s) ?d (PDX (a + of_nat k))) x" for x
    using keep [OF umappedD(4) [OF u [OF k]] that] f k by (simp add: user_frames_def)
qed

lemma filled_store8:
  assumes "user_frames s a n f" "user_filled a f (k_mem s) bs (k_mem t)" "length bs < n"
    and "c_cr3 (k_cpu t) = c_cr3 (k_cpu s)"
  shows "\<exists>m. store8 (a + of_nat (length bs)) b t = Ret () (t\<lparr>k_mem := m\<rparr>) \<and> user_filled a f (k_mem s) (bs @ [b]) m"
proof (intro exI conjI)
  let ?m = "(k_mem t)(user_byte a f (length bs) := b)"
  show "store8 (a + of_nat (length bs)) b t = Ret () (t\<lparr>k_mem := ?m\<rparr>)"
    using translate_umapped [OF filled_umapped [OF assms(1,2) _ assms(4,3)]] assms(3)
    by (simp add: store8_def user_byte_def)
  have "user_byte a f k \<noteq> user_byte a f (length bs)" if "k < length bs" for k
    using inj_onD [OF user_byte_inj [OF assms(1)], of k "length bs"] assms(3) that by auto
  then show "user_filled a f (k_mem s) (bs @ [b]) ?m"
    using assms(2) by (auto simp: user_filled_def nth_append less_Suc_eq lessThan_Suc)
qed

lemma filled_store:
  assumes "user_frames s a n f" "user_filled a f (k_mem s) acc (k_mem t)" "length acc + length bs \<le> n"
    and "c_cr3 (k_cpu t) = c_cr3 (k_cpu s)"
  shows "\<exists>m. store_bytes (a + of_nat (length acc)) bs t = Ret () (t\<lparr>k_mem := m\<rparr>)
    \<and> user_filled a f (k_mem s) (acc @ bs) m"
  using assms(2-4)
proof (induction bs arbitrary: acc t)
  case Nil
  then show ?case by (auto intro: exI [of _ "k_mem t"])
next
  case (Cons b bs)
  obtain m where m: "store8 (a + of_nat (length acc)) b t = Ret () (t\<lparr>k_mem := m\<rparr>)"
      "user_filled a f (k_mem s) (acc @ [b]) m"
    using filled_store8 [OF assms(1) Cons.prems(1)] Cons.prems(2,3) by auto
  then show ?case using Cons.IH [of "acc @ [b]" "t\<lparr>k_mem := m\<rparr>"] Cons.prems(2,3) by (auto simp: ac_simps)
qed

text \<open>The buffer is a destination, and what it holds is what the process loads from it.\<close>

lemma stores_ubuf:
  assumes "user_frames s a n f"
  shows "stores (ubuf a) n (user_filled a f (k_mem s)) s"
  unfolding stores_def ubuf_def using filled_store [OF assms] by (auto simp: user_filled_def)

lemma filled_load:
  assumes "user_frames s a n f" "user_filled a f (k_mem s) bs (k_mem t)" "length bs \<le> n"
    and "c_cr3 (k_cpu t) = c_cr3 (k_cpu s)" "j + k \<le> length bs"
  shows "load_bytes (a + of_nat j) k t = Ret (take k (drop j bs)) t"
  using assms(5)
proof (induction k arbitrary: j)
  case (Suc k)
  then have j: "j < length bs" by simp
  have "load8 (a + of_nat j) t = Ret (bs ! j) t"
    using translate_umapped [OF filled_umapped [OF assms(1-4)]] assms(2,3) j
    by (simp add: load8_def user_byte_def user_filled_def)
  moreover have "take (Suc k) (drop j bs) = bs ! j # take k (drop (Suc j) bs)" using j by (simp add: Cons_nth_drop_Suc [symmetric])
  ultimately show ?case using Suc.IH [of "Suc j"] Suc.prems by (simp add: ac_simps)
qed simp

lemma translate_user:
  "user_frames s a n f \<Longrightarrow> k < n \<Longrightarrow> translate s wr (a + of_nat k) = Some (user_byte a f k)"
  by (simp add: user_frames_def user_byte_def translate_umapped)

section \<open>Reading a pipe\<close>

text \<open>
  C30: \<^verbatim>\<open>piperead\<close> into a buffer of the process refines removing from the front of the pipe's queue.
  With data in the pipe, or all writers gone, it returns the number of bytes it takes, \<open>n\<close> or all there
  are; the process then loads just these bytes from its buffer, in order; no memory outside
  the buffer is different; the rest of the queue stays in the pipe, the writers are woken, and nothing
  else of the kernel has changed: no lock is held.
\<close>

theorem piperead_takes:
  assumes "quiet s" "k_pipes s p = Some pi" "pipe_queue pi q" "q \<noteq> [] \<or> \<not> pi_writeopen pi"
    and "k = min (nat n) (length q)" "user_buffer s a k"
  shows "\<exists>t m pi'. piperead p (ubuf a) n s = Ret (int k, take k q) t \<and> load_bytes a k t = Ret (take k q) t
    \<and> t = s\<lparr>k_mem := m, k_pipes := (k_pipes s)(p \<mapsto> pi'), k_procs := wakeup1_procs (ChNwrite p) (k_procs s)\<rparr>
    \<and> (\<forall>x. (\<forall>j<k. translate s True (a + of_nat j) \<noteq> Some x) \<longrightarrow> m x = k_mem s x)
    \<and> pipe_queue pi' (drop k q)"
proof -
  obtain f where f: "user_frames s a k f" using assms(6) by (auto simp: user_buffer_def)
  have k: "take (nat n) q = take k q" "drop (nat n) q = drop k q" "length (take k q) = k" by (auto simp: assms(5) min_def)
  obtain m pi' where r: "piperead p (ubuf a) n s = Ret (int k, take k q)
      (s\<lparr>k_mem := m, k_pipes := (k_pipes s)(p \<mapsto> pi'), k_procs := wakeup1_procs (ChNwrite p) (k_procs s)\<rparr>)"
      "pipe_queue pi' (drop k q)" "user_filled a f (k_mem s) (take k q) m"
    using piperead_run [OF assms(1-3) _ assms(4), of "ubuf a" n "user_filled a f (k_mem s)"] stores_ubuf [OF f]
    unfolding assms(5) [symmetric] k by blast
  moreover have "m x = k_mem s x" if "\<forall>j<k. translate s True (a + of_nat j) \<noteq> Some x" for x
  proof -
    have "x \<notin> user_byte a f ` {..<k}" using that translate_user [OF f, of _ True] by auto
    then show ?thesis using r(3) unfolding user_filled_def k(3) by blast
  qed
  ultimately show ?thesis
    using filled_load [OF f, of "take k q" _ 0 k] k(3) by auto
qed

text \<open>
  A process with two pages, the second one behind the first in memory, and four bytes in a pipe: three
  of them are read into a buffer that begins in the first page and ends in the second.
\<close>

definition user_pipe_start :: kernel where
  "user_pipe_start = pipe_start\<lparr>k_pipes := [0x80200000 \<mapsto> fold pi_put [7, 8, 9, 10] pipe0],
     k_cpu := (k_cpu boot)\<lparr>c_proc := Some 0, c_cr3 := 0x00400000\<rparr>,
     k_mem := st32 (st32 (st32 (\<lambda>_. 0) 0x80400000 0x00401007) 0x80401000 0x00402007) 0x80401004 0x00403007\<rparr>"

lemma user_pipe_start_buffer: "user_buffer user_pipe_start 0xFFE 3"
proof -
  have l: "k < 3 \<longleftrightarrow> k = 0 \<or> k = 1 \<or> k = 2" for k :: nat by auto
  have "user_frames user_pipe_start 0xFFE 3 (\<lambda>q. 0x80402000 + q)"
    unfolding user_frames_def l
    by (simp add: umapped_def user_pipe_start_def pde_def pte_def pgtable_def present_def
        page_aligned_def p2v_def KERNBASE_def PGSIZE_def PDX_def PTX_def PTE_ADDR_def PTE_P_def PTE_W_def
        PGROUNDDOWN_def ld32_def st32_def Let_def inj_on_def)
  then show ?thesis unfolding user_buffer_def by blast
qed

theorem piperead_takes_witness:
  "\<exists>t. piperead 0x80200000 (ubuf 0xFFE) 3 user_pipe_start = Ret (3, [7, 8, 9]) t
     \<and> load_bytes 0xFFE 3 t = Ret [7, 8, 9] t"
proof -
  have "pipe_queue (fold pi_put [7, 8, 9, 10] pipe0) [7, 8, 9, 10]"
    using pq.view_puts [OF pipe0_queue, of "[7, 8, 9, 10]"] by (simp add: PIPESIZE_def)
  moreover have "quiet user_pipe_start" "k_pipes user_pipe_start 0x80200000 = Some (fold pi_put [7, 8, 9, 10] pipe0)"
    by (simp_all add: user_pipe_start_def pipe_start_def boot_def quiet_def lock_avail_def lock_free_def cpu_ok_def)
  ultimately obtain t where "piperead 0x80200000 (ubuf 0xFFE) 3 user_pipe_start = Ret (int 3, take 3 [7, 8, 9, 10]) t"
      "load_bytes 0xFFE 3 t = Ret (take 3 [7, 8, 9, 10]) t"
    using piperead_takes [of user_pipe_start "0x80200000" _ "[7, 8, 9, 10]" 3 3 "0xFFE"] user_pipe_start_buffer by auto
  then show ?thesis by auto
qed

end
