(* ===== verification/Filedata.thy ===== *)
theory Filedata
  imports Userio
begin

text \<open>
  The contents of a file as a list of bytes, and the loops of \<^verbatim>\<open>readi\<close> and \<^verbatim>\<open>writei\<close> (\<^verbatim>\<open>fs.c\<close>) on
  it. A file's blocks are found through the direct addresses of its inode and through its
  indirect block; their data is what a reader of the buffer cache gets.
\<close>

section \<open>Reading a block\<close>

lemma cache_mem [simp]:
  "bc_ok (s\<lparr>k_mem := m\<rparr>) = bc_ok s" "blk (s\<lparr>k_mem := m\<rparr>) = blk s" "dirtyb (s\<lparr>k_mem := m\<rparr>) = dirtyb s"
  "busyb (s\<lparr>k_mem := m\<rparr>) = busyb s" "hold (s\<lparr>k_mem := m\<rparr>) = hold s"
  by (rule store_cong; simp)+

text \<open>
  \<open>seen s t\<close>: blocks have been read between \<open>s\<close> and \<open>t\<close>; at most the buffers, the waiting
  processes and memory differ, and every block has its contents.
\<close>

definition seen :: "kernel \<Rightarrow> kernel \<Rightarrow> bool" where
  "seen s t \<longleftrightarrow> bc_ok t \<and> blk t = blk s \<and> dirtyb t = dirtyb s \<and> busyb t = busyb s
     \<and> (\<exists>bs ps m. t = s\<lparr>k_bcache := bs, k_procs := ps, k_mem := m\<rparr>)"

lemma seen_refl: "bc_ok s \<Longrightarrow> seen s s"
  unfolding seen_def by (intro conjI exI [of _ "k_bcache s"] exI [of _ "k_procs s"] exI [of _ "k_mem s"]) simp_all

lemma seen_trans:
  assumes "seen s t" "seen t u"
  shows "seen s u"
proof -
  obtain bs ps m bs' ps' m' where "t = s\<lparr>k_bcache := bs, k_procs := ps, k_mem := m\<rparr>"
      "u = t\<lparr>k_bcache := bs', k_procs := ps', k_mem := m'\<rparr>"
    using assms unfolding seen_def by blast
  then have "u = s\<lparr>k_bcache := bs', k_procs := ps', k_mem := m'\<rparr>" by simp
  then show ?thesis using assms unfolding seen_def by metis
qed

lemma seen_fields:
  assumes "seen s t"
  shows "bc_ok t" "blk t = blk s" "dirtyb t = dirtyb s" "busyb t = busyb s" "k_icache t = k_icache s"
    "k_disksize t = k_disksize s" "k_sb t = k_sb s" "quiet s \<Longrightarrow> quiet t" "k_cpu t = k_cpu s"
  using assms unfolding seen_def by auto

lemma read_block:
  assumes "bc_ok s" "quiet s" "b < k_disksize s" "b \<notin> busyb s" "card (dirtyb s \<union> busyb s) < NBUF"
  shows "\<exists>i bs. bread 1 b s = Ret i (s\<lparr>k_bcache := bs\<rparr>) \<and> b_data (bs ! i) = blk s b
    \<and> (\<forall>m. \<exists>t. brelse i (s\<lparr>k_bcache := bs, k_mem := m\<rparr>) = Ret () t \<and> seen s t \<and> k_mem t = m)"
proof -
  obtain i bs where r: "bread 1 b s = Ret i (s\<lparr>k_bcache := bs\<rparr>)" "bc_ok (s\<lparr>k_bcache := bs\<rparr>)"
    "hold (s\<lparr>k_bcache := bs\<rparr>) i b" "blk (s\<lparr>k_bcache := bs\<rparr>) = blk s" "dirtyb (s\<lparr>k_bcache := bs\<rparr>) = dirtyb s"
    "busyb (s\<lparr>k_bcache := bs\<rparr>) = insert b (busyb s)" "b \<notin> dirtyb s \<longrightarrow> blk s b = k_disk s b"
    using bread_store [OF assms(1-4)] assms(5) by blast
  have "\<exists>t. brelse i (s\<lparr>k_bcache := bs, k_mem := m\<rparr>) = Ret () t \<and> seen s t \<and> k_mem t = m" for m
  proof -
    define u where "u = s\<lparr>k_bcache := bs, k_mem := m\<rparr>"
    note c = store_cong [of u "s\<lparr>k_bcache := bs\<rparr>"]
    have "bc_ok u" "quiet u" "hold u i b" "b \<in> dirtyb u \<or> blk u b = k_disk u b"
      using r(2,3) assms(2) c r(4,5,7) by (auto simp: u_def)
    from brelse_store [OF this] obtain bs' ps where b: "brelse i u = Ret () (u\<lparr>k_bcache := bs', k_procs := ps\<rparr>)"
      and t: "let t = u\<lparr>k_bcache := bs', k_procs := ps\<rparr> in bc_ok t \<and> (\<forall>j m. m \<noteq> b \<longrightarrow> hold t j m = hold u j m)
        \<and> blk t = blk u \<and> dirtyb t = dirtyb u \<and> busyb t = busyb u - {b}" by blast
    define t' where "t' = u\<lparr>k_bcache := bs', k_procs := ps\<rparr>"
    have s: "t' = s\<lparr>k_bcache := bs', k_procs := ps, k_mem := m\<rparr>" by (simp add: t'_def u_def)
    moreover have "blk u = blk s" "dirtyb u = dirtyb s" "busyb u = insert b (busyb s)"
      using c r(4,5,6) by (simp_all add: u_def)
    then have "bc_ok t'" "blk t' = blk s" "dirtyb t' = dirtyb s" "busyb t' = busyb s"
      using t assms(4) unfolding t'_def [symmetric] Let_def by simp_all
    ultimately have "seen s t'" unfolding seen_def by blast
    then show ?thesis using b s unfolding t'_def [symmetric] u_def [symmetric] by auto
  qed
  moreover have "b_data (bs ! i) = blk s b" using hold_blk [OF r(2,3)] r(4) by simp
  ultimately show ?thesis using r(1) by blast
qed

section \<open>The contents of a file\<close>

text \<open>The address of block \<open>k\<close> of a file, direct or through the indirect block.\<close>

definition file_addr :: "kernel \<Rightarrow> inode \<Rightarrow> nat \<Rightarrow> uint" where
  "file_addr s ip k = (if k < NDIRECT then i_addrs ip ! k
     else get32 (blk s (i_addrs ip ! NDIRECT)) (4 * (k - NDIRECT)))"

definition file_byte :: "kernel \<Rightarrow> inode \<Rightarrow> nat \<Rightarrow> uchar" where
  "file_byte s ip x = blk s (file_addr s ip (x div BSIZE)) ! (x mod BSIZE)"

definition contents :: "kernel \<Rightarrow> nat \<Rightarrow> uchar list" where
  "contents s i = (let ip = k_icache s ! i in map (file_byte s ip) [0..<unat (i_size ip)])"

definition block_ok :: "kernel \<Rightarrow> uint \<Rightarrow> bool" where
  "block_ok s b \<longleftrightarrow> b \<noteq> 0 \<and> b < k_disksize s \<and> b \<notin> busyb s"

text \<open>
  A file on disk 1 whose blocks are all allocated and not locked by another process; for a
  file beyond the direct blocks, so is the indirect block.
\<close>

definition file_ok :: "kernel \<Rightarrow> nat \<Rightarrow> bool" where
  "file_ok s i \<longleftrightarrow> (let ip = k_icache s ! i in i_dev ip = 1 \<and> i_type ip \<noteq> T_DEV \<and> unat (i_size ip) \<le> MAXFILE * BSIZE
     \<and> (\<forall>k. k * BSIZE < unat (i_size ip) \<longrightarrow> block_ok s (file_addr s ip k))
     \<and> (NDIRECT * BSIZE < unat (i_size ip) \<longrightarrow> block_ok s (i_addrs ip ! NDIRECT)))"

text \<open>A state in which blocks can be read.\<close>

definition can_read :: "kernel \<Rightarrow> bool" where
  "can_read s \<longleftrightarrow> bc_ok s \<and> quiet s \<and> card (dirtyb s \<union> busyb s) < NBUF"

lemma seen_file:
  assumes "seen s t"
  shows "file_addr t = file_addr s" "file_byte t = file_byte s" "contents t = contents s" "block_ok t = block_ok s"
    "file_ok t = file_ok s" "can_read s \<Longrightarrow> can_read t"
proof -
  note f = seen_fields [OF assms]
  show a: "file_addr t = file_addr s" "block_ok t = block_ok s" by (simp_all add: file_addr_def block_ok_def fun_eq_iff f)
  show b: "file_byte t = file_byte s" by (simp add: file_byte_def fun_eq_iff f a)
  show "contents t = contents s" "file_ok t = file_ok s" by (simp_all add: contents_def file_ok_def fun_eq_iff f a b)
  show "can_read s \<Longrightarrow> can_read t" using f by (simp add: can_read_def)
qed

lemma bmap_reads:
  assumes "can_read s" "file_ok s i" "unat bn * BSIZE < unat (i_size (k_icache s ! i))"
  shows "\<exists>t. bmap i bn s = Ret (file_addr s (k_icache s ! i) (unat bn)) t \<and> seen s t \<and> k_mem t = k_mem s"
proof -
  let ?ip = "k_icache s ! i" and ?a = "file_addr s (k_icache s ! i) (unat bn)"
  have a: "block_ok s ?a" "i_dev ?ip = 1" using assms(2,3) by (simp_all add: file_ok_def Let_def)
  show ?thesis
  proof (cases "unat bn < NDIRECT")
    case True
    then have "?a = i_addrs ?ip ! unat bn" by (simp add: file_addr_def)
    then have "bmap i bn s = Ret ?a s" using True a by (simp add: bmap_def block_ok_def)
    then show ?thesis using assms(1) seen_refl by (auto simp: can_read_def)
  next
    case False
    let ?b = "i_addrs ?ip ! NDIRECT" and ?k = "unat bn - NDIRECT"
    have "NDIRECT * BSIZE \<le> unat bn * BSIZE" using False by simp
    then have "NDIRECT * BSIZE < unat (i_size ?ip)" using assms(3) by (rule le_less_trans)
    then have b: "block_ok s ?b" using assms(2) by (simp add: file_ok_def Let_def)
    have "unat (i_size ?ip) \<le> MAXFILE * BSIZE" using assms(2) by (simp add: file_ok_def Let_def)
    then have "unat bn * BSIZE < MAXFILE * BSIZE" using assms(3) by linarith
    then have "unat bn < MAXFILE" using mult_less_cancel2 by blast
    then have k: "?k < NINDIRECT" using False by (simp add: MAXFILE_def)
    have u: "unat (bn - of_nat NDIRECT) = ?k"
      using False by (subst unat_sub) (simp_all add: word_le_nat_alt size_defs)
    have g: "?a = get32 (blk s ?b) (4 * ?k)" using False by (simp add: file_addr_def)
    obtain j bs where r: "bread 1 ?b s = Ret j (s\<lparr>k_bcache := bs\<rparr>)" "b_data (bs ! j) = blk s ?b"
      and rel: "\<forall>m. \<exists>t. brelse j (s\<lparr>k_bcache := bs, k_mem := m\<rparr>) = Ret () t \<and> seen s t \<and> k_mem t = m"
      using read_block [of s ?b] assms(1) b by (auto simp: can_read_def block_ok_def)
    obtain t where t: "brelse j (s\<lparr>k_bcache := bs\<rparr>) = Ret () t" "seen s t" "k_mem t = k_mem s"
      using rel [rule_format, of "k_mem s"] by auto
    have "bmap i bn s = Ret ?a t"
      using False k a b r t(1) g unfolding bmap_def by (simp add: u Let_def block_ok_def)
    then show ?thesis using t by blast
  qed
qed

lemma block_chunk:
  assumes "length d = BSIZE" "x mod BSIZE + m \<le> BSIZE" "\<And>j. j < BSIZE \<Longrightarrow> d ! j = f (x div BSIZE * BSIZE + j)"
  shows "take m (drop (x mod BSIZE) d) = map f [x..<x + m]"
proof (rule nth_equalityI)
  show "length (take m (drop (x mod BSIZE) d)) = length (map f [x..<x + m])" using assms(1,2) by simp
  fix j
  assume "j < length (take m (drop (x mod BSIZE) d))"
  then have j: "j < m" "x mod BSIZE + j < BSIZE" using assms(1,2) by auto
  have "x div BSIZE * BSIZE + (x mod BSIZE + j) = x + j" by simp
  then show "take m (drop (x mod BSIZE) d) ! j = map f [x..<x + m] ! j"
    using j assms by (simp add: nth_append)
qed

section \<open>Reading a file\<close>

lemma chunk_min:
  "unat (chunk rest off) = min (unat rest) (BSIZE - unat off mod BSIZE)"
proof -
  have m: "unat (off mod of_nat BSIZE) = unat off mod BSIZE" by (simp add: unat_mod_distrib BSIZE_def)
  have "off mod of_nat BSIZE \<le> of_nat BSIZE"
    unfolding word_le_nat_alt m using mod_less_divisor [of BSIZE "unat off"] by (simp add: BSIZE_def)
  then have "unat (of_nat BSIZE - off mod of_nat BSIZE) = unat (of_nat BSIZE :: uint) - unat (off mod of_nat BSIZE)"
    by (rule unat_sub)
  then have "unat (of_nat BSIZE - off mod of_nat BSIZE) = BSIZE - unat off mod BSIZE"
    unfolding m by (simp add: BSIZE_def)
  then show ?thesis unfolding chunk_def min_def by (simp add: word_le_nat_alt)
qed

lemma chunk_facts:
  assumes "0 < (rest :: uint)"
  shows "unat (chunk rest off) \<le> unat rest" "0 < unat (chunk rest off)"
    "unat off mod BSIZE + unat (chunk rest off) \<le> BSIZE"
proof -
  have l: "unat off mod BSIZE < BSIZE" by (simp add: BSIZE_def)
  show "unat (chunk rest off) \<le> unat rest" "unat off mod BSIZE + unat (chunk rest off) \<le> BSIZE"
    unfolding chunk_min using l by simp_all
  show "0 < unat (chunk rest off)" unfolding chunk_min using l assms by (simp add: unat_gt_0 word_gt_0)
qed

text \<open>The loop variables of \<^verbatim>\<open>readi\<close> after \<open>tot\<close> bytes.\<close>

definition read_upto :: "(uchar list \<Rightarrow> memory \<Rightarrow> bool) \<Rightarrow> kernel \<Rightarrow> nat \<Rightarrow> uint \<Rightarrow> uint \<Rightarrow>
    uint \<times> uint \<times> uchar list \<Rightarrow> kernel \<Rightarrow> bool" where
  "read_upto J s i off n x t \<longleftrightarrow> (case x of (tot, o', acc) \<Rightarrow> seen s t \<and> tot \<le> n \<and> o' = off + tot
     \<and> J acc (k_mem t) \<and> acc = map (file_byte s (k_icache s ! i)) [unat off..<unat off + unat tot])"

lemma readi_round_step:
  assumes s: "can_read s" "file_ok s i" "stores put (unat n) J s"
    and n: "unat off + unat n \<le> unat (i_size (k_icache s ! i))" and x: "read_upto J s i off n x t"
  shows "wp (readi_round i put n x) (\<lambda>r u. case r of
    Inl x' \<Rightarrow> read_upto J s i off n x' u \<and> unat n - unat (fst x') < unat n - unat (fst x)
  | Inr a \<Rightarrow> a = (sint n, map (file_byte s (k_icache s ! i)) [unat off..<unat off + unat n]) \<and> seen s u \<and> J (snd a) (k_mem u)) t"
proof -
  let ?ip = "k_icache s ! i"
  obtain tot o' acc where v: "x = (tot, o', acc)" by (cases x)
  have i: "seen s t" "tot \<le> n" "o' = off + tot" "acc = map (file_byte s ?ip) [unat off..<unat off + unat tot]"
      "J acc (k_mem t)" "length acc = unat tot"
    using x by (auto simp: read_upto_def v)
  note f = seen_fields [OF i(1)] seen_file [OF i(1)]
  show ?thesis
  proof (cases "tot < n")
    case False
    then have "tot = n" using i(2) by simp
    then show ?thesis using i by (simp add: v readi_round_def wp_simps)
  next
    case True
    have ut: "unat tot < unat n" using True by (simp add: word_less_nat_alt)
    have o: "unat o' = unat off + unat tot"
      using i(3) ut n unat_bound [of "i_size ?ip"] by (simp add: unat_word_ariths)
    let ?m = "chunk (n - tot) o'" and ?bn = "o' div of_nat BSIZE"
    have r: "unat (n - tot) = unat n - unat tot" using i(2) by (simp add: unat_sub)
    have "0 < n - tot" using ut r unfolding word_gt_0 by (metis unat_0 zero_less_diff less_not_refl)
    note m = chunk_facts [OF this, of o']
    have bn: "unat ?bn = unat o' div BSIZE" by (simp add: unat_div_distrib BSIZE_def)
    then have "unat ?bn * BSIZE \<le> unat o'" by (simp add: div_times_less_eq_dividend)
    then have bs: "unat ?bn * BSIZE < unat (i_size ?ip)" using o ut n by linarith
    obtain t1 where b: "bmap i ?bn t = Ret (file_addr s ?ip (unat ?bn)) t1" "seen t t1" "k_mem t1 = k_mem t"
      using bmap_reads [of t i ?bn] f(15) [OF s(1)] s(2) bs unfolding f(5,10,14) by blast
    let ?a = "file_addr s ?ip (unat ?bn)"
    note g = seen_fields [OF b(2)] seen_file [OF b(2)]
    have a: "block_ok s ?a" "i_dev ?ip = 1" using s(2) bs by (simp_all add: file_ok_def Let_def)
    obtain j cs where rd: "bread 1 ?a t1 = Ret j (t1\<lparr>k_bcache := cs\<rparr>)" "b_data (cs ! j) = blk t1 ?a"
      and rel: "\<forall>m. \<exists>u. brelse j (t1\<lparr>k_bcache := cs, k_mem := m\<rparr>) = Ret () u \<and> seen t1 u \<and> k_mem u = m"
      using read_block [of t1 ?a] g(15) [OF f(15) [OF s(1)]] a(1) f(4,6) g(4,6)
      by (auto simp: can_read_def block_ok_def)
    let ?bytes = "take (unat ?m) (drop (unat o' mod BSIZE) (blk s ?a))"
    have e: "?bytes = map (file_byte s ?ip) [unat o'..<unat o' + unat ?m]"
    proof (rule block_chunk)
      show "length (blk s ?a) = BSIZE" using length_blk s(1) by (simp add: can_read_def)
      show "unat o' mod BSIZE + unat ?m \<le> BSIZE" by (rule m(3))
      show "blk s ?a ! j = file_byte s ?ip (unat o' div BSIZE * BSIZE + j)" if "j < BSIZE" for j
        using that unfolding file_byte_def bn by (simp add: BSIZE_def)
    qed
    have len: "length acc + length ?bytes \<le> unat n" unfolding e using i(6) m(1) r ut by simp
    obtain mm where p: "put tot ?bytes (t1\<lparr>k_bcache := cs\<rparr>) = Ret () (t1\<lparr>k_bcache := cs, k_mem := mm\<rparr>)" "J (acc @ ?bytes) mm"
      using storesD [OF s(3), of acc "t1\<lparr>k_bcache := cs\<rparr>" ?bytes] len i(5,6) b(3) f(9) g(9) by auto
    obtain u where u: "brelse j (t1\<lparr>k_bcache := cs, k_mem := mm\<rparr>) = Ret () u" "seen t1 u" "k_mem u = mm" using rel by blast
    have om: "unat (o' mod of_nat BSIZE) = unat o' mod BSIZE" by (simp add: unat_mod_distrib BSIZE_def)
    have run: "readi_round i put n x t = Ret (Inl (tot + ?m, o' + ?m, acc @ ?bytes)) u"
      using True b(1) rd p(1) u(1) f(2,5) g(2,5) a(2) by (simp add: v readi_round_def om Let_def)
    have tm: "unat (tot + ?m) = unat tot + unat ?m"
      using m(1) r ut unat_bound [of n] by (simp add: unat_word_ariths)
    have "seen s u" using seen_trans [OF seen_trans [OF i(1) b(2)] u(2)] .
    moreover have "tot + ?m \<le> n" unfolding word_le_nat_alt tm using m(1) r ut by simp
    moreover have "acc @ ?bytes = map (file_byte s ?ip) [unat off..<unat off + unat (tot + ?m)]"
    proof -
      have "acc @ ?bytes = map (file_byte s ?ip) ([unat off..<unat o'] @ [unat o'..<unat o' + unat ?m])"
        unfolding e by (simp add: i(4) o)
      also have "[unat off..<unat o'] @ [unat o'..<unat o' + unat ?m] = [unat off..<unat o' + unat ?m]"
        using upt_add_eq_append [of "unat off" "unat o'" "unat ?m"] o by simp
      finally show ?thesis by (simp only: tm o add.assoc)
    qed
    ultimately have "read_upto J s i off n (tot + ?m, o' + ?m, acc @ ?bytes) u"
      using p(2) u(3) by (simp add: read_upto_def i(3) add.assoc)
    then show ?thesis using m(2) ut tm unfolding wp_def run by (simp add: v)
  qed
qed

lemma sint_small:
  assumes "unat (x :: uint) < 2 ^ 31"
  shows "sint x = int (unat x)"
proof -
  have "int (unat x) < int (2 ^ 31)" using assms by (simp only: of_nat_less_iff)
  then have "uint x < 2 ^ 31" by simp
  moreover have "0 \<le> uint x" by simp
  ultimately have "signed_take_bit 31 (uint x) = uint x" by (intro signed_take_bit_int_eq_self) linarith+
  then show ?thesis by (simp add: sint_uint)
qed

lemma take_drop_contents:
  assumes "unat off \<le> unat (i_size (k_icache s ! i))"
    and "m = min n (unat (i_size (k_icache s ! i)) - unat off)"
  shows "take n (drop (unat off) (contents s i)) = map (file_byte s (k_icache s ! i)) [unat off..<unat off + m]"
  using assms by (auto simp: contents_def Let_def take_map drop_map min_def)

lemma readi_contents:
  assumes s: "can_read s" "file_ok s i" "stores put (unat n) J s"
    and off: "unat off \<le> unat (i_size (k_icache s ! i))" "unat off + unat n < 2 ^ 32"
    and bs: "bs = take (unat n) (drop (unat off) (contents s i))"
  shows "\<exists>t. readi i put off n s = Ret (int (length bs), bs) t \<and> seen s t \<and> J bs (k_mem t)"
proof -
  let ?ip = "k_icache s ! i"
  define m where "m = (if off + n > i_size ?ip then i_size ?ip - off else n)"
  have o: "unat (off + n) = unat off + unat n" using off(2) by (simp add: unat_word_ariths)
  have mn: "unat m = min (unat n) (unat (i_size ?ip) - unat off)"
  proof -
    have "unat (i_size ?ip - off) = unat (i_size ?ip) - unat off" using off(1) by (simp add: unat_sub word_le_nat_alt)
    then show ?thesis using o off(1) unfolding m_def by (auto simp: word_less_nat_alt min_def)
  qed
  have st: "stores put (unat m) J s" using stores_less [OF s(3)] mn by simp
  have sz: "unat (i_size ?ip) \<le> 71680" "i_type ?ip \<noteq> T_DEV"
    using s(2) by (simp_all add: file_ok_def Let_def fs_defs size_defs)
  have b: "bs = map (file_byte s ?ip) [unat off..<unat off + unat m]"
    unfolding bs using take_drop_contents [OF off(1) mn] .
  have "wp (loop (Suc (unat m)) (readi_round i put m) (0, off, []))
      (\<lambda>a u. a = (sint m, map (file_byte s ?ip) [unat off..<unat off + unat m]) \<and> seen s u \<and> J (snd a) (k_mem u)) s"
  proof (rule wp_loop [where I = "read_upto J s i off m" and f = "\<lambda>x. unat m - unat (fst x)"])
    show "wp (readi_round i put m x) (\<lambda>r u. case r of
        Inl x' \<Rightarrow> read_upto J s i off m x' u \<and> unat m - unat (fst x') < unat m - unat (fst x)
      | Inr a \<Rightarrow> a = (sint m, map (file_byte s ?ip) [unat off..<unat off + unat m]) \<and> seen s u \<and> J (snd a) (k_mem u)) t"
      if "read_upto J s i off m x t" for x t
      using mn off(1) by (intro readi_round_step [OF s(1,2) st _ that]) simp
    show "read_upto J s i off m (0, off, []) s" using s(1) st by (simp add: read_upto_def seen_refl can_read_def stores_def)
  qed simp
  then obtain t where t: "loop (Suc (unat m)) (readi_round i put m) (0, off, []) s = Ret (sint m, bs) t" "seen s t" "J bs (k_mem t)"
    unfolding b wp_Ret_iff by auto
  have "sint m = int (length bs)" using sz(1) mn unfolding b by (subst sint_small) auto
  moreover have "readi i put off n s = loop (Suc (unat m)) (readi_round i put m) (0, off, []) s"
    using off(1) o sz(2) by (simp add: readi_def m_def word_less_nat_alt Let_def del: loop.simps)
  ultimately show ?thesis using t by auto
qed

section \<open>Writing a file\<close>

text \<open>Where the data comes from: the bytes \<open>bs\<close>, as long as memory and page tables stay.\<close>

definition supplies :: "source \<Rightarrow> uchar list \<Rightarrow> kernel \<Rightarrow> bool" where
  "supplies src bs s \<longleftrightarrow> (\<forall>k n t. k + n \<le> length bs \<and> k_mem t = k_mem s \<and> k_cpu t = k_cpu s \<longrightarrow>
     src (of_nat k) n t = Ret (take n (drop k bs)) t)"

text \<open>
  The blocks of a file are its own: no two parts of the file share a block, and none is the
  indirect block.
\<close>

definition own_blocks :: "kernel \<Rightarrow> nat \<Rightarrow> bool" where
  "own_blocks s i \<longleftrightarrow> (let ip = k_icache s ! i; K = {k. k * BSIZE < unat (i_size ip)} in
     inj_on (file_addr s ip) K
     \<and> (NDIRECT * BSIZE < unat (i_size ip) \<longrightarrow> i_addrs ip ! NDIRECT \<notin> file_addr s ip ` K))"

text \<open>How many blocks the bytes from \<open>x\<close> to \<open>x + r\<close> are in.\<close>

definition span :: "nat \<Rightarrow> nat \<Rightarrow> nat" where
  "span x r = (if r = 0 then 0 else (x + r - 1) div BSIZE - x div BSIZE + 1)"

lemma span_step:
  assumes "0 < r" "m = min r (BSIZE - x mod BSIZE)"
  shows "Suc (span (x + m) (r - m)) \<le> span x r"
proof (cases "m = r")
  case True
  then show ?thesis using assms(1) by (simp add: span_def)
next
  case False
  then have m: "m = BSIZE - x mod BSIZE" "m < r" using assms(2) by (auto simp: min_def split: if_splits)
  have l: "x mod BSIZE < BSIZE" by (simp add: BSIZE_def)
  have "x + m = (x div BSIZE + 1) * BSIZE" unfolding m(1)
    using l div_mult_mod_eq [of x BSIZE] by (simp only: distrib_right mult_1)
  then have d: "(x + m) div BSIZE = x div BSIZE + 1" by (simp add: BSIZE_def)
  then have "x div BSIZE + 1 \<le> (x + r - 1) div BSIZE"
    using m(2) div_le_mono [of "x + m" "x + r - 1" BSIZE] by simp
  then show ?thesis using m(2) d by (simp add: span_def)
qed

text \<open>
  \<open>file_written s i x bs t\<close>: between \<open>s\<close> and \<open>t\<close> the bytes \<open>bs\<close> have been written into the file
  at \<open>x\<close>, and no block but the file's own has changed.
\<close>

definition file_written :: "kernel \<Rightarrow> nat \<Rightarrow> nat \<Rightarrow> uchar list \<Rightarrow> kernel \<Rightarrow> bool" where
  "file_written s i x bs t \<longleftrightarrow> txn t \<and> k_icache t = k_icache s \<and> k_disksize t = k_disksize s \<and> busyb t = busyb s
     \<and> k_mem t = k_mem s \<and> k_cpu t = k_cpu s
     \<and> (let ip = k_icache s ! i; K = {k. k * BSIZE < unat (i_size ip)} in
        (\<forall>k\<in>K. file_addr t ip k = file_addr s ip k) \<and> (\<forall>b. b \<notin> file_addr s ip ` K \<longrightarrow> blk t b = blk s b)
        \<and> (\<forall>y<unat (i_size ip). file_byte t ip y =
            (if x \<le> y \<and> y < x + length bs then bs ! (y - x) else file_byte s ip y)))"

lemma andthen_tail: "andthen a (andthen b c) s = Ret u t \<Longrightarrow> andthen a (andthen b (andthen c k)) s = k t"
  by (auto simp: andthen_eq_Ret_iff)

lemma nth_overwrite:
  assumes "k + length bs \<le> length d" "j < length d"
  shows "overwrite d k bs ! j = (if k \<le> j \<and> j < k + length bs then bs ! (j - k) else d ! j)"
  using assms by (auto simp: overwrite_def nth_append min_def not_less)

lemma div_range:
  assumes "j + m \<le> BSIZE" "y div BSIZE = k"
  shows "(k * BSIZE + j \<le> y \<and> y < k * BSIZE + j + m) = (j \<le> y mod BSIZE \<and> y mod BSIZE < j + m)"
proof -
  have "y = k * BSIZE + y mod BSIZE" using assms(2) div_mult_mod_eq [of y BSIZE] by simp
  then show ?thesis by linarith
qed

lemma div_range_other:
  assumes "j + m \<le> BSIZE" "y div BSIZE \<noteq> k"
  shows "\<not> (k * BSIZE + j \<le> y \<and> y < k * BSIZE + j + m)"
proof
  assume y: "k * BSIZE + j \<le> y \<and> y < k * BSIZE + j + m"
  then have "y = k * BSIZE + (y - k * BSIZE)" "y - k * BSIZE < BSIZE" using assms(1) by linarith+
  then have "y div BSIZE = k" by (metis div_mult_self3 div_less add.right_neutral not_less_zero)
  then show False using assms(2) by simp
qed

lemma file_block_addr:
  assumes "own_blocks s i" "a = file_addr s (k_icache s ! i) k" "k * BSIZE < unat (i_size (k_icache s ! i))"
    and "\<And>b. b \<noteq> a \<Longrightarrow> blk u b = blk t b" "k' * BSIZE < unat (i_size (k_icache s ! i))"
  shows "file_addr u (k_icache s ! i) k' = file_addr t (k_icache s ! i) k'"
proof (cases "k' < NDIRECT")
  case False
  then have "NDIRECT * BSIZE \<le> k' * BSIZE" by simp
  then have "NDIRECT * BSIZE < unat (i_size (k_icache s ! i))" using assms(5) by (rule le_less_trans)
  then have "i_addrs (k_icache s ! i) ! NDIRECT \<noteq> a" using assms(1-3,5) by (auto simp: own_blocks_def Let_def)
  then show ?thesis using assms(4) False by (simp add: file_addr_def)
qed (simp add: file_addr_def)

lemma file_written_block:
  assumes w: "file_written s i x bs t" and u: "updated t u a (overwrite (blk t a) j cs)"
    and a: "a = file_addr s (k_icache s ! i) k" "k * BSIZE < unat (i_size (k_icache s ! i))" "own_blocks s i"
    and j: "j + length cs \<le> BSIZE" "x + length bs = k * BSIZE + j"
  shows "file_written s i x (bs @ cs) u"
proof -
  let ?ip = "k_icache s ! i"
  let ?K = "{k. k * BSIZE < unat (i_size ?ip)}"
  have t: "txn t" "\<forall>k\<in>?K. file_addr t ?ip k = file_addr s ?ip k" "\<forall>b. b \<notin> file_addr s ?ip ` ?K \<longrightarrow> blk t b = blk s b"
    "\<forall>y<unat (i_size ?ip). file_byte t ?ip y =
       (if x \<le> y \<and> y < x + length bs then bs ! (y - x) else file_byte s ?ip y)"
    using w unfolding file_written_def Let_def by blast+
  have len: "length (blk t a) = BSIZE" using t(1) length_blk by (simp add: txn_def)
  note m = updated_more [OF u]
  have ad: "file_addr u ?ip k' = file_addr s ?ip k'" if "k' \<in> ?K" for k'
    using file_block_addr [OF a(3,1,2), of u t k'] that t(2) m(1) by simp
  have byte: "file_byte u ?ip y = (if x + length bs \<le> y \<and> y < x + length bs + length cs
      then cs ! (y - (x + length bs)) else file_byte t ?ip y)" if "y < unat (i_size ?ip)" for y
  proof -
    have K: "y div BSIZE \<in> ?K" using le_less_trans [OF div_times_less_eq_dividend that] by simp
    then have fa: "file_addr u ?ip (y div BSIZE) = file_addr s ?ip (y div BSIZE)"
      "file_addr t ?ip (y div BSIZE) = file_addr s ?ip (y div BSIZE)" using ad t(2) by blast+
    show ?thesis
    proof (cases "y div BSIZE = k")
      case True
      have r: "y mod BSIZE < BSIZE" by (simp add: BSIZE_def)
      have "y = k * BSIZE + y mod BSIZE" using True div_mult_mod_eq [of y BSIZE] by simp
      then have "y - (k * BSIZE + j) = y mod BSIZE - j" by linarith
      then show ?thesis unfolding file_byte_def True fa [unfolded True] j(2) div_range [OF j(1) True] m(1)
        using nth_overwrite [of j cs "blk t a" "y mod BSIZE"] len j(1) r by (simp add: a(1))
    next
      case False
      then have "file_addr s ?ip (y div BSIZE) \<noteq> a"
        using K a by (auto simp: own_blocks_def Let_def inj_on_def)
      then show ?thesis unfolding file_byte_def fa j(2) using div_range_other [OF j(1) False] m(1) by auto
    qed
  qed
  have "\<forall>y<unat (i_size ?ip). file_byte u ?ip y =
       (if x \<le> y \<and> y < x + length (bs @ cs) then (bs @ cs) ! (y - x) else file_byte s ?ip y)"
    using byte t(4) by (auto simp: nth_append)
  moreover have "\<forall>b. b \<notin> file_addr s ?ip ` ?K \<longrightarrow> blk u b = blk s b" using t(3) m(1) a(1,2) by auto
  moreover have "k_mem u = k_mem t" "k_cpu u = k_cpu t" using u by (auto simp: updated_def)
  ultimately show ?thesis using w ad m txn_updated [OF t(1) u] unfolding file_written_def Let_def by simp
qed

lemma file_written_seen:
  assumes "file_written s i x bs t" "seen t u" "k_mem u = k_mem t"
  shows "file_written s i x bs u" "room u k = room t k"
proof -
  note f = seen_fields [OF assms(2)] seen_file [OF assms(2)]
  have l: "k_log u = k_log t" "k_cpu u = k_cpu t" using assms(2) by (auto simp: seen_def)
  then have "txn t \<Longrightarrow> txn u" using f by (simp add: txn_def log_inv_def)
  then show "file_written s i x bs u" using assms(1,3) f l by (simp add: file_written_def)
  show "room u k = room t k" using f l by (simp add: room_def)
qed

lemma file_written_file:
  assumes "file_written s i x bs t" "file_ok s i"
  shows "file_ok t i" "k_icache t = k_icache s" "room t (Suc k) \<Longrightarrow> can_read t" "block_ok t = block_ok s"
    "k * BSIZE < unat (i_size (k_icache s ! i)) \<Longrightarrow> file_addr t (k_icache s ! i) k = file_addr s (k_icache s ! i) k"
proof -
  show b: "block_ok t = block_ok s" "k_icache t = k_icache s"
    using assms(1) by (simp_all add: file_written_def block_ok_def fun_eq_iff)
  have ad: "file_addr t (k_icache s ! i) k = file_addr s (k_icache s ! i) k"
    if "k * BSIZE < unat (i_size (k_icache s ! i))" for k
    using assms(1) that by (simp add: file_written_def Let_def)
  then show "k * BSIZE < unat (i_size (k_icache s ! i)) \<Longrightarrow> file_addr t (k_icache s ! i) k = file_addr s (k_icache s ! i) k" .
  show "file_ok t i" using assms(2) b ad by (simp add: file_ok_def Let_def)
  show "can_read t" if "room t (Suc k)"
    using assms(1) that by (simp add: file_written_def txn_def can_read_def room_def)
qed

text \<open>The loop variables of \<^verbatim>\<open>writei\<close> after \<open>tot\<close> bytes.\<close>

definition write_upto :: "kernel \<Rightarrow> nat \<Rightarrow> uint \<Rightarrow> uint \<Rightarrow> uchar list \<Rightarrow> uint \<times> uint \<Rightarrow> kernel \<Rightarrow> bool" where
  "write_upto s i off n bs x t \<longleftrightarrow> (case x of (tot, o') \<Rightarrow> file_written s i (unat off) (take (unat tot) bs) t
     \<and> tot \<le> n \<and> o' = off + tot \<and> room t (Suc (span (unat o') (unat (n - tot)))))"

lemma writei_round_step:
  assumes s: "file_ok s i" "own_blocks s i" "supplies src bs s" "length bs = unat n"
    and n: "unat off + unat n \<le> unat (i_size (k_icache s ! i))" and x: "write_upto s i off n bs x t"
  shows "wp (writei_round i src n x) (\<lambda>r u. case r of
    Inl x' \<Rightarrow> write_upto s i off n bs x' u \<and> unat n - unat (fst x') < unat n - unat (fst x)
  | Inr a \<Rightarrow> a = off + n \<and> file_written s i (unat off) bs u \<and> room u 1) t"
proof -
  let ?ip = "k_icache s ! i"
  obtain tot o' where v: "x = (tot, o')" by (cases x)
  have i: "file_written s i (unat off) (take (unat tot) bs) t" "tot \<le> n" "o' = off + tot"
      "room t (Suc (span (unat o') (unat (n - tot))))"
    using x by (auto simp: write_upto_def v)
  note f = file_written_file [OF i(1) s(1)]
  show ?thesis
  proof (cases "tot < n")
    case False
    then have "tot = n" using i(2) by simp
    then show ?thesis using i s(4) by (simp add: v writei_round_def wp_simps span_def)
  next
    case True
    have ut: "unat tot < unat n" using True by (simp add: word_less_nat_alt)
    have o: "unat o' = unat off + unat tot"
      using i(3) ut n unat_bound [of "i_size ?ip"] by (simp add: unat_word_ariths)
    let ?m = "chunk (n - tot) o'" and ?bn = "o' div of_nat BSIZE"
    have r: "unat (n - tot) = unat n - unat tot" using i(2) by (simp add: unat_sub)
    have pos: "0 < n - tot" using ut r unfolding word_gt_0 by (metis unat_0 zero_less_diff less_not_refl)
    note m = chunk_facts [OF pos, of o']
    have bn: "unat ?bn = unat o' div BSIZE" by (simp add: unat_div_distrib BSIZE_def)
    then have "unat ?bn * BSIZE \<le> unat o'" by (simp add: div_times_less_eq_dividend)
    then have bl: "unat ?bn * BSIZE < unat (i_size ?ip)" using o ut n by linarith
    let ?a = "file_addr s ?ip (unat ?bn)"
    obtain t1 where b: "bmap i ?bn t = Ret ?a t1" "seen t t1" "k_mem t1 = k_mem t"
      using bmap_reads [OF f(3) [OF i(4)] f(1), of ?bn] bl unfolding f(2) f(5) [OF bl] by blast
    note g = file_written_seen [OF i(1) b(2,3)]
    note h = file_written_file [OF g(1) s(1)]
    have a: "block_ok s ?a" "i_dev ?ip = 1" using s(1) bl by (simp_all add: file_ok_def Let_def)
    have tm: "unat (tot + ?m) = unat tot + unat ?m"
      using m(1) r ut unat_bound [of n] by (simp add: unat_word_ariths)
    have le: "tot + ?m \<le> n" unfolding word_le_nat_alt tm using m(1) r ut by simp
    have om: "unat (o' + ?m) = unat o' + unat ?m"
      using m(1) r ut n o unat_bound [of "i_size ?ip"] by (simp add: unat_word_ariths)
    have "unat (n - (tot + ?m)) = unat (n - tot) - unat ?m" using le r tm by (simp add: unat_sub)
    then have st: "Suc (span (unat (o' + ?m)) (unat (n - (tot + ?m)))) \<le> span (unat o') (unat (n - tot))"
      unfolding om using pos by (simp only:) (rule span_step, simp_all add: chunk_min unat_gt_0 word_gt_0)
    define k where "k = span (unat (o' + ?m)) (unat (n - (tot + ?m)))"
    have rm: "room t1 (Suc (Suc k))" using i(4) st unfolding g(2) k_def by (simp add: room_def)
    have tx: "txn t1" "k_mem t1 = k_mem s" "k_cpu t1 = k_cpu s" using g(1) by (simp_all add: file_written_def)
    obtain j cs where rd: "bread 1 ?a t1 = Ret j (t1\<lparr>k_bcache := cs\<rparr>)" "b_data (cs ! j) = blk t1 ?a"
      and up: "\<forall>d. length d = BSIZE \<longrightarrow> (\<exists>u. andthen (set_data j d) (andthen (log_write j) (brelse j))
          (t1\<lparr>k_bcache := cs\<rparr>) = Ret () u \<and> updated t1 u ?a d)"
      using open_block [OF tx(1) _ _ rm, of ?a] a(1) h(4) by (auto simp: block_ok_def fun_eq_iff)
    let ?c = "take (unat ?m) (drop (unat tot) bs)" and ?j = "unat o' mod BSIZE"
    have lc: "unat tot + unat ?m \<le> length bs" using s(4) m(1) r ut by simp
    have "src (of_nat (unat tot)) (unat ?m) (t1\<lparr>k_bcache := cs\<rparr>) = Ret ?c (t1\<lparr>k_bcache := cs\<rparr>)"
      using s(3) [unfolded supplies_def, rule_format, of "unat tot" "unat ?m" "t1\<lparr>k_bcache := cs\<rparr>"] lc tx(2,3) by simp
    then have src: "src tot (unat ?m) (t1\<lparr>k_bcache := cs\<rparr>) = Ret ?c (t1\<lparr>k_bcache := cs\<rparr>)" by simp
    have c: "length ?c = unat ?m" using lc by simp
    let ?d = "overwrite (blk t1 ?a) ?j ?c"
    have "length (blk t1 ?a) = BSIZE" using tx(1) length_blk by (simp add: txn_def)
    then have "length ?d = BSIZE" using m(3) c by (simp add: overwrite_def)
    then obtain u where u: "andthen (set_data j ?d) (andthen (log_write j) (brelse j)) (t1\<lparr>k_bcache := cs\<rparr>) = Ret () u"
      "updated t1 u ?a ?d" using up by blast
    have jm: "unat (o' mod of_nat BSIZE) = ?j" by (simp add: unat_mod_distrib BSIZE_def)
    have run: "writei_round i src n x t = Ret (Inl (tot + ?m, o' + ?m)) u"
      using True b(1) rd src h(2) a(2) andthen_tail [OF u(1)]
      by (simp add: v writei_round_def jm Let_def)
    have "file_written s i (unat off) (take (unat tot) bs @ ?c) u"
    proof (rule file_written_block [OF g(1) u(2) refl bl s(2)])
      show "?j + length ?c \<le> BSIZE" unfolding c by (rule m(3))
      show "unat off + length (take (unat tot) bs) = unat ?bn * BSIZE + ?j" using ut s(4) unfolding bn by (simp add: o)
    qed
    then have "file_written s i (unat off) (take (unat (tot + ?m)) bs) u" unfolding tm by (simp add: take_add)
    moreover have "room u (Suc k)" using room_updated [OF u(2) rm] .
    ultimately have "write_upto s i off n bs (tot + ?m, o' + ?m) u"
      using le by (simp add: write_upto_def k_def i(3) add.assoc)
    then show ?thesis using m(2) ut tm unfolding wp_def run by (simp add: v)
  qed
qed

lemma file_written_contents:
  assumes "file_written s i x bs t" "x + length bs \<le> unat (i_size (k_icache s ! i))"
  shows "contents t i = overwrite (contents s i) x bs"
proof (rule nth_equalityI)
  have c: "k_icache t = k_icache s" using assms(1) by (simp add: file_written_def)
  have l: "length (contents t i) = unat (i_size (k_icache s ! i))" "length (contents s i) = unat (i_size (k_icache s ! i))"
    by (simp_all add: contents_def Let_def c)
  then show "length (contents t i) = length (overwrite (contents s i) x bs)" using assms(2) by (simp add: overwrite_def)
  fix y
  assume "y < length (contents t i)"
  then have y: "y < unat (i_size (k_icache s ! i))" using l by simp
  then have "file_byte t (k_icache s ! i) y =
      (if x \<le> y \<and> y < x + length bs then bs ! (y - x) else file_byte s (k_icache s ! i) y)"
    using assms(1) by (simp add: file_written_def Let_def)
  moreover have "contents t i ! y = file_byte t (k_icache s ! i) y" "contents s i ! y = file_byte s (k_icache s ! i) y"
    using y by (simp_all add: contents_def Let_def c)
  ultimately show "contents t i ! y = overwrite (contents s i) x bs ! y"
    using nth_overwrite [of x bs "contents s i" y] assms(2) y l(2) by simp
qed

lemma file_written_refl: "txn s \<Longrightarrow> file_written s i x [] s"
  by (auto simp: file_written_def Let_def)

lemma writei_written:
  assumes s: "txn s" "room s (Suc (span (unat off) (unat n)))" "file_ok s i" "own_blocks s i" "supplies src bs s"
    and n: "length bs = unat n" "unat off + unat n \<le> unat (i_size (k_icache s ! i))"
  shows "\<exists>t. writei i src off n s = Ret (int (length bs)) t \<and> file_written s i (unat off) bs t \<and> room t 1"
proof -
  let ?ip = "k_icache s ! i"
  have sz: "unat (i_size ?ip) \<le> 71680" "i_type ?ip \<noteq> T_DEV"
    using s(3) by (simp_all add: file_ok_def Let_def fs_defs size_defs)
  have o: "unat (off + n) = unat off + unat n" using n(2) unat_bound [of "i_size ?ip"] by (simp add: unat_word_ariths)
  have "wp (loop (Suc (unat n)) (writei_round i src n) (0, off))
      (\<lambda>a u. a = off + n \<and> file_written s i (unat off) bs u \<and> room u 1) s"
  proof (rule wp_loop [where I = "write_upto s i off n bs" and f = "\<lambda>x. unat n - unat (fst x)"])
    show "wp (writei_round i src n x) (\<lambda>r u. case r of
        Inl x' \<Rightarrow> write_upto s i off n bs x' u \<and> unat n - unat (fst x') < unat n - unat (fst x)
      | Inr a \<Rightarrow> a = off + n \<and> file_written s i (unat off) bs u \<and> room u 1) t"
      if "write_upto s i off n bs x t" for x t by (rule writei_round_step [OF s(3-5) n that])
    show "write_upto s i off n bs (0, off) s" using s(1,2) by (simp add: write_upto_def file_written_refl)
  qed simp
  then obtain t where t: "loop (Suc (unat n)) (writei_round i src n) (0, off) s = Ret (off + n) t"
      "file_written s i (unat off) bs t" "room t 1" unfolding wp_Ret_iff by blast
  have c: "k_icache t = k_icache s" using t(2) by (simp add: file_written_def)
  have g: "\<not> off > i_size ?ip" "\<not> off + n < off" "\<not> off + n > i_size ?ip" "\<not> off + n > of_nat (MAXFILE * BSIZE)"
    using o n(2) sz(1) by (simp_all add: word_less_nat_alt fs_defs size_defs)
  have "sint n = int (length bs)" using sz(1) n by (subst sint_small) simp_all
  then have "writei i src off n s = Ret (int (length bs)) t"
    using t(1) g sz(2) c by (simp add: writei_def del: loop.simps)
  then show ?thesis using t by blast
qed

section \<open>A file of two blocks\<close>

text \<open>A file of 600 bytes in blocks 7 and 8, in an open transaction.\<close>

definition file_start :: kernel where
  "file_start = log_start\<lparr>k_icache := [inode0\<lparr>i_dev := 1, i_valid := True, i_type := T_FILE, i_size := 600,
     i_addrs := [7, 8] @ replicate 11 0\<rparr>]\<rparr>"

lemma file_start_inode:
  "i_dev (k_icache file_start ! 0) = 1" "i_type (k_icache file_start ! 0) = T_FILE"
  "i_size (k_icache file_start ! 0) = 600" "i_addrs (k_icache file_start ! 0) = [7, 8] @ replicate 11 0"
  by (simp_all add: file_start_def)

lemma file_start_blocks: "k * BSIZE < 600 \<longleftrightarrow> k = 0 \<or> k = 1"
  by (auto simp: BSIZE_def)

lemma file_start_ok:
  "txn file_start" "room file_start 5" "can_read file_start" "file_ok file_start 0" "own_blocks file_start 0"
proof -
  have c: "bc_ok file_start" "quiet file_start" "log_inv file_start" "dirtyb file_start = {}" "busyb file_start = {}"
    "k_log file_start = k_log log_start" "k_disksize file_start = 1000"
    using log_start_ok by (simp_all add: file_start_def log_inv_def)
  have l: "lg_size (k_log log_start) = 30" "lg_outstanding (k_log log_start) = 1" "lh_n (lg_lh (k_log log_start)) = 0"
    by (simp_all add: log_start_ok)
  show "txn file_start" "room file_start 5" "can_read file_start"
    using c l by (simp_all add: txn_def room_def can_read_def size_defs)
  have a: "file_addr file_start (k_icache file_start ! 0) 0 = 7" "file_addr file_start (k_icache file_start ! 0) 1 = 8"
    by (simp_all add: file_addr_def file_start_inode size_defs)
  have u: "unat (600 :: uint) = 600" by simp
  show "file_ok file_start 0"
    unfolding file_ok_def Let_def file_start_inode u file_start_blocks
    using a by (auto simp: block_ok_def c fs_defs size_defs)
  show "own_blocks file_start 0"
    unfolding own_blocks_def Let_def file_start_inode u file_start_blocks
    using a by (auto simp: inj_on_def size_defs)
qed

lemma supplies_kbytes: "length bs < 2 ^ 32 \<Longrightarrow> supplies (kbytes bs) bs s"
proof -
  assume l: "length bs < 2 ^ 32"
  have "unat (of_nat k :: uint) = k" if "k + n \<le> length bs" for k n
    using l that by (simp add: unat_of_nat take_bit_nat_eq_self)
  then show ?thesis by (auto simp: supplies_def kbytes_def)
qed

lemma stores_kbuf: "stores kbuf n (\<lambda>bs m. m = k_mem s) s"
proof -
  have "kbuf off bs t = Ret () (t\<lparr>k_mem := k_mem t\<rparr>)" for off bs t by (simp add: kbuf_def)
  then show ?thesis unfolding stores_def by metis
qed

section \<open>Properties\<close>

text \<open>
  C17: \<^verbatim>\<open>readi\<close> returns the contents of the file. For a file whose blocks are allocated and any
  offset inside it, the bytes that go to the destination are those of the file from that
  offset on, as many as asked for or as there are up to its end, across block boundaries and
  through direct and indirect blocks; no block changes. Memory is then as the destination
  promises for these bytes.
\<close>

theorem readi_reads_file:
  assumes "can_read s" "file_ok s i" "stores put (unat n) J s"
    and "unat off \<le> unat (i_size (k_icache s ! i))" "unat off + unat n < 2 ^ 32"
  shows "\<exists>t bs. readi i put off n s = Ret (int (length bs), bs) t \<and> seen s t
    \<and> bs = take (unat n) (drop (unat off) (contents s i)) \<and> J bs (k_mem t)"
  using readi_contents [OF assms refl] by blast

theorem readi_reads_file_witness:
  "can_read file_start \<and> file_ok file_start 0 \<and> stores kbuf 300 (\<lambda>bs m. m = k_mem file_start) file_start
   \<and> (\<exists>t bs. readi 0 kbuf 500 300 file_start = Ret (int (length bs), bs) t \<and> seen file_start t
      \<and> bs = take 300 (drop 500 (contents file_start 0)))"
  using readi_reads_file [of file_start 0 kbuf 300 "\<lambda>bs m. m = k_mem file_start" 500] file_start_ok
    stores_kbuf [of 300 file_start] by (simp add: file_start_inode) blast

text \<open>In particular, a process finds the bytes of the file in its buffer.\<close>

lemma readi_user:
  assumes "can_read s" "file_ok s i" "user_buffer s a (unat n)"
    and "unat off \<le> unat (i_size (k_icache s ! i))" "unat off + unat n < 2 ^ 32"
    and "bs = take (unat n) (drop (unat off) (contents s i))"
  shows "\<exists>t. readi i (ubuf a) off n s = Ret (int (length bs), bs) t \<and> load_bytes a (length bs) t = Ret bs t"
proof -
  obtain f where f: "user_frames s a (unat n) f" using assms(3) by (auto simp: user_buffer_def)
  obtain t where t: "readi i (ubuf a) off n s = Ret (int (length bs), bs) t" "seen s t" "user_filled a f (k_mem s) bs (k_mem t)"
    using readi_contents [OF assms(1,2) stores_ubuf [OF f] assms(4-6)] by blast
  have "c_cr3 (k_cpu t) = c_cr3 (k_cpu s)" "length bs \<le> unat n" using seen_fields(9) [OF t(2)] assms(6) by simp_all
  then show ?thesis using filled_load [OF f t(3), of 0 "length bs"] t(1) by simp
qed

text \<open>
  C4: what \<^verbatim>\<open>writei\<close> writes, \<^verbatim>\<open>readi\<close> reads. Inside a transaction with room for the blocks
  concerned, writing into the allocated part of a file returns the number of bytes; the
  file's contents are then the old ones with those bytes replaced, no block but the file's
  own is different, and reading the same range delivers the bytes that were written.
\<close>

theorem writei_readi:
  assumes s: "txn s" "room s (Suc (span (unat off) (unat n)))" "file_ok s i" "own_blocks s i"
    and io: "supplies src bs s" "stores put (unat n) J s"
    and n: "length bs = unat n" "unat off + unat n \<le> unat (i_size (k_icache s ! i))"
  shows "\<exists>t u. writei i src off n s = Ret (int (length bs)) t
    \<and> contents t i = overwrite (contents s i) (unat off) bs
    \<and> (\<forall>b. b \<notin> file_addr s (k_icache s ! i) ` {k. k * BSIZE < unat (i_size (k_icache s ! i))} \<longrightarrow> blk t b = blk s b)
    \<and> readi i put off n t = Ret (int (length bs), bs) u \<and> J bs (k_mem u)"
proof -
  obtain t where t: "writei i src off n s = Ret (int (length bs)) t" "file_written s i (unat off) bs t" "room t 1"
    using writei_written [OF s io(1) n] by blast
  note f = file_written_file [OF t(2) s(3)]
  have c: "contents t i = overwrite (contents s i) (unat off) bs" using file_written_contents [OF t(2)] n by simp
  have "length (contents s i) = unat (i_size (k_icache s ! i))" by (simp add: contents_def Let_def)
  then have b: "bs = take (unat n) (drop (unat off) (contents t i))" using n unfolding c overwrite_def by simp
  have "can_read t" using f(3) [of 0] t(3) by simp
  moreover have "unat off + unat n < 2 ^ 32" using n(2) unat_bound [of "i_size (k_icache s ! i)"] by linarith
  moreover have "stores put (unat n) J t" using stores_cong [OF io(2)] t(2) by (simp add: file_written_def)
  ultimately obtain u where "readi i put off n t = Ret (int (length bs), bs) u" "J bs (k_mem u)"
    using readi_contents [of t i put n J off bs, OF _ f(1) _ _ _ b] n(2) unfolding f(2) by auto
  then show ?thesis using t(1,2) c unfolding file_written_def Let_def by blast
qed

theorem writei_readi_witness:
  "own_blocks file_start 0 \<and> (\<exists>t u. writei 0 (kbytes (replicate 20 65)) 500 20 file_start = Ret 20 t
    \<and> contents t 0 = overwrite (contents file_start 0) 500 (replicate 20 65)
    \<and> readi 0 kbuf 500 20 t = Ret (20, replicate 20 65) u)"
proof -
  have "room file_start (Suc (span (unat (500 :: uint)) (unat (20 :: uint))))"
    using file_start_ok(2) by (simp add: room_def span_def BSIZE_def)
  then show ?thesis
    using writei_readi [of file_start 500 20 0 "kbytes (replicate 20 65)" "replicate 20 65" kbuf "\<lambda>bs m. m = k_mem file_start"]
      file_start_ok supplies_kbytes [of "replicate 20 65" file_start] stores_kbuf [of 20 file_start]
    by (simp add: file_start_inode) blast
qed

end
