(* ===== verification/Ulib.thy ===== *)
theory Ulib
  imports Cstring
begin

text \<open>
  The library of the user programs (\<^verbatim>\<open>ulib.c\<close>, \<^verbatim>\<open>printf.c\<close>). A C string is the list of the bytes
  before its terminating zero; what is written to a file descriptor is a list of bytes.
\<close>

section \<open>Strings\<close>

definition cstring :: "uchar list \<Rightarrow> uchar list" where
  "cstring buf = takeWhile (\<lambda>c. c \<noteq> 0) buf"

definition strcpy :: "uchar list \<Rightarrow> uchar list \<Rightarrow> uchar list" where
  "strcpy s t = t @ 0 # drop (Suc (length t)) s"

fun strcmp :: "uchar list \<Rightarrow> uchar list \<Rightarrow> int" where
  "strcmp [] [] = 0"
| "strcmp [] (y # q) = - uint y"
| "strcmp (x # p) [] = uint x"
| "strcmp (x # p) (y # q) = (if x = y then strcmp p q else uint x - uint y)"

fun strchr :: "uchar list \<Rightarrow> uchar \<Rightarrow> nat option" where
  "strchr [] c = None"
| "strchr (x # s) c = (if x = c then Some 0 else map_option Suc (strchr s c))"

text \<open>The bytes that \<^verbatim>\<open>read(0, &c, 1)\<close> still delivers are the argument; the result has those left.\<close>

fun gets_loop :: "nat \<Rightarrow> uchar list \<Rightarrow> uchar list \<times> uchar list" where
  "gets_loop 0 inp = ([], inp)"
| "gets_loop (Suc k) [] = ([], [])"
| "gets_loop (Suc k) (c # inp) = (if c = 10 \<or> c = 13 then ([c], inp)
     else case gets_loop k inp of (cs, rest) \<Rightarrow> (c # cs, rest))"

definition gets_u :: "nat \<Rightarrow> uchar list \<Rightarrow> uchar list \<times> uchar list" where
  "gets_u nbuf inp = (case gets_loop (nbuf - 1) inp of (cs, rest) \<Rightarrow> (cs @ [0], rest))"

fun atoi_loop :: "uint \<Rightarrow> uchar list \<Rightarrow> uint" where
  "atoi_loop n [] = n"
| "atoi_loop n (c # s) = (if 48 \<le> c \<and> c \<le> 57 then atoi_loop (n * 10 + ucast c - 48) s else n)"

definition atoi :: "uchar list \<Rightarrow> int" where
  "atoi s = sint (atoi_loop 0 s)"

definition memset_u :: "memory \<Rightarrow> uint \<Rightarrow> uint \<Rightarrow> uint \<Rightarrow> memory" where
  "memset_u m dst c n = stosb m dst (ucast c) (unat n)"

definition memmove_u :: "memory \<Rightarrow> uint \<Rightarrow> uint \<Rightarrow> int \<Rightarrow> memory" where
  "memmove_u m vdst vsrc n = copy_fwd m vdst vsrc (nat n)"

section \<open>Formatted output\<close>

definition digit_u :: "nat \<Rightarrow> uchar" where
  "digit_u d = (if d < 10 then of_nat (48 + d) else of_nat (55 + d))"

fun digits_u :: "nat \<Rightarrow> nat \<Rightarrow> uchar list" where
  "digits_u base x = (if base < 2 \<or> x < base then [digit_u x]
     else digit_u (x mod base) # digits_u base (x div base))"

definition printint_u :: "uint \<Rightarrow> nat \<Rightarrow> bool \<Rightarrow> uchar list" where
  "printint_u xx base sgd = (let neg = (sgd \<and> sint xx < 0); x = (if neg then - xx else xx) in
     rev (digits_u base (unat x) @ (if neg then [45] else [])))"

text \<open>
  The loop of \<^verbatim>\<open>printf\<close>: \<open>pct\<close> is set after a percent sign, \<open>ap\<close> are the argument words not yet
  used, \<open>str a\<close> is the string at address \<open>a\<close>.
\<close>

definition null_text :: "uchar list" where
  "null_text = [40, 110, 117, 108, 108, 41]"

fun printf_loop :: "(uint \<Rightarrow> uchar list) \<Rightarrow> bool \<Rightarrow> uchar list \<Rightarrow> (nat \<Rightarrow> uint) \<Rightarrow> nat \<Rightarrow> uchar list" where
  "printf_loop str pct [] ap k = []"
| "printf_loop str pct (c # fmt) ap k =
     (if \<not> pct then (if c = 37 then printf_loop str True fmt ap k else c # printf_loop str False fmt ap k)
      else if c = 100 then printint_u (ap k) 10 True @ printf_loop str False fmt ap (Suc k)
      else if c = 120 \<or> c = 112 then printint_u (ap k) 16 False @ printf_loop str False fmt ap (Suc k)
      else if c = 115 then (if ap k = 0 then null_text else str (ap k)) @ printf_loop str False fmt ap (Suc k)
      else if c = 99 then ucast (ap k) # printf_loop str False fmt ap (Suc k)
      else if c = 37 then c # printf_loop str False fmt ap k
      else 37 # c # printf_loop str False fmt ap k)"

definition printf :: "(uint \<Rightarrow> uchar list) \<Rightarrow> uchar list \<Rightarrow> (nat \<Rightarrow> uint) \<Rightarrow> uchar list" where
  "printf str fmt ap = printf_loop str False fmt ap 0"

section \<open>Facts\<close>

lemma strchr_find_idx: "strchr s c = find_idx (\<lambda>x. x = c) s"
  by (induction s) simp_all

lemma uint_diff_0: "uint x - uint y = 0 \<longleftrightarrow> x = (y :: uchar)"
  using word_uint_eq_iff [of x y] by linarith

lemma uint_is_0: "uint x = 0 \<longleftrightarrow> x = (0 :: uchar)"
  using uint_diff_0 [of x 0] by simp

lemma strcmp_eq: "strcmp p q = 0 \<longleftrightarrow> p = q" if "0 \<notin> set p" "0 \<notin> set q"
  using that by (induction p q rule: strcmp.induct) (auto simp del: right_minus_eq simp: uint_diff_0 uint_is_0)

lemma gets_split:
  assumes "gets_loop k inp = (cs, rest)"
  shows "inp = cs @ rest" "length cs \<le> k"
  using assms by (induction k inp arbitrary: cs rest rule: gets_loop.induct) (auto split: if_splits prod.splits)

declare digits_u.simps [simp del]

lemma digit_u_decimal: "d < 10 \<Longrightarrow> 48 \<le> digit_u d \<and> digit_u d \<le> 57 \<and> (ucast (digit_u d) :: uint) = of_nat d + 48"
proof -
  assume "d < 10"
  then have "d \<in> {0, 1, 2, 3, 4, 5, 6, 7, 8, 9}" by auto
  then show ?thesis by (auto simp: digit_u_def)
qed

lemma digits_u_decimal: "c \<in> set (digits_u 10 x) \<Longrightarrow> 48 \<le> c \<and> c \<le> 57"
proof (induction "10 :: nat" x rule: digits_u.induct)
  case (1 x)
  have "x mod 10 < 10" by simp
  then show ?case using 1 digit_u_decimal [of x] digit_u_decimal [of "x mod 10"]
    by (auto simp: digits_u.simps [of 10 x] split: if_splits)
qed

lemma atoi_loop_snoc:
  assumes "\<forall>c\<in>set cs. 48 \<le> c \<and> c \<le> 57" "48 \<le> c" "c \<le> 57"
  shows "atoi_loop n (cs @ [c]) = atoi_loop n cs * 10 + ucast c - 48"
  using assms by (induction cs arbitrary: n) auto

lemma atoi_digits: "atoi_loop 0 (rev (digits_u 10 x)) = of_nat x"
proof (induction "10 :: nat" x rule: digits_u.induct)
  case (1 x)
  show ?case
  proof (cases "x < 10")
    case True
    then show ?thesis using digit_u_decimal [of x] by (simp add: digits_u.simps [of 10 x])
  next
    case False
    have d: "x mod 10 < 10" by simp
    have "(of_nat x :: uint) = of_nat (x div 10 * 10 + x mod 10)" by simp
    also have "\<dots> = of_nat (x div 10) * 10 + of_nat (x mod 10)" by (simp only: of_nat_add of_nat_mult of_nat_numeral)
    finally have "(of_nat x :: uint) = of_nat (x div 10) * 10 + of_nat (x mod 10)" .
    then show ?thesis
      using False 1 digit_u_decimal [OF d] digits_u_decimal by (simp add: digits_u.simps [of 10 x] atoi_loop_snoc)
  qed
qed

text \<open>\<^verbatim>\<open>atoi\<close> reads back what \<^verbatim>\<open>printf\<close> printed with \<^verbatim>\<open>%d\<close> for a number that is not negative.\<close>

lemma printf_atoi: "0 \<le> sint (ap 0) \<Longrightarrow> atoi (printf str [37, 100] ap) = sint (ap 0)"
  by (simp add: printf_def printint_u_def atoi_def atoi_digits)

end
