(* ===== verification/Grep.thy ===== *)
theory Grep
  imports Ulib
begin

text \<open>
  The user program \<^verbatim>\<open>grep.c\<close>: the pattern matcher and the loop that prints the matching lines of
  its input. A C string is the list of the bytes before its terminating zero. The system call
  \<^verbatim>\<open>read\<close> is a parameter of the loop.
\<close>

section \<open>The matcher\<close>

function (sequential) matchhere :: "uchar list \<Rightarrow> uchar list \<Rightarrow> bool"
    and matchstar :: "uchar \<Rightarrow> uchar list \<Rightarrow> uchar list \<Rightarrow> bool" where
  "matchhere [] str = True"
| "matchhere (c # re) str =
     (if re \<noteq> [] \<and> hd re = 42 then matchstar c (tl re) str
      else if c = 36 \<and> re = [] then str = []
      else if str \<noteq> [] \<and> (c = 46 \<or> c = hd str) then matchhere re (tl str)
      else False)"
| "matchstar c re str =
     (if matchhere re str then True
      else if str \<noteq> [] \<and> (hd str = c \<or> c = 46) then matchstar c re (tl str)
      else False)"
  by pat_completeness auto
termination
  by (relation "measure (\<lambda>x. case x of Inl (re, str) \<Rightarrow> 2 * length re + length str
        | Inr (c, re, str) \<Rightarrow> 2 * length re + length str + 1)") (auto simp: neq_Nil_conv)

fun match_from :: "uchar list \<Rightarrow> uchar list \<Rightarrow> bool" where
  "match_from re [] = matchhere re []"
| "match_from re (c # str) = (if matchhere re (c # str) then True else match_from re str)"

definition match :: "uchar list \<Rightarrow> uchar list \<Rightarrow> bool" where
  "match re str = (if re \<noteq> [] \<and> hd re = 94 then matchhere (tl re) str else match_from re str)"

section \<open>The loop over the lines\<close>

text \<open>
  The inner loop, on the bytes of \<^verbatim>\<open>buf\<close> from \<^verbatim>\<open>p\<close> to the zero at \<^verbatim>\<open>buf[m]\<close>: what it writes and the
  bytes from its final \<^verbatim>\<open>p\<close> on.
\<close>

function grep_lines :: "uchar list \<Rightarrow> uchar list \<Rightarrow> uchar list \<times> uchar list" where
  "grep_lines pattern p = (case strchr (cstring p) 10 of
     None \<Rightarrow> ([], p)
   | Some q \<Rightarrow> (case grep_lines pattern (drop (Suc q) p) of (out, rest) \<Rightarrow>
       ((if match pattern (take q p) then take (Suc q) p else []) @ out, rest)))"
  by pat_completeness auto
termination
proof (relation "measure (\<lambda>(pattern, p). length p)")
  fix pattern p q
  assume "strchr (cstring p) 10 = Some q"
  then have "q < length (cstring p)" by (auto simp: strchr_find_idx dest: find_idx_SomeD)
  also have "\<dots> \<le> length p" by (simp add: cstring_def length_takeWhile_le)
  finally show "((pattern, drop (Suc q) p), (pattern, p)) \<in> measure (\<lambda>(pattern, p). length p)" by simp
qed simp

text \<open>
  The outer loop. \<open>rd n f\<close> is \<^verbatim>\<open>read\<close> of at most \<open>n\<close> bytes in state \<open>f\<close> of the descriptor, with no
  bytes at the end of the file or on an error; \<open>m\<close> are the bytes kept in \<^verbatim>\<open>buf\<close>.
\<close>

definition keep :: "uchar list \<Rightarrow> uchar list \<Rightarrow> uchar list" where
  "keep buf p = (if length p = length buf then [] else p)"

partial_function (option) grep_loop ::
    "(nat \<Rightarrow> 'f \<Rightarrow> uchar list \<times> 'f) \<Rightarrow> uchar list \<Rightarrow> uchar list \<Rightarrow> 'f \<Rightarrow> uchar list option" where
  "grep_loop rd pattern m f = (case rd (1024 - length m - 1) f of (bs, f') \<Rightarrow>
     if bs = [] then Some []
     else case grep_lines pattern (m @ bs) of (out, p) \<Rightarrow>
       Option.bind (grep_loop rd pattern (keep (m @ bs) p) f') (\<lambda>more. Some (out @ more)))"

definition grep :: "(nat \<Rightarrow> 'f \<Rightarrow> uchar list \<times> 'f) \<Rightarrow> uchar list \<Rightarrow> 'f \<Rightarrow> uchar list option" where
  "grep rd pattern f = grep_loop rd pattern [] f"

section \<open>What a pattern means\<close>

text \<open>
  A pattern is a sequence of atoms, each once or any number of times; a dot is an atom for
  every byte. A dollar sign at the end of the pattern stands for the end of the text, a
  circumflex at its beginning for the start.
\<close>

datatype item = One uchar | Many uchar | End

fun items :: "uchar list \<Rightarrow> item list" where
  "items [] = []"
| "items [c] = [if c = 36 then End else One c]"
| "items (c # d # re) = (if d = 42 then Many c # items re else One c # items (d # re))"

definition stands_for :: "uchar \<Rightarrow> uchar \<Rightarrow> bool" where
  "stands_for c x \<longleftrightarrow> c = 46 \<or> c = x"

text \<open>\<open>denotes is w r\<close>: the text \<open>w\<close> followed by \<open>r\<close> is matched by the items with the part \<open>w\<close>.\<close>

inductive denotes :: "item list \<Rightarrow> uchar list \<Rightarrow> uchar list \<Rightarrow> bool" where
  denotes_Nil: "denotes [] [] r"
| denotes_End: "denotes [End] [] []"
| denotes_One: "stands_for c x \<Longrightarrow> denotes its w r \<Longrightarrow> denotes (One c # its) (x # w) r"
| denotes_Many: "\<forall>x\<in>set u. stands_for c x \<Longrightarrow> denotes its w r \<Longrightarrow> denotes (Many c # its) (u @ w) r"

inductive_cases denotes_NilE: "denotes [] w r"
inductive_cases denotes_EndE: "denotes (End # its) w r"
inductive_cases denotes_OneE: "denotes (One c # its) w r"
inductive_cases denotes_ManyE: "denotes (Many c # its) w r"

definition found :: "uchar list \<Rightarrow> uchar list \<Rightarrow> bool" where
  "found re str \<longleftrightarrow> (\<exists>w r. str = w @ r \<and> denotes (items re) w r)"

lemma denotes_Many_step:
  "(\<exists>w r. str = w @ r \<and> denotes (Many c # its) w r) \<longleftrightarrow>
     (\<exists>w r. str = w @ r \<and> denotes its w r)
     \<or> (\<exists>x ts. str = x # ts \<and> stands_for c x \<and> (\<exists>w r. ts = w @ r \<and> denotes (Many c # its) w r))"
    (is "?l \<longleftrightarrow> ?a \<or> ?b")
proof
  assume ?l
  then obtain u w r where t: "str = (u @ w) @ r" "\<forall>x\<in>set u. stands_for c x" "denotes its w r"
    by (auto elim: denotes_ManyE)
  show "?a \<or> ?b"
  proof (cases u)
    case (Cons x v)
    then have "denotes (Many c # its) (v @ w) r" using t by (intro denotes_Many) auto
    then show ?thesis using t Cons by auto
  qed (use t in auto)
next
  assume "?a \<or> ?b"
  then show ?l
  proof
    assume ?a
    then obtain w r where "denotes its w r" "str = w @ r" by blast
    then show ?l using denotes_Many [of "[]" c its w r] by auto
  next
    assume ?b
    then obtain x u w r where "str = x # (u @ w) @ r" "stands_for c x" "\<forall>y\<in>set u. stands_for c y" "denotes its w r"
      by (auto elim: denotes_ManyE)
    then have "denotes (Many c # its) ((x # u) @ w) r" "str = ((x # u) @ w) @ r"
      using denotes_Many [of "x # u" c its w r] by simp_all
    then show ?l by blast
  qed
qed

lemma denotes_One_step:
  "(\<exists>w r. str = w @ r \<and> denotes (One c # its) w r) \<longleftrightarrow>
     (\<exists>x ts. str = x # ts \<and> stands_for c x \<and> (\<exists>w r. ts = w @ r \<and> denotes its w r))"
    (is "?l \<longleftrightarrow> ?r")
proof
  show "?l \<Longrightarrow> ?r" by (auto elim!: denotes_OneE) blast
  assume ?r
  then obtain x w r where "str = (x # w) @ r" "stands_for c x" "denotes its w r" by auto
  then show ?l using denotes_One by blast
qed

lemma found_End: "found [36] str \<longleftrightarrow> str = []"
  by (auto simp: found_def intro: denotes_End elim: denotes_EndE)

lemma found_Nil: "found [] str"
  using denotes_Nil by (auto simp: found_def)

lemma matchhere_found:
  "matchhere re str = found re str"
  "matchstar c re str = (\<exists>w r. str = w @ r \<and> denotes (Many c # items re) w r)"
proof (induction re str and c re str rule: matchhere_matchstar.induct)
  case (1 str)
  then show ?case by (simp add: found_Nil)
next
  case (2 c re str)
  show ?case
  proof (cases re)
    case Nil
    have "found [c] str \<longleftrightarrow> str \<noteq> [] \<and> stands_for c (hd str)" if "c \<noteq> 36"
      using that denotes_Nil denotes_One_step [of str c "[]"] by (cases str) (auto simp: found_def)
    then show ?thesis using Nil by (auto simp: found_End stands_for_def)
  next
    case (Cons d re')
    show ?thesis
    proof (cases "d = 42")
      case True
      then show ?thesis using Cons 2(1) by (simp add: found_def)
    next
      case False
      have "found (c # re) str \<longleftrightarrow> str \<noteq> [] \<and> stands_for c (hd str) \<and> found re (tl str)"
        using Cons False denotes_One_step [of str c "items re"] by (cases str) (auto simp: found_def)
      moreover have "matchhere re (tl str) = found re (tl str)" if "str \<noteq> []" "stands_for c (hd str)"
        using that Cons False 2(2) by (simp add: stands_for_def)
      ultimately show ?thesis using Cons False by (auto simp: stands_for_def)
    qed
  qed
next
  case (3 c re str)
  show ?case
    using 3 denotes_Many_step [of str c "items re"] by (cases str) (auto simp: found_def stands_for_def)
qed

lemma match_from_found: "match_from re str \<longleftrightarrow> (\<exists>u v. str = u @ v \<and> found re v)"
proof (induction str)
  case (Cons x str)
  have "(\<exists>u v. x # str = u @ v \<and> found re v) \<longleftrightarrow> found re (x # str) \<or> (\<exists>u v. str = u @ v \<and> found re v)"
    by (auto simp: Cons_eq_append_conv)
  then show ?case using Cons by (simp add: matchhere_found(1))
qed (simp add: matchhere_found(1))

section \<open>Matching lines\<close>

declare grep_lines.simps [simp del]

definition lines_text :: "uchar list list \<Rightarrow> uchar list" where
  "lines_text ls = concat (map (\<lambda>l. l @ [10]) ls)"

definition plain_line :: "uchar list \<Rightarrow> bool" where
  "plain_line l \<longleftrightarrow> 10 \<notin> set l \<and> 0 \<notin> set l \<and> length l < 1023"

text \<open>What \<^verbatim>\<open>read\<close> does on a regular file, with the rest of the file as the state.\<close>

definition read_file :: "nat \<Rightarrow> uchar list \<Rightarrow> uchar list \<times> uchar list" where
  "read_file n f = (take n f, drop n f)"

lemma lines_text_simps [simp]: "lines_text [] = []" "lines_text (l # ls) = l @ 10 # lines_text ls"
  by (simp_all add: lines_text_def)

lemma strchr_line: "10 \<notin> set l \<Longrightarrow> strchr (l @ 10 # r) 10 = Some (length l)"
  by (induction l) auto

lemma strchr_none: "c \<notin> set l \<Longrightarrow> strchr l c = None"
  by (induction l) auto

lemma cstring_plain: "0 \<notin> set l \<Longrightarrow> cstring l = l"
  unfolding cstring_def by (rule takeWhile_eq_all_conv [THEN iffD2]) auto

lemma grep_lines_line:
  assumes "10 \<notin> set l" "0 \<notin> set l" "grep_lines re r = (out, rest)"
  shows "grep_lines re (l @ 10 # r) = ((if match re l then l @ [10] else []) @ out, rest)"
proof -
  have "cstring (l @ 10 # r) = l @ 10 # cstring r"
    using assms(2) by (auto simp: cstring_def takeWhile_append)
  then show ?thesis using assms(1,3) by (simp add: grep_lines.simps [of re "l @ 10 # r"] strchr_line)
qed

lemma grep_lines_none: "10 \<notin> set p \<Longrightarrow> grep_lines re p = ([], p)"
proof -
  assume "10 \<notin> set p"
  then have "10 \<notin> set (cstring p)" using set_takeWhileD [of 10 _ p] by (auto simp: cstring_def)
  then show ?thesis by (simp add: grep_lines.simps [of re p] strchr_none)
qed

text \<open>The buffer is a part of the lines to come: whole lines are handled, the rest is left.\<close>

lemma grep_lines_part:
  assumes "s @ f = lines_text ls" "\<forall>l\<in>set ls. plain_line l"
  shows "\<exists>ms ns p. ls = ms @ ns \<and> grep_lines re s = (lines_text (filter (match re) ms), p)
    \<and> p @ f = lines_text ns \<and> 10 \<notin> set p \<and> s = lines_text ms @ p"
  using assms
proof (induction ls arbitrary: s)
  case Nil
  then show ?case by (auto simp: grep_lines_none)
next
  case (Cons l ls)
  have l: "10 \<notin> set l" "0 \<notin> set l" using Cons.prems(2) by (auto simp: plain_line_def)
  show ?case
  proof (cases "length s \<le> length l")
    case True
    then have "set s \<subseteq> set l" using Cons.prems(1) by (auto simp: append_eq_append_conv2)
    then have "10 \<notin> set s" using l by blast
    then show ?thesis using Cons.prems
      by (intro exI [of _ "[]"] exI [of _ "l # ls"] exI [of _ s]) (simp add: grep_lines_none)
  next
    case False
    then obtain s' where s: "s = l @ 10 # s'" "s' @ f = lines_text ls"
      using Cons.prems(1) by (auto simp: append_eq_append_conv2 append_eq_Cons_conv)
    obtain ms ns p where "ls = ms @ ns" "grep_lines re s' = (lines_text (filter (match re) ms), p)"
        "p @ f = lines_text ns" "10 \<notin> set p" "s' = lines_text ms @ p"
      using Cons.IH [OF s(2)] Cons.prems(2) by auto
    then show ?thesis using grep_lines_line [OF l, of re s'] s(1)
      by (intro exI [of _ "l # ms"] exI [of _ ns] exI [of _ p]) simp
  qed
qed

lemma grep_loop_lines:
  assumes "m @ f = lines_text ls" "\<forall>l\<in>set ls. plain_line l" "10 \<notin> set m" "length m < 1023"
  shows "grep_loop read_file re m f = Some (lines_text (filter (match re) ls))"
  using assms
proof (induction "length f" arbitrary: m f ls rule: less_induct)
  case less
  show ?case
  proof (cases "f = []")
    case True
    then have "ls = []" using less.prems(1,3) by (cases ls) auto
    then show ?thesis using True by (simp add: grep_loop.simps [of _ _ m] read_file_def)
  next
    case False
    define n where "n = 1023 - length m"
    have n: "1024 - length m - 1 = n" "0 < n" using less.prems(4) by (simp_all add: n_def)
    let ?s = "m @ take n f"
    have "?s @ drop n f = lines_text ls" using less.prems(1) by simp
    from grep_lines_part [OF this less.prems(2)] obtain ms ns p where g: "ls = ms @ ns"
        "grep_lines re ?s = (lines_text (filter (match re) ms), p)" "p @ drop n f = lines_text ns" "10 \<notin> set p"
        "?s = lines_text ms @ p" by blast
    have "ms \<noteq> []"
    proof
      assume "ms = []"
      then obtain l ls' where ls: "ns = l # ls'" "ls = l # ls'" "p = ?s"
        using g(1,3,5) False n(2) by (cases ns) auto
      have "length p \<le> length l"
        using g(3,4) unfolding ls(1) by (auto simp: append_eq_append_conv2 append_eq_Cons_conv)
      moreover have "length l < 1023" using less.prems(2) ls(2) by (simp add: plain_line_def)
      ultimately have "length ?s < 1023" using ls(3) by simp
      then have "n \<ge> length f" using n_def by (simp add: min_def split: if_splits)
      then show False using g(3,4) ls(1) by auto
    qed
    then have "length p < length ?s" unfolding g(5) by (cases ms) auto
    moreover have "length ?s \<le> 1023" using less.prems(4) by (simp add: n_def)
    ultimately have k: "keep ?s p = p" "length p < 1023" by (auto simp: keep_def)
    have "length (drop n f) < length f" using n(2) False by (cases f) auto
    then have "grep_loop read_file re p (drop n f) = Some (lines_text (filter (match re) ns))"
      using less.hyps g(1,3,4) k(2) less.prems(2) by simp
    then show ?thesis using False n g k by (simp add: grep_loop.simps [of _ _ m] read_file_def lines_text_def)
  qed
qed

section \<open>Properties\<close>

text \<open>
  C35: the matcher of \<^verbatim>\<open>grep\<close> decides the language of its patterns. A line matches exactly when
  some part of it, starting at its beginning if the pattern begins with a circumflex, is a
  sequence of bytes the items of the pattern stand for, with a starred item standing for any
  number of bytes, and with the end of the line behind it if the pattern ends in a dollar sign.
\<close>

theorem match_correct:
  "match re str \<longleftrightarrow> (if re \<noteq> [] \<and> hd re = 94 then \<exists>w r. str = w @ r \<and> denotes (items (tl re)) w r
     else \<exists>u w r. str = u @ w @ r \<and> denotes (items re) w r)"
  by (auto simp: match_def matchhere_found(1) match_from_found found_def)

text \<open>
  C36: \<^verbatim>\<open>grep\<close> on a file ends and prints the matching lines, in order, and nothing else, however
  the lines lie across the reads that fill its buffer of 1024 bytes. The lines are shorter
  than the buffer, end in a newline and have no zero byte.
\<close>

theorem grep_prints_matches:
  assumes "\<forall>l\<in>set ls. plain_line l"
  shows "grep read_file re (lines_text ls) = Some (lines_text (filter (match re) ls))"
  using grep_loop_lines [of "[]" "lines_text ls" ls re] assms by (simp add: grep_def)

theorem grep_prints_matches_witness:
  "plain_line [97, 98] \<and> grep read_file [94, 97, 46, 42, 36] (lines_text [[97, 98], [98], [97]])
     = Some (lines_text [[97, 98], [97]])"
proof -
  have p: "\<forall>l\<in>set [[97, 98], [98], [97]]. plain_line l" by (simp add: plain_line_def)
  have "match [94, 97, 46, 42, 36] [97, 98]" "\<not> match [94, 97, 46, 42, 36] [98]" "match [94, 97, 46, 42, 36] [97]"
    by (simp_all add: match_def)
  then show ?thesis using grep_prints_matches [OF p, of "[94, 97, 46, 42, 36]"] p by simp
qed

end
