(* ===== verification/Spec2Isabelle.thy ===== *)
theory Spec2Isabelle
  imports Wellformed Arguments Filedata Grep
begin

text \<open>
  A verification of the xv6 kernel with kernel threads (\<^verbatim>\<open>src/\<close>).

  \<^bold>\<open>The program.\<close> The kernel is a C program of some thirty files. At the bottom are spin locks,
  string routines, a page allocator, two-level page tables and the device drivers. On them
  rest the process table with its scheduler and the \<^verbatim>\<open>sleep\<close>/\<^verbatim>\<open>wakeup\<close> pair, and a file system in
  layers: disk driver, buffer cache, write-ahead log, block bitmap and inodes, directories
  and paths, open files. Processes and threads (\<^verbatim>\<open>clone\<close> makes a process that shares its
  creator's page directory), pipes, the console, program loading and the system call
  dispatcher use both; \<^verbatim>\<open>trap\<close> enters the kernel and \<^verbatim>\<open>main\<close> starts it.

  \<^bold>\<open>The state and its effects.\<close> The kernel's globals are the fields of one record, \<^typ>\<open>kernel\<close>
  (theory \<^verbatim>\<open>Kernel_State\<close>): the process table, the CPUs, the tables of files, inodes and buffers,
  the log, the pipes (by address), the console, the disks, the port writes, and memory as a
  function from addresses to bytes. A pointer into a table is an index into a list, a null
  pointer is \<^const>\<open>None\<close>; pages, page tables and pipes are addresses. C integers are words of their
  width where they can wrap (\<^verbatim>\<open>uint\<close>, \<^verbatim>\<open>uchar\<close>, \<^verbatim>\<open>ushort\<close>), and unbounded integers for counters of type
  \<^verbatim>\<open>int\<close> whose overflow no run can reach. A piece of kernel code is a function \<^typ>\<open>'a kern\<close> from states
  to outcomes (theory \<^verbatim>\<open>Prelude\<close>): it returns a value (\<^const>\<open>Ret\<close>), it calls \<^verbatim>\<open>panic\<close> (\<^const>\<open>Panic\<close>), it
  gives up the CPU inside \<^verbatim>\<open>sched\<close> (\<^const>\<open>Switch\<close>, with the state other processes go on from), or it
  never ends (\<^const>\<open>Spin\<close>: a spin lock that is not free, \<^verbatim>\<open>halt\<close>). Code that sleeps is therefore
  split where it sleeps: the part before is one definition, the loop that runs again after
  the wake-up is another (\<^const>\<open>bget_loop\<close>, \<^const>\<open>begin_op_loop\<close>, \<^const>\<open>wait_loop\<close>, \<^const>\<open>iderw_wait\<close>, and so on).
  Several CPUs are modelled where the code depends on their order: \<^const>\<open>smp_step\<close> interleaves the
  statements of \<^const>\<open>acquire_stmts\<close>, \<^const>\<open>release_stmts\<close>, \<^const>\<open>sleep_stmts\<close> and \<^const>\<open>wakeup_stmts\<close>, of which
  \<^const>\<open>acquire\<close>, \<^const>\<open>release\<close>, \<^const>\<open>sleep\<close> and \<^const>\<open>wakeup\<close> are made, on any number of CPUs with their own
  registers and a common rest of the state. Elsewhere a definition is one CPU's run between two
  switches, which the lock it holds makes atomic.

  \<^bold>\<open>Loops and fuel.\<close> A loop of the source is \<^const>\<open>for_each\<close> over a fixed range, structural recursion,
  or \<^const>\<open>loop\<close> with a number of rounds; running out of rounds is \<^const>\<open>Spin\<close>, so no theorem that ends in
  \<^const>\<open>Ret\<close> can hold by running out. The bounds come from the types: \<^verbatim>\<open>NPAGES = 2^20\<close> pages of a 32-bit
  address space for the loops of \<^verbatim>\<open>vm.c\<close> and \<^verbatim>\<open>kalloc.c\<close>, \<^verbatim>\<open>NBUF + 1\<close> list cells for the searches of
  \<^verbatim>\<open>bio.c\<close> and the disk queue, \<^verbatim>\<open>2^20\<close> bitmap blocks of 4096 bits in a 32-bit block number for
  \<^const>\<open>balloc\<close>, the length of the path for \<^const>\<open>namex\<close> (\<^verbatim>\<open>Fs.namex_terminates\<close> shows that more rounds
  change nothing), the number of bytes for \<^const>\<open>readi\<close> and \<^const>\<open>writei\<close>.

  \<^bold>\<open>The theories\<close>, each over the ones before it:
  \<^item> \<^verbatim>\<open>Prelude\<close>: outcomes, the sequencing of kernel code, weakest preconditions (\<^verbatim>\<open>wp\<close>, collection
    \<^verbatim>\<open>wp_simps\<close>), loop rules, list and word lemmas. \<^verbatim>\<open>Memory\<close>, \<^verbatim>\<open>Bytes\<close>: loads, stores and byte
    fields (\<^verbatim>\<open>mmu.h\<close>, \<^verbatim>\<open>memlayout.h\<close>, \<^verbatim>\<open>types.h\<close>). \<^verbatim>\<open>Kernel_State\<close>: the structs of the headers.
  \<^item> \<^verbatim>\<open>Spinlock\<close> (\<^verbatim>\<open>spinlock.c\<close>): \<^verbatim>\<open>pushcli\<close>/\<^verbatim>\<open>popcli\<close>, \<^verbatim>\<open>acquire\<close>/\<^verbatim>\<open>release\<close>; the interface \<^verbatim>\<open>lock_interface\<close>
    under which every later component reasons about its critical sections; mutual exclusion
    of any number of CPUs whose statements interleave, and that locks released in any order
    restore the interrupt flag.
  \<^item> \<^verbatim>\<open>Cstring\<close> (\<^verbatim>\<open>string.c\<close>): overlapping \<^verbatim>\<open>memmove\<close>, the word-wise \<^verbatim>\<open>memset\<close> and the bounded copies
    against list functions.
  \<^item> \<^verbatim>\<open>Kalloc\<close> (\<^verbatim>\<open>kalloc.c\<close>): the free list through the free pages refines a stack of pages (interface
    \<^verbatim>\<open>page_pool\<close>).
  \<^item> \<^verbatim>\<open>Vm\<close> (\<^verbatim>\<open>vm.c\<close>): page tables in memory; \<^verbatim>\<open>mappages\<close> adds one translation and keeps every other,
    \<^verbatim>\<open>allocuvm\<close> grows an address space by fresh zeroed pages or undoes what it did.
  \<^item> \<^verbatim>\<open>Ptable\<close> (first half of \<^verbatim>\<open>proc.c\<close>): slots, the scheduler's round, \<^verbatim>\<open>sleep\<close>, \<^verbatim>\<open>wakeup\<close>, \<^verbatim>\<open>kill\<close>; no wake-up
    is lost between the locks of a sleeper and its wakers on other CPUs, and every process that stays
    runnable is switched to within a round, running in its own address space.
  \<^item> \<^verbatim>\<open>Devices\<close> (\<^verbatim>\<open>picirq.c\<close>, \<^verbatim>\<open>ioapic.c\<close>, \<^verbatim>\<open>timer.c\<close>, \<^verbatim>\<open>uart.c\<close>, \<^verbatim>\<open>lapic.c\<close>), \<^verbatim>\<open>Ide\<close> (\<^verbatim>\<open>ide.c\<close>, \<^verbatim>\<open>memide.c\<close>):
    registers and ports as traces; the request queue of the disk refines a first-in
    first-out list.
  \<^item> \<^verbatim>\<open>Bio\<close> (\<^verbatim>\<open>bio.c\<close>): the linked list of buffers refines a list in order of use; a block read is
    the block on disk or the newer one in the cache.
  \<^item> \<^verbatim>\<open>Log\<close> (\<^verbatim>\<open>log.c\<close>): a commit cut off after any number of disk writes is undone or completed by
    recovery; \<^verbatim>\<open>end_op\<close> makes the transaction durable; absorption.
  \<^item> \<^verbatim>\<open>Inode\<close>, \<^verbatim>\<open>Fs\<close> (\<^verbatim>\<open>fs.c\<close>): bitmap, inode cache, on-disk inodes, file contents, directories, paths.
  \<^item> \<^verbatim>\<open>Ring\<close>: ring buffers with counters that wrap, and the interface \<^verbatim>\<open>bounded_queue\<close>; \<^verbatim>\<open>Console\<close>
    (\<^verbatim>\<open>console.c\<close>, \<^verbatim>\<open>kbd.c\<close>) and \<^verbatim>\<open>Pipe\<close> (\<^verbatim>\<open>pipe.c\<close>) implement it: pipes are byte queues, the console
    input is a line editor over a queue of finished lines.
  \<^item> \<^verbatim>\<open>File\<close> (\<^verbatim>\<open>file.c\<close>), \<^verbatim>\<open>Process\<close> (rest of \<^verbatim>\<open>proc.c\<close>, \<^verbatim>\<open>thread.c\<close>), \<^verbatim>\<open>Exec\<close> (\<^verbatim>\<open>exec.c\<close>, \<^verbatim>\<open>elf.h\<close>), \<^verbatim>\<open>Syscall\<close>
    (\<^verbatim>\<open>syscall.c\<close>, \<^verbatim>\<open>sysproc.c\<close>, \<^verbatim>\<open>sysfile.c\<close>), \<^verbatim>\<open>Boot\<close> (\<^verbatim>\<open>trap.c\<close>, \<^verbatim>\<open>mp.c\<close>, \<^verbatim>\<open>main.c\<close>).
  \<^item> The theories of properties that span components. \<^verbatim>\<open>Filedata\<close>: a file as a list of bytes;
    \<^verbatim>\<open>readi\<close> returns it and \<^verbatim>\<open>writei\<close> replaces a part of it, through allocated direct and
    indirect blocks, cache and log. \<^verbatim>\<open>Usermem\<close> and \<^verbatim>\<open>Userio\<close>: user addresses, and
    that what \<^verbatim>\<open>piperead\<close> and \<^verbatim>\<open>readi\<close> deliver arrives in the buffer of the process, across its
    pages. \<^verbatim>\<open>Threads\<close>: the hand-over
    of an exit value from \<^verbatim>\<open>exit_thread\<close> to \<^verbatim>\<open>wait_thread\<close>, and the lock a failed \<^verbatim>\<open>thread_join\<close> keeps.
    \<^verbatim>\<open>Arguments\<close>: what the argument fetching of \<^verbatim>\<open>syscall.c\<close> accepts lies inside the process.
  \<^item> \<^verbatim>\<open>Preserve\<close> and \<^verbatim>\<open>Wellformed\<close>: a calculus of invariants (collection \<^verbatim>\<open>wlp\<close>) and the invariant of
    the whole kernel: every table has its size and every stored index is inside its table.
    Each operation keeps it, so \<^verbatim>\<open>trap\<close> does, for every interrupt and every system call.
  \<^item> \<^verbatim>\<open>Ulib\<close> (\<^verbatim>\<open>ulib.c\<close>, \<^verbatim>\<open>printf.c\<close>) and \<^verbatim>\<open>Grep\<close> (\<^verbatim>\<open>grep.c\<close>), in user space and apart from the kernel's
    state: the pattern matcher against the language of its patterns, and the loop that prints
    the matching lines of a file. Its outer loop ends only with its input and is a partial
    function, whose result on a file is shown to exist.

  \<^bold>\<open>Parameters.\<close> What a device answers (status of the disk controller, the characters in the
  keyboard and serial buffers, the clock, the tables left by the BIOS) is an argument of the
  definition that reads it, as is what another CPU does when it is started.

  \<^bold>\<open>Not modelled.\<close> The assembly files (\<^verbatim>\<open>entry.S\<close>, \<^verbatim>\<open>trapasm.S\<close>, \<^verbatim>\<open>swtch.S\<close>, \<^verbatim>\<open>bootasm.S\<close> and others): below the
  level of the state here; \<^verbatim>\<open>swtch\<close> appears as \<^const>\<open>Switch\<close>. The boot loader \<^verbatim>\<open>bootmain.c\<close>: runs before
  the kernel, on ports only. Segment and gate descriptors (\<^verbatim>\<open>seginit\<close>, the table of \<^verbatim>\<open>tvinit\<close>):
  constant after start-up. The return addresses \<^verbatim>\<open>acquire\<close> keeps for debugging. The other
  user programs, the user-space allocator \<^verbatim>\<open>umalloc.c\<close> and \<^verbatim>\<open>mkfs.c\<close>: they run in user space or on
  the host and touch the kernel only through the system calls modelled in \<^verbatim>\<open>Syscall\<close>.
\<close>

text \<open>
  The files that \<^verbatim>\<open>grep\<close> reads are the kernel's: \<^const>\<open>read_file\<close> is what \<^const>\<open>readi\<close> delivers into the buffer
  of the process from the part of a file that is still to be read.
\<close>

lemma read_file_readi:
  assumes "can_read s" "file_ok s i" "user_buffer s a (unat n)"
    and "unat off \<le> unat (i_size (k_icache s ! i))" "unat off + unat n < 2 ^ 32"
    and "read_file (unat n) (drop (unat off) (contents s i)) = (bs, rest)"
  shows "\<exists>t. readi i (ubuf a) off n s = Ret (int (length bs), bs) t \<and> load_bytes a (length bs) t = Ret bs t
    \<and> rest = drop (unat off + length bs) (contents s i)"
  using readi_user [OF assms(1-5) refl] assms(6) by (auto simp: read_file_def min_def not_le add.commute)

end
